(* ===== verification/Prelude.thy ===== *)
theory Prelude
  imports Main "HOL-Library.Word"
begin

text \<open>
  Shared vocabulary of the development: the machine types of \<^verbatim>\<open>src/common/Define.h\<close>, the
  failures a C++ operation can end in, \<open>size_t\<close> arithmetic with its wrap-around written
  out, and the generic facts on lists and results that the component theories use.

  A C++ operation that can fail is a function into \<open>'a result\<close>: \<open>Inl e\<close> is the
  exception or the assertion that ends it, \<open>Inr x\<close> its normal result.
\<close>

unbundle bit_operations_syntax

named_theorems wrap_simps \<open>size_t arithmetic without wrap-around\<close>
named_theorems buf_simps \<open>unfolding rules of the buffer operations\<close>

section \<open>Machine types\<close>

type_synonym uint8 = "8 word"
type_synonym uint16 = "16 word"
type_synonym uint32 = "32 word"
type_synonym uint64 = "64 word"
type_synonym bytes = "8 word list"

section \<open>Failures\<close>

datatype cpp_error =
    BufferPosition bool nat nat nat  \<comment> \<open>\<open>ByteBufferPositionException(add, pos, size, valueSize)\<close>\<close>
  | BufferEmpty                      \<comment> \<open>the bare \<open>ByteBufferException()\<close> of \<open>contents()\<close>\<close>
  | BufferInvalidValue string        \<comment> \<open>\<open>ByteBufferInvalidValueException(type, _)\<close>\<close>
  | OutOfRange string                \<comment> \<open>\<open>std::out_of_range(what)\<close>\<close>
  | InvalidCodePoint uint32          \<comment> \<open>the exceptions of \<^verbatim>\<open>deps/utf8cpp/utf8/checked.h\<close>\<close>
  | InvalidUtf8 uint8
  | InvalidUtf16 uint16
  | NotEnoughRoom
  | AssertionFailed                  \<comment> \<open>a failed \<open>ASSERT\<close>: the process ends\<close>
  | UndefinedBehaviour               \<comment> \<open>a memory access outside its object\<close>

type_synonym 'a result = "cpp_error + 'a"

definition rbind :: "'e + 'a \<Rightarrow> ('a \<Rightarrow> 'e + 'b) \<Rightarrow> 'e + 'b" where
  "rbind r f = (case r of Inl e \<Rightarrow> Inl e | Inr x \<Rightarrow> f x)"

definition is_ok :: "'e + 'a \<Rightarrow> bool" where
  "is_ok r = (case r of Inl _ \<Rightarrow> False | Inr _ \<Rightarrow> True)"

lemma rbind_Inl [simp]: "rbind (Inl e) f = Inl e"
  and rbind_Inr [simp]: "rbind (Inr x) f = f x"
  by (simp_all add: rbind_def)

lemma rbind_eq_Inr: "rbind r f = Inr y \<longleftrightarrow> (\<exists>x. r = Inr x \<and> f x = Inr y)"
  by (cases r) auto

lemma rbind_eq_Inl: "rbind r f = Inl e \<longleftrightarrow> r = Inl e \<or> (\<exists>x. r = Inr x \<and> f x = Inl e)"
  by (cases r) auto

lemma is_ok_simps [simp]: "\<not> is_ok (Inl e)" "is_ok (Inr x)"
  by (simp_all add: is_ok_def)

lemma is_ok_iff: "is_ok r \<longleftrightarrow> (\<exists>x. r = Inr x)"
  by (cases r) auto

section \<open>Size arithmetic\<close>

text \<open>
  \<open>size_t\<close> is 64 bits wide. A size is a \<^typ>\<open>nat\<close> below \<open>2 ^ 64\<close>; sums and
  differences wrap as unsigned arithmetic does.
\<close>

definition size_mod :: nat where
  "size_mod = 2 ^ 64"

definition sz_add :: "nat \<Rightarrow> nat \<Rightarrow> nat" where
  "sz_add a b = (a + b) mod size_mod"

definition sz_sub :: "nat \<Rightarrow> nat \<Rightarrow> nat" where
  "sz_sub a b = (a + (size_mod - b mod size_mod)) mod size_mod"

lemma size_mod_pos [simp]: "0 < size_mod"
  by (simp add: size_mod_def)

lemma sz_add_exact [wrap_simps]: "a + b < size_mod \<Longrightarrow> sz_add a b = a + b"
  by (simp add: sz_add_def)

lemma sz_sub_exact [wrap_simps]:
  assumes "b \<le> a" "a < size_mod"
  shows "sz_sub a b = a - b"
proof -
  have "a + (size_mod - b mod size_mod) = (a - b) + size_mod"
    using assms by simp
  then have "sz_sub a b = ((a - b) + size_mod) mod size_mod"
    by (simp only: sz_sub_def)
  also have "\<dots> = (a - b) mod size_mod"
    by (rule mod_add_self2)
  also have "\<dots> = a - b"
    using assms by simp
  finally show ?thesis .
qed

lemma sz_add_less [simp]: "sz_add a b < size_mod"
  by (simp add: sz_add_def)

section \<open>Words\<close>

lemma unat_less [simp]: "unat (w :: 'a::len word) < 2 ^ LENGTH('a)"
  by (rule unsigned_less)

lemma unat_byte_less [simp]: "unat (b :: uint8) < 256"
  using unat_less [of b] by simp

text \<open>Masks, shifts and disjoint unions of bits as arithmetic on \<^typ>\<open>nat\<close>.\<close>

lemma unat_and_mask: "m = mask n \<Longrightarrow> unat ((w :: 'a::len word) AND m) = unat w mod 2 ^ n"
  by (simp only: take_bit_eq_mask [symmetric] unsigned_take_bit_eq) (simp only: take_bit_eq_mod)

lemma unat_mask_and: "m = mask n \<Longrightarrow> unat (m AND (w :: 'a::len word)) = unat w mod 2 ^ n"
  by (subst and.commute) (rule unat_and_mask)

lemma unat_drop_bit: "unat (drop_bit n (w :: 'a::len word)) = unat w div 2 ^ n"
  by (simp only: unsigned_drop_bit_eq) (simp add: drop_bit_eq_div take_bit_nat_eq_self)

lemma unat_push_bit: "unat (push_bit n (w :: 'a::len word)) = unat w * 2 ^ n mod 2 ^ LENGTH('a)"
  by (simp only: unsigned_push_bit_eq) (simp add: push_bit_eq_mult take_bit_eq_mod)

lemma unat_ucast: "unat (ucast (w :: 'a::len word) :: 'b::len word) = unat w mod 2 ^ LENGTH('b)"
  by (simp only: unsigned_ucast_eq) (simp only: take_bit_eq_mod)

lemma unat_or: "unat ((v :: 'a::len word) OR w) = unat v OR unat w"
  by (simp add: unsigned_or_eq)

lemma or_add_nat:
  assumes "(x :: nat) < 2 ^ k" "2 ^ k dvd m"
  shows "x OR m = x + m"
proof -
  have "\<not> (bit x n \<and> bit m n)" for n
  proof (cases "n < k")
    case True
    from assms(2) obtain c where "m = push_bit k c"
      by (auto simp: push_bit_eq_mult elim!: dvdE)
    with True show ?thesis by (simp add: bit_push_bit_iff)
  next
    case False
    have "x = take_bit k x" using assms(1) by (simp add: take_bit_nat_eq_self)
    with False show ?thesis by (metis bit_take_bit_iff)
  qed
  then have "x AND m = 0" by (simp add: bit_eq_iff bit_and_iff)
  then show ?thesis by (rule disjunctive_add_eq_or [symmetric])
qed

lemma map_unat_inj: "map unat xs = map unat (ys :: 'a::len word list) \<Longrightarrow> xs = ys"
  by (rule map_injective) (auto intro: injI)

section \<open>Lists\<close>

text \<open>\<open>std::memcpy\<close> of \<open>src\<close> to offset \<open>pos\<close> of an array, in range.\<close>

definition blit :: "nat \<Rightarrow> 'a list \<Rightarrow> 'a list \<Rightarrow> 'a list" where
  "blit pos src dst = take pos dst @ src @ drop (pos + length src) dst"

text \<open>\<open>std::vector::resize(n, v)\<close>.\<close>

definition resize_list :: "nat \<Rightarrow> 'a \<Rightarrow> 'a list \<Rightarrow> 'a list" where
  "resize_list n v xs = take n xs @ replicate (n - length xs) v"

text \<open>The \<open>n\<close> elements from offset \<open>pos\<close>.\<close>

definition slice :: "nat \<Rightarrow> nat \<Rightarrow> 'a list \<Rightarrow> 'a list" where
  "slice pos n xs = take n (drop pos xs)"

lemma length_blit [simp]: "pos + length src \<le> length dst \<Longrightarrow> length (blit pos src dst) = length dst"
  by (simp add: blit_def)

lemma length_resize_list [simp]: "length (resize_list n v xs) = n"
  by (simp add: resize_list_def)

lemma resize_list_same [simp]: "n = length xs \<Longrightarrow> resize_list n v xs = xs"
  by (simp add: resize_list_def)

lemma resize_list_grow: "length xs \<le> n \<Longrightarrow> resize_list n v xs = xs @ replicate (n - length xs) v"
  by (simp add: resize_list_def)

lemma take_resize_list [simp]: "k \<le> n \<Longrightarrow> k \<le> length xs \<Longrightarrow> take k (resize_list n v xs) = take k xs"
  by (simp add: resize_list_def min_def)

lemma length_slice [simp]: "pos + n \<le> length xs \<Longrightarrow> length (slice pos n xs) = n"
  by (simp add: slice_def)

lemma slice_blit_same [simp]:
  "pos + length src \<le> length dst \<Longrightarrow> n = length src \<Longrightarrow> slice pos n (blit pos src dst) = src"
  by (simp add: slice_def blit_def)

lemma take_blit [simp]: "k \<le> pos \<Longrightarrow> pos \<le> length dst \<Longrightarrow> take k (blit pos src dst) = take k dst"
  by (simp add: blit_def min_def)

lemma blit_end [simp]: "blit (length xs) src (xs @ replicate (length src) v) = xs @ src"
  by (simp add: blit_def)

lemma slice_append_left: "pos + n \<le> length xs \<Longrightarrow> slice pos n (xs @ ys) = slice pos n xs"
  by (simp add: slice_def)

lemma slice_mid: "pos = length xs \<Longrightarrow> n = length ys \<Longrightarrow> slice pos n (xs @ ys @ zs) = ys"
  by (simp add: slice_def)

lemma take_Suc_slice:
  "pos + n \<le> length xs \<Longrightarrow> take (pos + n) xs = take pos xs @ slice pos n xs"
  by (simp add: slice_def take_add)

end
