(* ===== verification/Utf8.thy ===== *)
theory Utf8
  imports Prelude
begin

text \<open>
  The UTF-8 library the program calls (\<^verbatim>\<open>deps/utf8cpp/utf8/core.h\<close> and \<^verbatim>\<open>checked.h\<close>), used
  by \<open>ByteBuffer::ReadCString\<close> and \<open>Utf8toWStr\<close>.

  An iterator into an octet range is the list of the octets from it to the end of the
  range; \<open>it == end\<close> is \<open>it = []\<close>.  Reading through the end iterator is undefined
  behaviour and is written as such.
\<close>

section \<open>Code points, octets and surrogates (core.h)\<close>

definition mask8 :: "uint8 \<Rightarrow> uint8" where
  "mask8 oc = 0xff AND oc"

definition mask16 :: "uint16 \<Rightarrow> uint16" where
  "mask16 oc = 0xffff AND oc"

definition is_trail :: "uint8 \<Rightarrow> bool" where
  "is_trail oc \<longleftrightarrow> drop_bit 6 (mask8 oc) = 0x2"

definition is_lead_surrogate :: "uint32 \<Rightarrow> bool" where
  "is_lead_surrogate cp \<longleftrightarrow> cp \<ge> 0xd800 \<and> cp \<le> 0xdbff"

definition is_trail_surrogate :: "uint32 \<Rightarrow> bool" where
  "is_trail_surrogate cp \<longleftrightarrow> cp \<ge> 0xdc00 \<and> cp \<le> 0xdfff"

definition is_surrogate :: "uint32 \<Rightarrow> bool" where
  "is_surrogate cp \<longleftrightarrow> cp \<ge> 0xd800 \<and> cp \<le> 0xdfff"

definition is_code_point_valid :: "uint32 \<Rightarrow> bool" where
  "is_code_point_valid cp \<longleftrightarrow> cp \<le> 0x0010ffff \<and> \<not> is_surrogate cp"

text \<open>The argument is the octet the lead iterator points to.\<close>

definition sequence_length :: "uint8 \<Rightarrow> nat" where
  "sequence_length lead_octet =
     (let lead = mask8 lead_octet
      in if lead < 0x80 then 1
         else if drop_bit 5 lead = 0x6 then 2
         else if drop_bit 4 lead = 0xe then 3
         else if drop_bit 3 lead = 0x1e then 4
         else 0)"

definition is_overlong_sequence :: "uint32 \<Rightarrow> nat \<Rightarrow> bool" where
  "is_overlong_sequence cp len =
     (if cp < 0x80 then len \<noteq> 1
      else if cp < 0x800 then len \<noteq> 2
      else if cp < 0x10000 then len \<noteq> 3
      else False)"

section \<open>Decoding (core.h)\<close>

datatype utf_error = UTF8_OK | NOT_ENOUGH_ROOM | INVALID_LEAD | INCOMPLETE_SEQUENCE
  | OVERLONG_SEQUENCE | INVALID_CODE_POINT

text \<open>\<open>increase_safely\<close> is only called with an iterator before the end.\<close>

definition increase_safely :: "bytes \<Rightarrow> utf_error \<times> bytes" where
  "increase_safely it =
     (let it' = tl it
      in if it' = [] then (NOT_ENOUGH_ROOM, it')
         else if \<not> is_trail (hd it') then (INCOMPLETE_SEQUENCE, it')
         else (UTF8_OK, it'))"

definition get_sequence_1 :: "bytes \<Rightarrow> uint32 \<Rightarrow> utf_error \<times> bytes \<times> uint32" where
  "get_sequence_1 it cp =
     (if it = [] then (NOT_ENOUGH_ROOM, it, cp)
      else (UTF8_OK, it, ucast (mask8 (hd it))))"

definition get_sequence_2 :: "bytes \<Rightarrow> uint32 \<Rightarrow> utf_error \<times> bytes \<times> uint32" where
  "get_sequence_2 it cp =
     (if it = [] then (NOT_ENOUGH_ROOM, it, cp)
      else let cp = ucast (mask8 (hd it)); (err, it) = increase_safely it
        in if err \<noteq> UTF8_OK then (err, it, cp)
           else (UTF8_OK, it, (push_bit 6 cp AND 0x7ff) + (ucast (hd it) AND 0x3f)))"

definition get_sequence_3 :: "bytes \<Rightarrow> uint32 \<Rightarrow> utf_error \<times> bytes \<times> uint32" where
  "get_sequence_3 it cp =
     (if it = [] then (NOT_ENOUGH_ROOM, it, cp)
      else let cp = ucast (mask8 (hd it)); (err, it) = increase_safely it
        in if err \<noteq> UTF8_OK then (err, it, cp)
           else let cp = (push_bit 12 cp AND 0xffff) + (push_bit 6 (ucast (mask8 (hd it))) AND 0xfff);
                    (err, it) = increase_safely it
             in if err \<noteq> UTF8_OK then (err, it, cp)
                else (UTF8_OK, it, cp + (ucast (hd it) AND 0x3f)))"

definition get_sequence_4 :: "bytes \<Rightarrow> uint32 \<Rightarrow> utf_error \<times> bytes \<times> uint32" where
  "get_sequence_4 it cp =
     (if it = [] then (NOT_ENOUGH_ROOM, it, cp)
      else let cp = ucast (mask8 (hd it)); (err, it) = increase_safely it
        in if err \<noteq> UTF8_OK then (err, it, cp)
           else let cp = (push_bit 18 cp AND 0x1fffff) + (push_bit 12 (ucast (mask8 (hd it))) AND 0x3ffff);
                    (err, it) = increase_safely it
             in if err \<noteq> UTF8_OK then (err, it, cp)
                else let cp = cp + (push_bit 6 (ucast (mask8 (hd it))) AND 0xfff);
                         (err, it) = increase_safely it
                  in if err \<noteq> UTF8_OK then (err, it, cp)
                     else (UTF8_OK, it, cp + (ucast (hd it) AND 0x3f)))"

text \<open>
  \<open>validate_next(it, end, code_point)\<close>: the error code, the iterator afterwards and the
  code point afterwards (unchanged unless the sequence is accepted).
\<close>

definition validate_next :: "bytes \<Rightarrow> uint32 \<Rightarrow> (utf_error \<times> bytes \<times> uint32) result" where
  "validate_next it code_point =
     (if it = [] then Inl UndefinedBehaviour
      else let len = sequence_length (hd it)
        in if len = 0 then Inr (INVALID_LEAD, it, code_point)
           else let (err, it', cp) =
                      (if len = 1 then get_sequence_1 it 0
                       else if len = 2 then get_sequence_2 it 0
                       else if len = 3 then get_sequence_3 it 0
                       else get_sequence_4 it 0)
             in if err = UTF8_OK then
                  (if is_code_point_valid cp then
                     (if \<not> is_overlong_sequence cp len then Inr (UTF8_OK, tl it', cp)
                      else Inr (OVERLONG_SEQUENCE, it, code_point))
                   else Inr (INVALID_CODE_POINT, it, code_point))
                else Inr (err, it, code_point))"

lemma increase_safely_length: "increase_safely it = (e, it') \<Longrightarrow> length it' \<le> length it"
  by (auto simp: increase_safely_def Let_def split: if_splits)

lemma get_sequence_length:
  "get_sequence_1 it cp = (e, it', cp') \<Longrightarrow> length it' \<le> length it"
  "get_sequence_2 it cp = (e, it', cp') \<Longrightarrow> length it' \<le> length it"
  "get_sequence_3 it cp = (e, it', cp') \<Longrightarrow> length it' \<le> length it"
  "get_sequence_4 it cp = (e, it', cp') \<Longrightarrow> length it' \<le> length it"
  by (auto simp: get_sequence_1_def get_sequence_2_def get_sequence_3_def get_sequence_4_def Let_def
      split: if_splits prod.splits dest!: increase_safely_length)

lemma validate_next_shorter:
  assumes "validate_next it cp = Inr (UTF8_OK, it', cp')"
  shows "length it' < length it"
proof -
  from assms have ne: "it \<noteq> []" by (auto simp: validate_next_def)
  from assms obtain it'' where tl: "it' = tl it''" and le: "length it'' \<le> length it"
    by (auto simp: validate_next_def Let_def split: if_splits prod.splits
        dest: get_sequence_length)
  have "length (tl it'') < length it"
    using ne le by (cases it'') auto
  with tl show ?thesis by simp
qed

text \<open>\<open>find_invalid\<close>: the iterator at the first sequence that is not accepted.\<close>

function find_invalid :: "bytes \<Rightarrow> bytes" where
  "find_invalid it =
     (if it = [] then it
      else case validate_next it 0 of
             Inr (UTF8_OK, it', _) \<Rightarrow> find_invalid it'
           | _ \<Rightarrow> it)"
  by pat_completeness auto
termination
  by (relation "measure length") (auto dest: validate_next_shorter)

declare find_invalid.simps [simp del]

definition is_valid :: "bytes \<Rightarrow> bool" where
  "is_valid s \<longleftrightarrow> find_invalid s = []"

definition bom :: bytes where
  "bom = [0xef, 0xbb, 0xbf]"

definition starts_with_bom :: "bytes \<Rightarrow> bool" where
  "starts_with_bom it =
     ((it \<noteq> [] \<and> mask8 (hd it) = bom ! 0) \<and>
      (tl it \<noteq> [] \<and> mask8 (hd (tl it)) = bom ! 1) \<and>
      (tl (tl it) \<noteq> [] \<and> mask8 (hd (tl (tl it))) = bom ! 2))"

section \<open>Encoding (checked.h)\<close>

text \<open>The octets \<open>utf8::append\<close> writes for a code point it accepts.\<close>

definition octets :: "uint32 \<Rightarrow> bytes" where
  "octets cp =
     (if cp < 0x80 then [ucast cp]
      else if cp < 0x800 then
        [ucast (drop_bit 6 cp OR 0xc0), ucast ((cp AND 0x3f) OR 0x80)]
      else if cp < 0x10000 then
        [ucast (drop_bit 12 cp OR 0xe0), ucast ((drop_bit 6 cp AND 0x3f) OR 0x80),
         ucast ((cp AND 0x3f) OR 0x80)]
      else
        [ucast (drop_bit 18 cp OR 0xf0), ucast ((drop_bit 12 cp AND 0x3f) OR 0x80),
         ucast ((drop_bit 6 cp AND 0x3f) OR 0x80), ucast ((cp AND 0x3f) OR 0x80)])"

definition utf8_append :: "uint32 \<Rightarrow> bytes \<Rightarrow> bytes result" where
  "utf8_append cp out =
     (if \<not> is_code_point_valid cp then Inl (InvalidCodePoint cp) else Inr (out @ octets cp))"

section \<open>Octets and code points as numbers\<close>

lemma masks:
  "(0xff :: uint8) = mask 8" "(0x3f :: uint32) = mask 6" "(0x7ff :: uint32) = mask 11"
  "(0xfff :: uint32) = mask 12" "(0xffff :: uint32) = mask 16" "(0x3ffff :: uint32) = mask 18"
  "(0x1fffff :: uint32) = mask 21" "(0xffff :: uint16) = mask 16" "(0x3ff :: uint32) = mask 10"
  by (simp_all add: mask_eq_exp_minus_1)

lemma mask8_id [simp]: "mask8 b = b"
  by (simp add: word_unat_eq_iff mask8_def masks unat_mask_and del: One_nat_def)

lemma is_trail_iff: "is_trail b \<longleftrightarrow> 128 \<le> unat b \<and> unat b < 192"
proof -
  have "is_trail b \<longleftrightarrow> unat b div 64 = 2"
    by (simp add: is_trail_def word_unat_eq_iff unat_drop_bit)
  then show ?thesis by arith
qed

lemma sequence_length_eq:
  "sequence_length b =
     (if unat b < 128 then 1 else if unat b < 192 then 0 else if unat b < 224 then 2
      else if unat b < 240 then 3 else if unat b < 248 then 4 else 0)"
proof -
  have "sequence_length b =
     (if unat b < 128 then 1 else if unat b div 32 = 6 then 2 else if unat b div 16 = 14 then 3
      else if unat b div 8 = 30 then 4 else 0)"
    by (simp add: sequence_length_def word_unat_eq_iff word_less_nat_alt unat_drop_bit)
  then show ?thesis by (simp split: if_splits) arith+
qed

lemma code_point_valid_iff:
  "is_code_point_valid cp \<longleftrightarrow> unat cp < 1114112 \<and> (unat cp < 55296 \<or> 57343 < unat cp)"
  by (auto simp: is_code_point_valid_def is_surrogate_def word_le_nat_alt)

lemma overlong_iff:
  "is_overlong_sequence cp len \<longleftrightarrow>
     (if unat cp < 128 then len \<noteq> 1 else if unat cp < 2048 then len \<noteq> 2
      else if unat cp < 65536 then len \<noteq> 3 else False)"
  by (simp add: is_overlong_sequence_def word_less_nat_alt)

lemma unat_octets:
  assumes "unat cp < 1114112"
  shows "map unat (octets cp) =
    (let c = unat cp in
     if c < 128 then [c]
     else if c < 2048 then [192 + c div 64, 128 + c mod 64]
     else if c < 65536 then [224 + c div 4096, 128 + c div 64 mod 64, 128 + c mod 64]
     else [240 + c div 262144, 128 + c div 4096 mod 64, 128 + c div 64 mod 64, 128 + c mod 64])"
proof -
  have "x OR 128 = x + 128" if "x < 64" for x :: nat
    by (rule or_add_nat [of _ 7]) (use that in auto)
  moreover have "x OR 192 = x + 192" if "x < 32" for x :: nat
    by (rule or_add_nat [of _ 6]) (use that in auto)
  moreover have "x OR 224 = x + 224" if "x < 16" for x :: nat
    by (rule or_add_nat [of _ 5]) (use that in auto)
  moreover have "x OR 240 = x + 240" if "x < 8" for x :: nat
    by (rule or_add_nat [of _ 4]) (use that in auto)
  ultimately show ?thesis
    using assms
    by (simp add: octets_def Let_def word_less_nat_alt unat_ucast unat_or unat_drop_bit
        masks unat_and_mask div_less_iff_less_mult)
qed

section \<open>Decoding inverts encoding\<close>

lemma unat_ucast_byte [simp]: "unat (ucast (b :: uint8) :: uint32) = unat b"
proof -
  have "unat b < 2 ^ 32" by (rule less_trans [OF unat_byte_less]) simp
  then show ?thesis by (simp add: unat_ucast)
qed

lemma byte_shift_exact [simp]: "k \<le> 16777216 \<Longrightarrow> unat (b :: uint8) * k mod 4294967296 = unat b * k"
proof -
  assume "k \<le> 16777216"
  moreover have "unat b \<le> 255"
    using unat_byte_less [of b] by linarith
  ultimately have "unat b * k \<le> 255 * 16777216"
    by (intro mult_le_mono)
  then show ?thesis by simp
qed

lemma get_sequence_2_word:
  assumes "get_sequence_2 it x = (UTF8_OK, it', cp)"
  obtains a b r where "it = a # b # r" "is_trail b" "it' = b # r"
    "cp = (push_bit 6 (ucast a) AND 0x7ff) + (ucast b AND 0x3f)"
  using assms
  by (cases it; cases "tl it")
    (auto simp: get_sequence_2_def increase_safely_def Let_def split: if_splits)

lemma get_sequence_2_value:
  assumes "get_sequence_2 it x = (UTF8_OK, it', cp)"
  obtains a b r where "it = a # b # r" "is_trail b" "it' = b # r"
    "unat cp = unat a * 64 mod 2048 + unat b mod 64"
proof -
  from assms obtain a b r where it: "it = a # b # r" "is_trail b" "it' = b # r"
    and cp: "cp = (push_bit 6 (ucast a) AND 0x7ff) + (ucast b AND 0x3f)"
    by (rule get_sequence_2_word)
  have "unat cp = unat a * 64 mod 2048 + unat b mod 64"
    unfolding cp masks
    by (simp add: unat_word_ariths(1) unat_and_mask unat_push_bit)
  with it show thesis by (rule that)
qed

lemma get_sequence_3_word:
  assumes "get_sequence_3 it x = (UTF8_OK, it', cp)"
  obtains a b c r where "it = a # b # c # r" "is_trail b" "is_trail c" "it' = c # r"
    "cp = (push_bit 12 (ucast a) AND 0xffff) + (push_bit 6 (ucast b) AND 0xfff) + (ucast c AND 0x3f)"
  using assms
  by (cases it; cases "tl it"; cases "tl (tl it)")
    (auto simp: get_sequence_3_def increase_safely_def Let_def split: if_splits)

lemma get_sequence_3_value:
  assumes "get_sequence_3 it x = (UTF8_OK, it', cp)"
  obtains a b c r where "it = a # b # c # r" "is_trail b" "is_trail c" "it' = c # r"
    "unat cp = unat a * 4096 mod 65536 + unat b * 64 mod 4096 + unat c mod 64"
proof -
  from assms obtain a b c r where it: "it = a # b # c # r" "is_trail b" "is_trail c" "it' = c # r"
    and cp: "cp = (push_bit 12 (ucast a) AND 0xffff) + (push_bit 6 (ucast b) AND 0xfff) + (ucast c AND 0x3f)"
    by (rule get_sequence_3_word)
  have "unat cp = unat a * 4096 mod 65536 + unat b * 64 mod 4096 + unat c mod 64"
    unfolding cp masks
    by (simp add: unat_word_ariths(1) unat_and_mask unat_push_bit)
  with it show thesis by (rule that)
qed

lemma get_sequence_4_word:
  assumes "get_sequence_4 it x = (UTF8_OK, it', cp)"
  obtains a b c d r where "it = a # b # c # d # r" "is_trail b" "is_trail c" "is_trail d" "it' = d # r"
    "cp = (push_bit 18 (ucast a) AND 0x1fffff) + (push_bit 12 (ucast b) AND 0x3ffff)
      + (push_bit 6 (ucast c) AND 0xfff) + (ucast d AND 0x3f)"
  using assms
  by (cases it; cases "tl it"; cases "tl (tl it)"; cases "tl (tl (tl it))")
    (auto simp: get_sequence_4_def increase_safely_def Let_def split: if_splits)

lemma get_sequence_4_value:
  assumes "get_sequence_4 it x = (UTF8_OK, it', cp)"
  obtains a b c d r where "it = a # b # c # d # r" "is_trail b" "is_trail c" "is_trail d" "it' = d # r"
    "unat cp = unat a * 262144 mod 2097152 + unat b * 4096 mod 262144 + unat c * 64 mod 4096
       + unat d mod 64"
proof -
  from assms obtain a b c d r where it: "it = a # b # c # d # r" "is_trail b" "is_trail c" "is_trail d" "it' = d # r"
    and cp: "cp = (push_bit 18 (ucast a) AND 0x1fffff) + (push_bit 12 (ucast b) AND 0x3ffff)
      + (push_bit 6 (ucast c) AND 0xfff) + (ucast d AND 0x3f)"
    by (rule get_sequence_4_word)
  have "unat cp = unat a * 262144 mod 2097152 + unat b * 4096 mod 262144 + unat c * 64 mod 4096
       + unat d mod 64"
    unfolding cp masks
    by (simp add: unat_word_ariths(1) unat_and_mask unat_push_bit)
  with it show thesis by (rule that)
qed

text \<open>
  The payload bits of a lead or trail octet, shifted into place and cut off, and the
  base-64 digits of the sum.
\<close>

lemma payload_shift: "(x :: nat) < n \<Longrightarrow> (n * k + x) * s mod (n * s) = x * s"
proof -
  assume "x < n"
  have "(n * k + x) * s = x * s + n * s * k" by (simp add: algebra_simps)
  then have "(n * k + x) * s mod (n * s) = x * s mod (n * s)" by simp
  also have "\<dots> = x * s" using \<open>x < n\<close> by (cases "s = 0") simp_all
  finally show ?thesis .
qed

lemmas payloads =
  payload_shift [where n = 64 and k = 2 and s = 1, simplified]
  payload_shift [where n = 64 and k = 2 and s = 64, simplified]
  payload_shift [where n = 64 and k = 2 and s = 4096, simplified]
  payload_shift [where n = 32 and k = 6 and s = 64, simplified]
  payload_shift [where n = 16 and k = 14 and s = 4096, simplified]
  payload_shift [where n = 8 and k = 30 and s = 262144, simplified]

lemma digits64:
  assumes "(z :: nat) < 64"
  shows "(w * 64 + z) div 64 = w" "(w * 64 + z) mod 64 = z"
  using assms by simp_all

lemma div4096: "(c :: nat) div 4096 = c div 64 div 64"
  by (simp add: div_mult2_eq [symmetric])

lemma div262144: "(c :: nat) div 262144 = c div 64 div 64 div 64"
  by (simp add: div_mult2_eq [symmetric])

lemma base64_digits:
  "(c :: nat) div 4096 * 4096 + c div 64 mod 64 * 64 + c mod 64 = c"
  "c div 262144 * 262144 + c div 4096 mod 64 * 4096 + c div 64 mod 64 * 64 + c mod 64 = c"
proof -
  have step: "x * 64 + r = n \<Longrightarrow> y * 64 + s = x \<Longrightarrow> y * 4096 + s * 64 + r = n"
    for x r n y s :: nat by simp
  show 1: "c div 4096 * 4096 + c div 64 mod 64 * 64 + c mod 64 = c"
    unfolding div4096 by (rule step) (rule div_mult_mod_eq)+
  have "c div 262144 * 64 + c div 4096 mod 64 = c div 4096"
    unfolding div4096 div262144 by (rule div_mult_mod_eq)
  then have "c div 262144 * 262144 + c div 4096 mod 64 * 4096 = c div 4096 * 4096"
    by simp
  with 1 show "c div 262144 * 262144 + c div 4096 mod 64 * 4096 + c div 64 mod 64 * 64 + c mod 64 = c"
    by simp
qed

lemma trail_payload: "is_trail b \<Longrightarrow> \<exists>y<64. unat b = 128 + y"
  by (rule exI [of _ "unat b - 128"]) (simp add: is_trail_iff, arith)

lemma lead_payload:
  "sequence_length a = 2 \<Longrightarrow> \<exists>x<32. unat a = 192 + x"
  "sequence_length a = 3 \<Longrightarrow> \<exists>x<16. unat a = 224 + x"
  "sequence_length a = 4 \<Longrightarrow> \<exists>x<8. unat a = 240 + x"
  by (rule exI [of _ "unat a - 192"] exI [of _ "unat a - 224"] exI [of _ "unat a - 240"],
      simp add: sequence_length_eq split: if_splits)+

text \<open>The bytes accepted in one step, by the length of the sequence.\<close>

lemma validate_next_value:
  assumes "validate_next it x = Inr (UTF8_OK, r, cp)"
  shows "is_code_point_valid cp" and "it = octets cp @ r"
proof -
  from assms obtain it' where
    len: "sequence_length (hd it) \<noteq> 0" and ne: "it \<noteq> []"
    and ov: "\<not> is_overlong_sequence cp (sequence_length (hd it))"
    and valid: "is_code_point_valid cp" and r: "r = tl it'"
    and get: "(if sequence_length (hd it) = 1 then get_sequence_1 it 0
      else if sequence_length (hd it) = 2 then get_sequence_2 it 0
      else if sequence_length (hd it) = 3 then get_sequence_3 it 0
      else get_sequence_4 it 0) = (UTF8_OK, it', cp)"
    by (auto simp: validate_next_def Let_def split: if_splits prod.splits)
  show "is_code_point_valid cp" by (rule valid)
  have c: "unat cp < 1114112" using valid by (simp add: code_point_valid_iff)
  consider (1) "sequence_length (hd it) = 1" | (2) "sequence_length (hd it) = 2"
    | (3) "sequence_length (hd it) = 3" | (4) "sequence_length (hd it) = 4"
    using len by (simp add: sequence_length_eq split: if_splits)
  then show "it = octets cp @ r"
  proof cases
    case 1
    then obtain b where it: "it = b # r" and cp: "unat cp = unat b"
      using get r ne by (cases it) (auto simp: get_sequence_1_def)
    have "unat b < 128"
      using 1 it by (simp add: sequence_length_eq split: if_splits)
    then have "map unat (octets cp) = map unat [b]"
      by (simp add: unat_octets [OF c] cp)
    from map_unat_inj [OF this] show ?thesis by (simp add: it)
  next
    case 2
    with get have "get_sequence_2 it 0 = (UTF8_OK, it', cp)" by simp
    then obtain a b rest where it: "it = a # b # rest" "it' = b # rest" "is_trail b"
      and cp: "unat cp = unat a * 64 mod 2048 + unat b mod 64"
      by (rule get_sequence_2_value)
    from 2 it lead_payload(1) obtain x where x: "x < 32" "unat a = 192 + x" by auto
    from it trail_payload obtain y where y: "y < 64" "unat b = 128 + y" by auto
    have cp': "unat cp = x * 64 + y" using cp x y by (simp add: payloads)
    then have "map unat (octets cp) = map unat [a, b]"
      using 2 ov x y
      by (simp add: unat_octets [OF c] overlong_iff digits64 Let_def split: if_splits)
    from map_unat_inj [OF this] show ?thesis using it r by simp
  next
    case 3
    with get have "get_sequence_3 it 0 = (UTF8_OK, it', cp)" by simp
    then obtain a b d rest where it: "it = a # b # d # rest" "it' = d # rest" "is_trail b" "is_trail d"
      and cp: "unat cp = unat a * 4096 mod 65536 + unat b * 64 mod 4096 + unat d mod 64"
      by (rule get_sequence_3_value)
    from 3 it lead_payload(2) obtain x where x: "x < 16" "unat a = 224 + x" by auto
    from it trail_payload obtain y where y: "y < 64" "unat b = 128 + y" by blast
    from it trail_payload obtain z where z: "z < 64" "unat d = 128 + z" by blast
    have cp': "unat cp = (x * 64 + y) * 64 + z" using cp x y z by (simp add: payloads)
    moreover have "(x * 64 + y) * 64 + z < 65536" using x y z by simp
    ultimately have "map unat (octets cp) = map unat [a, b, d]"
      using 3 ov x y z
      by (simp add: unat_octets [OF c] overlong_iff digits64 div4096 Let_def
          del: distrib_right_numeral split: if_splits)
    from map_unat_inj [OF this] show ?thesis using it r by simp
  next
    case 4
    with get have "get_sequence_4 it 0 = (UTF8_OK, it', cp)" by simp
    then obtain a b d e rest where it: "it = a # b # d # e # rest" "it' = e # rest"
        "is_trail b" "is_trail d" "is_trail e"
      and cp: "unat cp = unat a * 262144 mod 2097152 + unat b * 4096 mod 262144
        + unat d * 64 mod 4096 + unat e mod 64"
      by (rule get_sequence_4_value)
    from 4 it lead_payload(3) obtain x where x: "x < 8" "unat a = 240 + x" by auto
    from it trail_payload obtain y where y: "y < 64" "unat b = 128 + y" by blast
    from it trail_payload obtain z where z: "z < 64" "unat d = 128 + z" by blast
    from it trail_payload obtain u where u: "u < 64" "unat e = 128 + u" by blast
    have cp': "unat cp = ((x * 64 + y) * 64 + z) * 64 + u" using cp x y z u by (simp add: payloads)
    then have "map unat (octets cp) = map unat [a, b, d, e]"
      using 4 ov x y z u
      by (simp add: unat_octets [OF c] overlong_iff digits64 div4096 div262144 Let_def
          del: distrib_right_numeral split: if_splits)
    from map_unat_inj [OF this] show ?thesis using it r by simp
  qed
qed

text \<open>Conversely the octets of a valid code point are accepted, whatever follows them.\<close>

lemma get_sequence_ok:
  "get_sequence_1 (a # r) x = (UTF8_OK, a # r, ucast a)"
  "is_trail b \<Longrightarrow> \<exists>cp. get_sequence_2 (a # b # r) x = (UTF8_OK, b # r, cp)"
  "is_trail b \<Longrightarrow> is_trail c \<Longrightarrow> \<exists>cp. get_sequence_3 (a # b # c # r) x = (UTF8_OK, c # r, cp)"
  "is_trail b \<Longrightarrow> is_trail c \<Longrightarrow> is_trail d \<Longrightarrow>
     \<exists>cp. get_sequence_4 (a # b # c # d # r) x = (UTF8_OK, d # r, cp)"
  by (simp_all add: get_sequence_1_def get_sequence_2_def get_sequence_3_def get_sequence_4_def
      increase_safely_def)

lemma validate_next_octets:
  assumes valid: "is_code_point_valid cp"
  shows "validate_next (octets cp @ r) x = Inr (UTF8_OK, r, cp)"
proof -
  have c: "unat cp < 1114112" using valid by (simp add: code_point_valid_iff)
  define n where "n = unat cp"
  note dec = base64_digits [of n]
  note octs = unat_octets [OF c, folded n_def]
  note [simp] = validate_next_def valid
  consider (1) "n < 128" | (2) "128 \<le> n" "n < 2048" | (3) "2048 \<le> n" "n < 65536"
    | (4) "65536 \<le> n" "n < 1114112"
    using c n_def by linarith
  then show ?thesis
  proof cases
    case 1
    then obtain a where o: "octets cp = [a]" "unat a = n"
      using octs by (auto simp: map_eq_Cons_conv)
    have "ucast a = cp" using o by (simp add: word_unat_eq_iff n_def)
    then show ?thesis
      using 1 o by (simp add: sequence_length_eq get_sequence_ok overlong_iff flip: n_def)
  next
    case 2
    then obtain a b where o: "octets cp = [a, b]" "unat a = 192 + n div 64" "unat b = 128 + n mod 64"
      using octs by (auto simp: map_eq_Cons_conv)
    have tr: "is_trail b" using o by (simp add: is_trail_iff)
    have len: "sequence_length a = 2" using o 2 by (simp add: sequence_length_eq)
    from get_sequence_ok(2) [OF tr] obtain cp' where g: "get_sequence_2 (a # b # r) 0 = (UTF8_OK, b # r, cp')"
      by blast
    have "unat cp' = n"
      by (rule get_sequence_2_value [OF g]) (use o 2 in \<open>simp add: payloads\<close>)
    then have "cp' = cp" by (simp add: word_unat_eq_iff n_def)
    then show ?thesis using 2 o g len by (simp add: overlong_iff flip: n_def)
  next
    case 3
    then obtain a b d where o: "octets cp = [a, b, d]" "unat a = 224 + n div 4096"
        "unat b = 128 + n div 64 mod 64" "unat d = 128 + n mod 64"
      using octs by (auto simp: map_eq_Cons_conv)
    have tr: "is_trail b" "is_trail d" using o by (simp_all add: is_trail_iff)
    have len: "sequence_length a = 3" using o 3 by (simp add: sequence_length_eq)
    from get_sequence_ok(3) [OF tr] obtain cp' where g: "get_sequence_3 (a # b # d # r) 0 = (UTF8_OK, d # r, cp')"
      by blast
    have "unat cp' = n"
      by (rule get_sequence_3_value [OF g]) (use o 3 dec(1) in \<open>simp add: payloads\<close>)
    then have "cp' = cp" by (simp add: word_unat_eq_iff n_def)
    then show ?thesis using 3 o g len by (simp add: overlong_iff flip: n_def)
  next
    case 4
    then obtain a b d e where o: "octets cp = [a, b, d, e]" "unat a = 240 + n div 262144"
        "unat b = 128 + n div 4096 mod 64" "unat d = 128 + n div 64 mod 64" "unat e = 128 + n mod 64"
      using octs by (auto simp: map_eq_Cons_conv)
    have tr: "is_trail b" "is_trail d" "is_trail e" using o by (simp_all add: is_trail_iff)
    have len: "sequence_length a = 4" using o 4 by (simp add: sequence_length_eq)
    from get_sequence_ok(4) [OF tr] obtain cp' where
      g: "get_sequence_4 (a # b # d # e # r) 0 = (UTF8_OK, e # r, cp')"
      by blast
    have "unat cp' = n"
      by (rule get_sequence_4_value [OF g]) (use o 4 dec(2) in \<open>simp add: payloads\<close>)
    then have "cp' = cp" by (simp add: word_unat_eq_iff n_def)
    then show ?thesis using 4 o g len by (simp add: overlong_iff flip: n_def)
  qed
qed

section \<open>Whole strings (core.h and checked.h)\<close>

lemma octets_not_Nil [simp]: "octets cp \<noteq> []"
  by (simp add: octets_def)

lemma find_invalid_Nil [simp]: "find_invalid [] = []"
  by (simp add: find_invalid.simps)

lemma find_invalid_octets [simp]:
  "is_code_point_valid cp \<Longrightarrow> find_invalid (octets cp @ r) = find_invalid r"
  by (subst find_invalid.simps) (simp add: validate_next_octets)

lemma is_valid_encode: "list_all is_code_point_valid cps \<Longrightarrow> is_valid (concat (map octets cps))"
  by (induction cps) (auto simp: is_valid_def)

lemma is_valid_decode: "is_valid s \<Longrightarrow> \<exists>cps. list_all is_code_point_valid cps \<and> s = concat (map octets cps)"
proof (induction s rule: find_invalid.induct)
  case (1 it)
  show ?case
  proof (cases "it = []")
    case True
    then show ?thesis by (intro exI [of _ "[]"]) simp
  next
    case False
    from 1(2) False obtain it' cp where v: "validate_next it 0 = Inr (UTF8_OK, it', cp)"
      and it': "is_valid it'"
      by (auto simp: is_valid_def find_invalid.simps [of it]
          split: sum.splits prod.splits utf_error.splits)
    from 1(1) [OF False v refl refl _ it'] obtain cps
      where "list_all is_code_point_valid cps" "it' = concat (map octets cps)" by auto
    with validate_next_value [OF v] show ?thesis
      by (intro exI [of _ "cp # cps"]) simp
  qed
qed

definition utf8_next :: "bytes \<Rightarrow> (uint32 \<times> bytes) result" where
  "utf8_next it =
     rbind (validate_next it 0) (\<lambda>(err_code, it', cp).
       case err_code of
         UTF8_OK \<Rightarrow> Inr (cp, it')
       | NOT_ENOUGH_ROOM \<Rightarrow> Inl NotEnoughRoom
       | INVALID_LEAD \<Rightarrow> Inl (InvalidUtf8 (hd it'))
       | INCOMPLETE_SEQUENCE \<Rightarrow> Inl (InvalidUtf8 (hd it'))
       | OVERLONG_SEQUENCE \<Rightarrow> Inl (InvalidUtf8 (hd it'))
       | INVALID_CODE_POINT \<Rightarrow> Inl (InvalidCodePoint cp))"

definition peek_next :: "bytes \<Rightarrow> uint32 result" where
  "peek_next it = rbind (utf8_next it) (\<lambda>(cp, _). Inr cp)"

lemma utf8_next_Inr: "utf8_next it = Inr (cp, it') \<longleftrightarrow> validate_next it 0 = Inr (UTF8_OK, it', cp)"
proof (cases "validate_next it 0")
  case (Inr t)
  then obtain e i c where "validate_next it 0 = Inr (e, i, c)" by (cases t) simp
  then show ?thesis by (cases e) (auto simp: utf8_next_def)
qed (simp add: utf8_next_def)

lemma utf8_next_shorter: "utf8_next it = Inr (cp, it') \<Longrightarrow> length it' < length it"
  by (auto simp: utf8_next_Inr dest: validate_next_shorter)

text \<open>\<open>replace_invalid(start, end, out, replacement)\<close>.\<close>

function replace_invalid :: "bytes \<Rightarrow> bytes \<Rightarrow> uint32 \<Rightarrow> bytes result" where
  "replace_invalid start out replacement =
     (if start = [] then Inr out
      else case validate_next start 0 of
        Inl e \<Rightarrow> Inl e
      | Inr (err_code, start', _) \<Rightarrow>
          (case err_code of
             UTF8_OK \<Rightarrow>
               replace_invalid start' (out @ take (length start - length start') start) replacement
           | NOT_ENOUGH_ROOM \<Rightarrow> Inl NotEnoughRoom
           | INVALID_LEAD \<Rightarrow>
               (case utf8_append replacement out of
                  Inl e \<Rightarrow> Inl e
                | Inr out' \<Rightarrow> replace_invalid (tl start) out' replacement)
           | _ \<Rightarrow>
               (case utf8_append replacement out of
                  Inl e \<Rightarrow> Inl e
                | Inr out' \<Rightarrow> replace_invalid (dropWhile is_trail (tl start)) out' replacement)))"
  by pat_completeness auto
termination
  by (relation "measure (\<lambda>(start, _, _). length start)")
    (auto dest: validate_next_shorter intro: le_less_trans [OF length_dropWhile_le])

declare replace_invalid.simps [simp del]

fun advance :: "bytes \<Rightarrow> nat \<Rightarrow> bytes result" where
  "advance it 0 = Inr it"
| "advance it (Suc n) = rbind (utf8_next it) (\<lambda>(_, it'). advance it' n)"

function distance :: "bytes \<Rightarrow> nat \<Rightarrow> nat result" where
  "distance first dist =
     (if first = [] then Inr dist
      else case utf8_next first of
        Inl e \<Rightarrow> Inl e
      | Inr (_, first') \<Rightarrow> distance first' (Suc dist))"
  by pat_completeness auto
termination
  by (relation "measure (\<lambda>(first, _). length first)") (auto dest: utf8_next_shorter)

declare distance.simps [simp del]

text \<open>
  \<open>prior(it, start)\<close>: the range from \<open>start\<close> is \<open>s\<close> and \<open>it\<close> is the offset \<open>i\<close>.  The
  result is the code point before \<open>it\<close> and the offset it starts at.
\<close>

fun back_to_lead :: "bytes \<Rightarrow> nat \<Rightarrow> nat result" where
  "back_to_lead s 0 = (if is_trail (s ! 0) then Inl (InvalidUtf8 (s ! 0)) else Inr 0)"
| "back_to_lead s (Suc j) = (if is_trail (s ! Suc j) then back_to_lead s j else Inr (Suc j))"

definition prior :: "bytes \<Rightarrow> nat \<Rightarrow> (uint32 \<times> nat) result" where
  "prior s i =
     (if i = 0 then Inl NotEnoughRoom
      else rbind (back_to_lead s (i - 1)) (\<lambda>j.
        rbind (peek_next (slice j (i - j) s)) (\<lambda>cp. Inr (cp, j))))"

section \<open>Conversions to UTF-16 and UTF-32 (checked.h)\<close>

definition LEAD_OFFSET :: uint32 where
  "LEAD_OFFSET = 0xd800 - drop_bit 10 0x10000"

definition SURROGATE_OFFSET :: uint32 where
  "SURROGATE_OFFSET = 0x10000 - push_bit 10 0xd800 - 0xdc00"

text \<open>The 16-bit units \<open>utf8to16\<close> writes for one code point.\<close>

definition units16 :: "uint32 \<Rightarrow> uint16 list" where
  "units16 cp =
     (if cp > 0xffff then
        [ucast (drop_bit 10 cp + LEAD_OFFSET), ucast ((cp AND 0x3ff) + 0xdc00)]
      else [ucast cp])"

function utf8to16 :: "bytes \<Rightarrow> uint16 list \<Rightarrow> uint16 list result" where
  "utf8to16 start out =
     (if start = [] then Inr out
      else case utf8_next start of
        Inl e \<Rightarrow> Inl e
      | Inr (cp, start') \<Rightarrow> utf8to16 start' (out @ units16 cp))"
  by pat_completeness auto
termination
  by (relation "measure (\<lambda>(start, _). length start)") (auto dest: utf8_next_shorter)

declare utf8to16.simps [simp del]

fun utf16to8 :: "uint16 list \<Rightarrow> bytes \<Rightarrow> bytes result" where
  "utf16to8 [] out = Inr out"
| "utf16to8 (u # start) out =
     (let cp = ucast (mask16 u) :: uint32
      in if is_lead_surrogate cp then
           (case start of
              [] \<Rightarrow> Inl (InvalidUtf16 (ucast cp))
            | t # start' \<Rightarrow>
                let trail_surrogate = ucast (mask16 t) :: uint32
                in if is_trail_surrogate trail_surrogate then
                     (case utf8_append (push_bit 10 cp + trail_surrogate + SURROGATE_OFFSET) out of
                        Inl e \<Rightarrow> Inl e
                      | Inr out' \<Rightarrow> utf16to8 start' out')
                   else Inl (InvalidUtf16 (ucast trail_surrogate)))
         else if is_trail_surrogate cp then Inl (InvalidUtf16 (ucast cp))
         else (case utf8_append cp out of Inl e \<Rightarrow> Inl e | Inr out' \<Rightarrow> utf16to8 start out'))"

fun utf32to8 :: "uint32 list \<Rightarrow> bytes \<Rightarrow> bytes result" where
  "utf32to8 [] out = Inr out"
| "utf32to8 (cp # start) out = rbind (utf8_append cp out) (utf32to8 start)"

function utf8to32 :: "bytes \<Rightarrow> uint32 list \<Rightarrow> uint32 list result" where
  "utf8to32 start out =
     (if start = [] then Inr out
      else case utf8_next start of
        Inl e \<Rightarrow> Inl e
      | Inr (cp, start') \<Rightarrow> utf8to32 start' (out @ [cp]))"
  by pat_completeness auto
termination
  by (relation "measure (\<lambda>(start, _). length start)") (auto dest: utf8_next_shorter)

declare utf8to32.simps [simp del]

section \<open>Conversions round trip\<close>

lemma utf8_next_octets [simp]:
  "is_code_point_valid cp \<Longrightarrow> utf8_next (octets cp @ r) = Inr (cp, r)"
  by (simp add: utf8_next_Inr validate_next_octets)

lemma utf8to16_encode:
  "list_all is_code_point_valid cps \<Longrightarrow>
     utf8to16 (concat (map octets cps)) out = Inr (out @ concat (map units16 cps))"
  by (induction cps arbitrary: out) (simp_all add: utf8to16.simps)

lemma utf8to32_encode:
  "list_all is_code_point_valid cps \<Longrightarrow> utf8to32 (concat (map octets cps)) out = Inr (out @ cps)"
  by (induction cps arbitrary: out) (simp_all add: utf8to32.simps)

lemma utf32to8_encode:
  "list_all is_code_point_valid cps \<Longrightarrow> utf32to8 cps out = Inr (out @ concat (map octets cps))"
  by (induction cps arbitrary: out) (simp_all add: utf8_append_def)

lemma distance_encode:
  "list_all is_code_point_valid cps \<Longrightarrow> distance (concat (map octets cps)) n = Inr (n + length cps)"
  by (induction cps arbitrary: n) (simp_all add: distance.simps)

lemma unat_u16_less [simp]: "unat (u :: uint16) < 65536"
  using unat_less [of u] by simp

lemma mask16_id [simp]: "mask16 u = u"
  by (simp add: word_unat_eq_iff mask16_def masks unat_mask_and)

lemma unat_ucast_u16 [simp]: "unat (ucast (u :: uint16) :: uint32) = unat u"
proof -
  have "unat u < 2 ^ 32" by (rule less_trans [OF unat_u16_less]) simp
  then show ?thesis by (simp add: unat_ucast)
qed

lemma utf16to8_units:
  assumes valid: "is_code_point_valid cp"
  shows "utf16to8 (units16 cp @ us) out = utf16to8 us (out @ octets cp)"
proof (cases "unat cp < 65536")
  case True
  have "ucast (ucast cp :: uint16) = cp"
    using True by (simp add: word_unat_eq_iff unat_ucast)
  moreover have "\<not> is_lead_surrogate cp" "\<not> is_trail_surrogate cp"
    using valid by (auto simp: code_point_valid_iff is_lead_surrogate_def is_trail_surrogate_def
        word_le_nat_alt)
  ultimately show ?thesis
    using True valid by (simp add: units16_def word_less_nat_alt utf8_append_def Let_def)
next
  case False
  define lead where "lead = (drop_bit 10 cp + LEAD_OFFSET)"
  define trail where "trail = ((cp AND 0x3ff) + 0xdc00 :: uint32)"
  have c: "unat cp < 1114112" using valid by (simp add: code_point_valid_iff)
  have lead: "unat lead = unat cp div 1024 + 0xd7c0"
    using c by (simp add: lead_def LEAD_OFFSET_def unat_word_ariths unat_drop_bit)
  have trail: "unat trail = unat cp mod 1024 + 0xdc00"
    by (simp add: trail_def unat_word_ariths masks unat_and_mask)
  have "units16 cp = [ucast lead, ucast trail]"
    using False by (simp add: units16_def lead_def trail_def word_less_nat_alt)
  moreover have "ucast (ucast lead :: uint16) = lead" "ucast (ucast trail :: uint16) = trail"
    using c by (simp_all add: word_unat_eq_iff unat_ucast lead trail)
  moreover have "is_lead_surrogate lead" "is_trail_surrogate trail"
    using c False by (simp_all add: is_lead_surrogate_def is_trail_surrogate_def word_le_nat_alt lead trail) arith
  moreover have "push_bit 10 lead + trail + SURROGATE_OFFSET = cp"
  proof -
    have "unat (push_bit 10 lead) = unat cp div 1024 * 1024 + 56557568"
      using c by (simp add: unat_push_bit lead)
    moreover have "unat SURROGATE_OFFSET = 4238353408"
      by (simp add: SURROGATE_OFFSET_def)
    ultimately show ?thesis
      using c by (simp add: word_unat_eq_iff unat_word_ariths trail)
  qed
  ultimately show ?thesis
    using valid by (simp add: Let_def utf8_append_def)
qed

lemma utf16to8_encode:
  "list_all is_code_point_valid cps \<Longrightarrow>
     utf16to8 (concat (map units16 cps)) out = Inr (out @ concat (map octets cps))"
  by (induction cps arbitrary: out) (simp_all add: utf16to8_units)

section \<open>Properties of the UTF-8 routines\<close>

text \<open>
  C24: \<open>utf8::is_valid\<close> accepts exactly the encodings of sequences of Unicode scalar
  values: every lead, trail, overlong, surrogate and range check of the decoder together
  admits no other octet sequence and rejects none of these.
\<close>
theorem is_valid_characterisation:
  "is_valid s \<longleftrightarrow> (\<exists>cps. list_all is_code_point_valid cps \<and> s = concat (map octets cps))"
  using is_valid_decode is_valid_encode by blast

text \<open>
  C25: the conversions between encodings are inverse to each other on valid text: UTF-8 to
  UTF-16 and back, and UTF-8 to UTF-32 and back, return the same octets without an error.
\<close>
theorem utf_conversions_round_trip:
  assumes "is_valid s"
  shows "(\<exists>us. utf8to16 s [] = Inr us \<and> utf16to8 us [] = Inr s) \<and>
    (\<exists>cps. utf8to32 s [] = Inr cps \<and> utf32to8 cps [] = Inr s \<and> distance s 0 = Inr (length cps))"
proof -
  from is_valid_decode [OF assms] obtain cps where
    cps: "list_all is_code_point_valid cps" "s = concat (map octets cps)" by blast
  then show ?thesis
    using utf8to16_encode [of cps "[]"] utf16to8_encode [of cps "[]"] utf8to32_encode [of cps "[]"]
      utf32to8_encode [of cps "[]"] distance_encode [of cps 0] by simp
qed

lemma witness_utf8_valid: "is_valid [0x41, 0xF0, 0x9F, 0x98, 0x80]"
  by code_simp

theorem utf_conversions_round_trip_witness:
  "\<exists>us. utf8to16 [0x41, 0xF0, 0x9F, 0x98, 0x80] [] = Inr us \<and>
    utf16to8 us [] = Inr [0x41, 0xF0, 0x9F, 0x98, 0x80]"
  using utf_conversions_round_trip [OF witness_utf8_valid] by blast

end
