(* ===== verification/Utf8Unchecked.thy ===== *)
theory Utf8Unchecked
  imports Utf8
begin

text \<open>
  The rest of the vendored UTF-8 library: \<^verbatim>\<open>deps/utf8cpp/utf8/unchecked.h\<close>, the routines without
  checks, the deprecated functions of \<^verbatim>\<open>checked.h\<close> and \<^verbatim>\<open>core.h\<close>, and the iterator
  classes.  A text is the list of its octets; reading past its end is undefined.  Where the
  checked routines succeed, the unchecked ones do the same.
\<close>

section \<open>Routines without checks (unchecked.h)\<close>

definition unchecked_append :: "uint32 \<Rightarrow> bytes \<Rightarrow> bytes" where
  "unchecked_append cp out =
     out @ (if cp < 0x80 then [ucast cp]
       else if cp < 0x800 then [ucast (drop_bit 6 cp OR 0xc0), ucast ((cp AND 0x3f) OR 0x80)]
       else if cp < 0x10000 then
         [ucast (drop_bit 12 cp OR 0xe0), ucast ((drop_bit 6 cp AND 0x3f) OR 0x80), ucast ((cp AND 0x3f) OR 0x80)]
       else
         [ucast (drop_bit 18 cp OR 0xf0), ucast ((drop_bit 12 cp AND 0x3f) OR 0x80),
          ucast ((drop_bit 6 cp AND 0x3f) OR 0x80), ucast ((cp AND 0x3f) OR 0x80)])"

text \<open>An octet that leads no sequence is taken as it is: the \<open>switch\<close> has no case for it.\<close>

definition unchecked_next :: "bytes \<Rightarrow> (uint32 \<times> bytes) result" where
  "unchecked_next it =
     (case it of
        [] \<Rightarrow> Inl UndefinedBehaviour
      | a # r \<Rightarrow>
          let cp = ucast (mask8 a) :: uint32; len = sequence_length a
          in if len = 2 then
               (case r of
                  b # r \<Rightarrow> Inr ((push_bit 6 cp AND 0x7ff) + (ucast b AND 0x3f), r)
                | _ \<Rightarrow> Inl UndefinedBehaviour)
             else if len = 3 then
               (case r of
                  b # c # r \<Rightarrow>
                    Inr ((push_bit 12 cp AND 0xffff) + (push_bit 6 (ucast (mask8 b)) AND 0xfff) + (ucast c AND 0x3f), r)
                | _ \<Rightarrow> Inl UndefinedBehaviour)
             else if len = 4 then
               (case r of
                  b # c # d # r \<Rightarrow>
                    Inr ((push_bit 18 cp AND 0x1fffff) + (push_bit 12 (ucast (mask8 b)) AND 0x3ffff) +
                      (push_bit 6 (ucast (mask8 c)) AND 0xfff) + (ucast d AND 0x3f), r)
                | _ \<Rightarrow> Inl UndefinedBehaviour)
             else Inr (cp, r))"

definition unchecked_peek_next :: "bytes \<Rightarrow> uint32 result" where
  "unchecked_peek_next it = rbind (unchecked_next it) (\<lambda>(cp, _). Inr cp)"

lemma unchecked_next_shorter: "unchecked_next it = Inr (cp, it') \<Longrightarrow> length it' < length it"
  by (auto simp: unchecked_next_def Let_def split: list.splits if_splits)

text \<open>\<open>prior\<close>: back over trail octets, past the beginning when there is nothing else.\<close>

fun unchecked_back :: "bytes \<Rightarrow> nat \<Rightarrow> nat result" where
  "unchecked_back s 0 = Inl UndefinedBehaviour"
| "unchecked_back s (Suc i) = (if is_trail (s ! i) then unchecked_back s i else Inr i)"

definition unchecked_prior :: "bytes \<Rightarrow> nat \<Rightarrow> (uint32 \<times> nat) result" where
  "unchecked_prior s i =
     rbind (unchecked_back s i) (\<lambda>j. rbind (unchecked_next (drop j s)) (\<lambda>(cp, _). Inr (cp, j)))"

fun unchecked_advance :: "bytes \<Rightarrow> nat \<Rightarrow> bytes result" where
  "unchecked_advance it 0 = Inr it"
| "unchecked_advance it (Suc n) = rbind (unchecked_next it) (\<lambda>(_, it'). unchecked_advance it' n)"

function unchecked_distance :: "bytes \<Rightarrow> nat \<Rightarrow> nat result" where
  "unchecked_distance first dist =
     (if first = [] then Inr dist
      else case unchecked_next first of
        Inl e \<Rightarrow> Inl e
      | Inr (_, first') \<Rightarrow> unchecked_distance first' (Suc dist))"
  by pat_completeness auto
termination
  by (relation "measure (\<lambda>(first, _). length first)") (auto dest: unchecked_next_shorter)

declare unchecked_distance.simps [simp del]

fun unchecked_utf16to8 :: "uint16 list \<Rightarrow> bytes \<Rightarrow> bytes result" where
  "unchecked_utf16to8 [] out = Inr out"
| "unchecked_utf16to8 (u # start) out =
     (let cp = ucast (mask16 u) :: uint32
      in if is_lead_surrogate cp then
           (case start of
              [] \<Rightarrow> Inl UndefinedBehaviour
            | t # start' \<Rightarrow>
                let trail_surrogate = ucast (mask16 t) :: uint32
                in unchecked_utf16to8 start'
                     (unchecked_append (push_bit 10 cp + trail_surrogate + SURROGATE_OFFSET) out))
         else unchecked_utf16to8 start (unchecked_append cp out))"

function unchecked_utf8to16 :: "bytes \<Rightarrow> uint16 list \<Rightarrow> uint16 list result" where
  "unchecked_utf8to16 start out =
     (if start = [] then Inr out
      else case unchecked_next start of
        Inl e \<Rightarrow> Inl e
      | Inr (cp, start') \<Rightarrow> unchecked_utf8to16 start' (out @ units16 cp))"
  by pat_completeness auto
termination
  by (relation "measure (\<lambda>(start, _). length start)") (auto dest: unchecked_next_shorter)

declare unchecked_utf8to16.simps [simp del]

fun unchecked_utf32to8 :: "uint32 list \<Rightarrow> bytes \<Rightarrow> bytes" where
  "unchecked_utf32to8 [] out = out"
| "unchecked_utf32to8 (cp # start) out = unchecked_utf32to8 start (unchecked_append cp out)"

function unchecked_utf8to32 :: "bytes \<Rightarrow> uint32 list \<Rightarrow> uint32 list result" where
  "unchecked_utf8to32 start out =
     (if start = [] then Inr out
      else case unchecked_next start of
        Inl e \<Rightarrow> Inl e
      | Inr (cp, start') \<Rightarrow> unchecked_utf8to32 start' (out @ [cp]))"
  by pat_completeness auto
termination
  by (relation "measure (\<lambda>(start, _). length start)") (auto dest: unchecked_next_shorter)

declare unchecked_utf8to32.simps [simp del]

section \<open>Deprecated functions\<close>

text \<open>\<open>is_bom\<close> reads up to three octets whether they are there or not.\<close>

definition is_bom :: "bytes \<Rightarrow> bool result" where
  "is_bom it =
     (case it of
        [] \<Rightarrow> Inl UndefinedBehaviour
      | a # r \<Rightarrow>
          if mask8 a \<noteq> bom ! 0 then Inr False
          else case r of
                 [] \<Rightarrow> Inl UndefinedBehaviour
               | b # r \<Rightarrow>
                   if mask8 b \<noteq> bom ! 1 then Inr False
                   else case r of [] \<Rightarrow> Inl UndefinedBehaviour | c # _ \<Rightarrow> Inr (mask8 c = bom ! 2))"

text \<open>\<open>previous\<close> is \<open>prior\<close> without the check for the beginning.\<close>

definition previous :: "bytes \<Rightarrow> nat \<Rightarrow> (uint32 \<times> nat) result" where
  "previous s i =
     (if i = 0 then Inl UndefinedBehaviour
      else rbind (back_to_lead s (i - 1)) (\<lambda>j.
        rbind (peek_next (slice j (i - j) s)) (\<lambda>cp. Inr (cp, j))))"

section \<open>The iterators\<close>

text \<open>An iterator of the checked kind has its range and a position in it.\<close>

record utf8_iterator =
  ui_range :: bytes
  ui_pos :: nat

definition iterator_new :: "nat \<Rightarrow> bytes \<Rightarrow> utf8_iterator result" where
  "iterator_new pos rng =
     (if length rng < pos then Inl (OutOfRange ''Invalid utf-8 iterator position'')
      else Inr \<lparr>ui_range = rng, ui_pos = pos\<rparr>)"

definition iterator_deref :: "utf8_iterator \<Rightarrow> uint32 result" where
  "iterator_deref it = rbind (utf8_next (drop (ui_pos it) (ui_range it))) (\<lambda>(cp, _). Inr cp)"

definition iterator_inc :: "utf8_iterator \<Rightarrow> utf8_iterator result" where
  "iterator_inc it =
     rbind (utf8_next (drop (ui_pos it) (ui_range it))) (\<lambda>(_, rest).
       Inr (it\<lparr>ui_pos := length (ui_range it) - length rest\<rparr>))"

definition iterator_dec :: "utf8_iterator \<Rightarrow> utf8_iterator result" where
  "iterator_dec it = rbind (prior (ui_range it) (ui_pos it)) (\<lambda>(_, pos). Inr (it\<lparr>ui_pos := pos\<rparr>))"

text \<open>
  The unchecked iterator, as a position in a text: it moves by the length its octet announces, and
  stays where it is on an octet that leads no sequence.
\<close>

definition unchecked_iterator_deref :: "bytes \<Rightarrow> nat \<Rightarrow> uint32 result" where
  "unchecked_iterator_deref s pos = unchecked_peek_next (drop pos s)"

definition unchecked_iterator_inc :: "bytes \<Rightarrow> nat \<Rightarrow> nat result" where
  "unchecked_iterator_inc s pos =
     (if length s \<le> pos then Inl UndefinedBehaviour else Inr (pos + sequence_length (s ! pos)))"

definition unchecked_iterator_dec :: "bytes \<Rightarrow> nat \<Rightarrow> nat result" where
  "unchecked_iterator_dec s pos = rbind (unchecked_prior s pos) (\<lambda>(_, pos). Inr pos)"

section \<open>Agreement with the checked routines\<close>

lemma unchecked_append_octets: "unchecked_append cp out = out @ octets cp"
  by (simp add: unchecked_append_def octets_def)

lemma unchecked_next_agrees:
  assumes "utf8_next it = Inr (cp, r)"
  shows "unchecked_next it = Inr (cp, r)"
proof -
  from assms obtain it' where
    ne: "it \<noteq> []" and len: "sequence_length (hd it) \<noteq> 0" and r: "r = tl it'"
    and get: "(if sequence_length (hd it) = 1 then get_sequence_1 it 0
      else if sequence_length (hd it) = 2 then get_sequence_2 it 0
      else if sequence_length (hd it) = 3 then get_sequence_3 it 0
      else get_sequence_4 it 0) = (UTF8_OK, it', cp)"
    by (auto simp: utf8_next_Inr validate_next_def Let_def split: if_splits prod.splits)
  consider (1) "sequence_length (hd it) = 1" | (2) "sequence_length (hd it) = 2"
    | (3) "sequence_length (hd it) = 3" | (4) "sequence_length (hd it) = 4"
    using len by (simp add: sequence_length_eq split: if_splits)
  then show ?thesis
  proof cases
    case 1
    with get r ne show ?thesis by (cases it) (auto simp: unchecked_next_def get_sequence_1_def Let_def)
  next
    case 2
    with get have "get_sequence_2 it 0 = (UTF8_OK, it', cp)" by simp
    then show ?thesis by (rule get_sequence_2_word) (use 2 r in \<open>simp add: unchecked_next_def Let_def\<close>)
  next
    case 3
    with get have "get_sequence_3 it 0 = (UTF8_OK, it', cp)" by simp
    then show ?thesis by (rule get_sequence_3_word) (use 3 r in \<open>simp add: unchecked_next_def Let_def\<close>)
  next
    case 4
    with get have "get_sequence_4 it 0 = (UTF8_OK, it', cp)" by simp
    then show ?thesis by (rule get_sequence_4_word) (use 4 r in \<open>simp add: unchecked_next_def Let_def\<close>)
  qed
qed

lemma distance_agrees: "distance s n = Inr k \<Longrightarrow> unchecked_distance s n = Inr k"
proof (induction s n rule: distance.induct)
  case (1 s n)
  then show ?case
    by (subst unchecked_distance.simps, subst (asm) (2) distance.simps)
      (auto simp: unchecked_next_agrees split: if_splits sum.splits)
qed

lemma utf8to16_agrees: "utf8to16 s out = Inr us \<Longrightarrow> unchecked_utf8to16 s out = Inr us"
proof (induction s out rule: utf8to16.induct)
  case (1 s out)
  then show ?case
    by (subst unchecked_utf8to16.simps, subst (asm) (2) utf8to16.simps)
      (auto simp: unchecked_next_agrees split: if_splits sum.splits)
qed

lemma utf8to32_agrees: "utf8to32 s out = Inr cps \<Longrightarrow> unchecked_utf8to32 s out = Inr cps"
proof (induction s out rule: utf8to32.induct)
  case (1 s out)
  then show ?case
    by (subst unchecked_utf8to32.simps, subst (asm) (2) utf8to32.simps)
      (auto simp: unchecked_next_agrees split: if_splits sum.splits)
qed

lemma utf32to8_agrees: "utf32to8 cps out = Inr s \<Longrightarrow> unchecked_utf32to8 cps out = s"
  by (induction cps arbitrary: out)
    (auto simp: rbind_eq_Inr utf8_append_def unchecked_append_octets split: if_splits)

lemma utf16to8_agrees: "utf16to8 us out = Inr s \<Longrightarrow> unchecked_utf16to8 us out = Inr s"
proof (induction us out rule: utf16to8.induct)
  case (2 u us out)
  let ?cp = "ucast (mask16 u) :: uint32"
  show ?case
  proof (cases "is_lead_surrogate ?cp")
    case True
    with 2 show ?thesis
      by (cases us) (auto simp: Let_def utf8_append_def unchecked_append_octets split: if_splits)
  next
    case False
    with 2 show ?thesis by (auto simp: Let_def utf8_append_def unchecked_append_octets split: if_splits)
  qed
qed simp

lemma advance_agrees: "advance s n = Inr r \<Longrightarrow> unchecked_advance s n = Inr r"
  by (induction s n rule: advance.induct) (auto simp: rbind_eq_Inr unchecked_next_agrees)

section \<open>Going back\<close>

text \<open>An encoded code point is a lead octet and trail octets.\<close>

lemma octets_shape:
  assumes "is_code_point_valid cp"
  shows "\<exists>a r. octets cp = a # r \<and> \<not> is_trail a \<and> list_all is_trail r \<and> sequence_length a = length (octets cp)"
proof -
  let ?c = "unat cp"
  have c: "?c < 1114112" using assms by (simp add: code_point_valid_iff)
  note un = unat_octets [OF c, unfolded Let_def]
  consider "?c < 128" | "128 \<le> ?c" "?c < 2048" | "2048 \<le> ?c" "?c < 65536" | "65536 \<le> ?c" by linarith
  then show ?thesis
  proof cases
    case 1
    with un obtain a where "octets cp = [a]" "unat a = ?c" by auto
    with 1 show ?thesis by (simp add: is_trail_iff sequence_length_eq)
  next
    case 2
    with un obtain a b where "octets cp = [a, b]" "unat a = 192 + ?c div 64" "unat b = 128 + ?c mod 64" by auto
    moreover have "?c div 64 < 32" using 2 by (simp add: div_less_iff_less_mult)
    ultimately show ?thesis by (simp add: is_trail_iff sequence_length_eq)
  next
    case 3
    with un obtain a b d where "octets cp = [a, b, d]" "unat a = 224 + ?c div 4096" "unat b = 128 + ?c div 64 mod 64"
      "unat d = 128 + ?c mod 64" by auto
    moreover have "?c div 4096 < 16" using 3 by (simp add: div_less_iff_less_mult)
    ultimately show ?thesis by (simp add: is_trail_iff sequence_length_eq)
  next
    case 4
    with un obtain a b d e where "octets cp = [a, b, d, e]" "unat a = 240 + ?c div 262144"
      "unat b = 128 + ?c div 4096 mod 64" "unat d = 128 + ?c div 64 mod 64" "unat e = 128 + ?c mod 64" by auto
    moreover have "?c div 262144 < 8" using c by (simp add: div_less_iff_less_mult)
    ultimately show ?thesis by (simp add: is_trail_iff sequence_length_eq)
  qed
qed

lemma back_over_trails:
  assumes "\<not> is_trail a" "list_all is_trail r" "k \<le> length r"
  shows "back_to_lead (xs @ a # r @ ys) (length xs + k) = Inr (length xs) \<and>
    unchecked_back (xs @ a # r @ ys) (Suc (length xs + k)) = Inr (length xs)"
  using assms(3)
proof (induction k)
  case 0
  show ?case using assms(1) by (cases "length xs") (simp_all add: nth_append)
next
  case (Suc k)
  have "is_trail ((xs @ a # r @ ys) ! Suc (length xs + k))"
    using Suc.prems assms(2) by (simp add: nth_append list_all_length)
  with Suc show ?case by simp
qed

lemma prior_octets:
  assumes "is_code_point_valid cp"
  shows "prior (xs @ octets cp @ ys) (length xs + length (octets cp)) = Inr (cp, length xs)"
    "unchecked_prior (xs @ octets cp @ ys) (length xs + length (octets cp)) = Inr (cp, length xs)"
proof -
  from octets_shape [OF assms] obtain a r where o: "octets cp = a # r" "\<not> is_trail a" "list_all is_trail r" by blast
  have "utf8_next (octets cp @ []) = Inr (cp, [])" by (rule utf8_next_octets [OF assms])
  then have "peek_next (octets cp) = Inr cp" by (simp add: peek_next_def)
  then show "prior (xs @ octets cp @ ys) (length xs + length (octets cp)) = Inr (cp, length xs)"
    using back_over_trails [OF o(2,3), of "length r" xs ys] by (simp add: prior_def o(1) slice_def)
  have "unchecked_next (octets cp @ ys) = Inr (cp, ys)"
    by (rule unchecked_next_agrees [OF utf8_next_octets [OF assms]])
  then show "unchecked_prior (xs @ octets cp @ ys) (length xs + length (octets cp)) = Inr (cp, length xs)"
    using back_over_trails [OF o(2,3), of "length r" xs ys] by (simp add: unchecked_prior_def o(1))
qed

section \<open>Properties\<close>

text \<open>
  C26: the unchecked routines agree with the checked ones.  Whatever the input, where a checked
  conversion, count or advance returns a result, its unchecked counterpart returns the
  same and reads nothing outside of the text.
\<close>
theorem unchecked_agrees:
  "(utf8to16 s [] = Inr us \<longrightarrow> unchecked_utf8to16 s [] = Inr us) \<and>
   (utf8to32 s [] = Inr cps \<longrightarrow> unchecked_utf8to32 s [] = Inr cps) \<and>
   (utf16to8 us [] = Inr s \<longrightarrow> unchecked_utf16to8 us [] = Inr s) \<and>
   (utf32to8 cps [] = Inr s \<longrightarrow> unchecked_utf32to8 cps [] = s) \<and>
   (distance s 0 = Inr n \<longrightarrow> unchecked_distance s 0 = Inr n) \<and>
   (advance s n = Inr r \<longrightarrow> unchecked_advance s n = Inr r)"
  using utf8to16_agrees utf8to32_agrees utf16to8_agrees utf32to8_agrees distance_agrees advance_agrees by blast

lemma witness_checked: "utf8to32 [0x41, 0xC3, 0xA9] [] = Inr [0x41, 0xE9]"
  by code_simp

theorem unchecked_agrees_witness: "unchecked_utf8to32 [0x41, 0xC3, 0xA9] [] = Inr [0x41, 0xE9]"
  using unchecked_agrees [of "[0x41, 0xC3, 0xA9]" "[]" "[0x41, 0xE9]" 0 "[]"] witness_checked by blast

text \<open>
  The iterators walk over valid text: at the beginning of an encoded code point an iterator of
  either kind yields that code point, steps over its octets, and steps back.
\<close>
theorem iterators_walk:
  assumes "is_code_point_valid cp" "s = xs @ octets cp @ ys" "i = length xs" "j = length xs + length (octets cp)"
  shows "iterator_deref \<lparr>ui_range = s, ui_pos = i\<rparr> = Inr cp \<and>
    iterator_inc \<lparr>ui_range = s, ui_pos = i\<rparr> = Inr \<lparr>ui_range = s, ui_pos = j\<rparr> \<and>
    iterator_dec \<lparr>ui_range = s, ui_pos = j\<rparr> = Inr \<lparr>ui_range = s, ui_pos = i\<rparr> \<and>
    unchecked_iterator_deref s i = Inr cp \<and> unchecked_iterator_inc s i = Inr j \<and> unchecked_iterator_dec s j = Inr i"
proof -
  have next': "utf8_next (octets cp @ ys) = Inr (cp, ys)" by (rule utf8_next_octets [OF assms(1)])
  from octets_shape [OF assms(1)] obtain a r where o: "octets cp = a # r" "sequence_length a = length (octets cp)" by blast
  have "unchecked_iterator_inc s i = Inr j"
    using o by (simp add: unchecked_iterator_inc_def assms(2-4) nth_append)
  moreover have "unchecked_iterator_deref s i = Inr cp"
    using unchecked_next_agrees [OF next'] by (simp add: unchecked_iterator_deref_def unchecked_peek_next_def assms(2,3))
  ultimately show ?thesis
    using next' prior_octets [OF assms(1), of xs ys]
    by (simp add: iterator_deref_def iterator_inc_def iterator_dec_def unchecked_iterator_dec_def assms(2-4))
qed

text \<open>An unchecked iterator never gets past an octet that leads no sequence.\<close>

lemma unchecked_iterator_stuck: "pos < length s \<Longrightarrow> sequence_length (s ! pos) = 0 \<Longrightarrow> unchecked_iterator_inc s pos = Inr pos"
  by (simp add: unchecked_iterator_inc_def)

end
