(* ===== verification/ByteConverter.thy ===== *)
theory ByteConverter
  imports Prelude
begin

text \<open>
  \<^verbatim>\<open>src/common/Utilities/ByteConverter.h\<close>: the bytes of an integer object in memory and the
  endian conversions applied to them.  The host's byte order (\<open>WARHEAD_ENDIAN\<close> in
  \<^verbatim>\<open>src/common/Define.h\<close>) is a parameter of every definition that depends on it, so the
  wire format proved here holds for both settings of the build.
\<close>

section \<open>Integers as bytes\<close>

datatype endian = LittleEndian | BigEndian

text \<open>The \<open>n\<close> base-256 digits of a number, least significant first, and back.\<close>

fun nat_le :: "nat \<Rightarrow> nat \<Rightarrow> bytes" where
  "nat_le 0 x = []"
| "nat_le (Suc n) x = word_of_nat (x mod 256) # nat_le n (x div 256)"

fun le_nat :: "bytes \<Rightarrow> nat" where
  "le_nat [] = 0"
| "le_nat (b # bs) = unat b + 256 * le_nat bs"

text \<open>\<open>sizeof(T)\<close> of an integer type.\<close>

definition sizeof :: "'a::len itself \<Rightarrow> nat" where
  "sizeof t = LENGTH('a) div 8"

definition le_bytes :: "'a::len word \<Rightarrow> bytes" where
  "le_bytes w = nat_le (sizeof TYPE('a)) (unat w)"

definition le_word :: "bytes \<Rightarrow> 'a::len word" where
  "le_word bs = word_of_nat (le_nat bs)"

text \<open>What a host stores for a value, and the value it reads from its memory.\<close>

definition mem_bytes :: "endian \<Rightarrow> 'a::len word \<Rightarrow> bytes" where
  "mem_bytes e w = (case e of LittleEndian \<Rightarrow> le_bytes w | BigEndian \<Rightarrow> rev (le_bytes w))"

definition mem_word :: "endian \<Rightarrow> bytes \<Rightarrow> 'a::len word" where
  "mem_word e bs = (case e of LittleEndian \<Rightarrow> le_word bs | BigEndian \<Rightarrow> le_word (rev bs))"

section \<open>The conversions\<close>

text \<open>
  \<open>ByteConverter::convert<T>(val)\<close>: swap the first and the last byte and convert the
  bytes between them; nothing to do for zero or one byte.
\<close>

fun convert :: "nat \<Rightarrow> bytes \<Rightarrow> bytes" where
  "convert 0 val = val"
| "convert (Suc 0) val = val"
| "convert (Suc (Suc t)) val =
     (case val of
        [] \<Rightarrow> []
      | b # rest \<Rightarrow> last val # convert t (butlast rest) @ [b])"

definition apply_convert :: "bytes \<Rightarrow> bytes" where
  "apply_convert val = convert (length val) val"

definition EndianConvert :: "endian \<Rightarrow> bytes \<Rightarrow> bytes" where
  "EndianConvert e val = (if e = BigEndian then apply_convert val else val)"

definition EndianConvertReverse :: "endian \<Rightarrow> bytes \<Rightarrow> bytes" where
  "EndianConvertReverse e val = (if e = BigEndian then val else apply_convert val)"

section \<open>Base-256 digits\<close>

lemma length_nat_le [simp]: "length (nat_le n x) = n"
  by (induction n arbitrary: x) auto

text \<open>Evaluation on numerals.\<close>

lemma nat_le_numeral:
  "nat_le (numeral k) x = word_of_nat (x mod 256) # nat_le (pred_numeral k) (x div 256)"
  by (subst numeral_eq_Suc [of k]) (rule nat_le.simps)

lemma le_nat_nat_le: "le_nat (nat_le n x) = x mod 256 ^ n"
proof (induction n arbitrary: x)
  case (Suc n)
  have "unat (word_of_nat (x mod 256) :: uint8) = x mod 256"
    by (simp add: unat_of_nat)
  then show ?case
    using Suc by (simp add: mod_mult2_eq)
qed simp

lemma nat_le_le_nat: "n = length bs \<Longrightarrow> nat_le n (le_nat bs) = bs"
proof (induction bs arbitrary: n)
  case (Cons b bs)
  then show ?case by simp
qed simp

lemma le_nat_bound: "le_nat bs < 256 ^ length bs"
proof (induction bs)
  case (Cons b bs)
  have b: "unat b < 256" by simp
  have "unat b + 256 * le_nat bs < 256 * Suc (le_nat bs)"
    using b by simp
  also have "\<dots> \<le> 256 * 256 ^ length bs"
    using Cons.IH by (intro mult_le_mono2) simp
  finally show ?case by simp
qed simp

lemma le_nat_append: "le_nat (xs @ ys) = le_nat xs + 256 ^ length xs * le_nat ys"
  by (induction xs) (auto simp: algebra_simps)

lemma length_le_bytes [simp]: "length (le_bytes (w :: 'a::len word)) = sizeof TYPE('a)"
  by (simp add: le_bytes_def)

lemma length_mem_bytes [simp]: "length (mem_bytes e (w :: 'a::len word)) = sizeof TYPE('a)"
  by (simp add: mem_bytes_def split: endian.split)

lemma pow256_sizeof: "8 dvd LENGTH('a::len) \<Longrightarrow> (256 :: nat) ^ sizeof TYPE('a) = 2 ^ LENGTH('a)"
proof -
  assume "8 dvd LENGTH('a)"
  then have "8 * sizeof TYPE('a) = LENGTH('a)" by (simp add: sizeof_def)
  then have "(2 :: nat) ^ LENGTH('a) = 2 ^ (8 * sizeof TYPE('a))" by simp
  also have "\<dots> = (2 ^ 8) ^ sizeof TYPE('a)" by (rule power_mult)
  finally show ?thesis by simp
qed

lemma le_word_le_bytes:
  fixes w :: "'a::len word"
  assumes "8 dvd LENGTH('a)"
  shows "le_word (le_bytes w) = w"
proof -
  have "le_nat (le_bytes w) = unat w mod 256 ^ sizeof TYPE('a)"
    by (simp add: le_bytes_def le_nat_nat_le)
  also have "\<dots> = unat w"
    using unat_less [of w] by (simp add: pow256_sizeof [OF assms])
  finally show ?thesis by (simp add: le_word_def)
qed

lemma le_bytes_le_word:
  assumes "8 dvd LENGTH('a::len)" and "length bs = sizeof TYPE('a)"
  shows "le_bytes (le_word bs :: 'a word) = bs"
proof -
  have "le_nat bs < 2 ^ LENGTH('a)"
    using le_nat_bound [of bs] assms by (simp add: pow256_sizeof)
  then have "unat (le_word bs :: 'a word) = le_nat bs"
    by (simp add: le_word_def unat_of_nat)
  then show ?thesis
    using assms(2) by (simp add: le_bytes_def nat_le_le_nat)
qed

lemma mem_word_mem_bytes:
  "8 dvd LENGTH('a::len) \<Longrightarrow> mem_word e (mem_bytes e (w :: 'a word)) = w"
  by (simp add: mem_word_def mem_bytes_def le_word_le_bytes split: endian.split)

lemma sizeof_simps [simp]:
  "sizeof TYPE(8) = 1" "sizeof TYPE(16) = 2" "sizeof TYPE(32) = 4" "sizeof TYPE(64) = 8"
  by (simp_all add: sizeof_def)

lemma sizeof_less_size_mod: "sizeof TYPE('a::len) < size_mod \<longleftrightarrow> LENGTH('a) div 8 < size_mod"
  by (simp add: sizeof_def)

section \<open>The conversions reverse the bytes\<close>

lemma convert_rev: "length val = t \<Longrightarrow> convert t val = rev val"
proof (induction t val rule: convert.induct)
  case (3 t val)
  then obtain b rest where val: "val = b # rest" and rest: "length rest = Suc t"
    by (cases val) auto
  then have "rest \<noteq> []" by auto
  then have split: "rest = butlast rest @ [last rest]" by simp
  have "rev rest = last rest # rev (butlast rest)"
    by (subst split) simp
  then have "last rest # rev (butlast rest) @ [b] = rev val"
    by (simp only: val rev.simps append_Cons)
  moreover have "convert t (butlast rest) = rev (butlast rest)"
    using 3(1) [OF val] rest by simp
  ultimately show ?case
    using \<open>rest \<noteq> []\<close> by (simp add: val)
qed (auto simp: length_Suc_conv)

lemma apply_convert_rev [simp]: "apply_convert val = rev val"
  by (simp add: apply_convert_def convert_rev)

lemma EndianConvert_mem_bytes [simp]: "EndianConvert e (mem_bytes e w) = le_bytes w"
  by (cases e) (simp_all add: EndianConvert_def mem_bytes_def)

lemma mem_word_EndianConvert [simp]: "mem_word e (EndianConvert e bs) = le_word bs"
  by (cases e) (simp_all add: EndianConvert_def mem_word_def)

lemma mem_word_EndianConvertReverse [simp]: "mem_word e (EndianConvertReverse e bs) = le_word (rev bs)"
  by (cases e) (simp_all add: EndianConvertReverse_def mem_word_def)

end
