(* ===== verification/MessageBuffer.thy ===== *)
theory MessageBuffer
  imports Prelude
begin

text \<open>
  \<^verbatim>\<open>src/common/Utilities/MessageBuffer.h\<close>: the byte buffer between the socket and the packet
  parser.  Its storage holds the consumed bytes \<open>[0, rpos)\<close>, the active bytes
  \<open>[rpos, wpos)\<close> and the free space \<open>[wpos, size)\<close>.

  A pointer into the buffer is the offset it has from \<open>GetBasePointer()\<close>.  Sizes wrap as
  \<open>size_t\<close> does; an access through a pointer outside the storage is undefined behaviour.
\<close>

section \<open>The buffer and its operations\<close>

record message_buffer =
  mb_wpos :: nat
  mb_rpos :: nat
  mb_storage :: bytes

definition MessageBuffer_default :: message_buffer where
  "MessageBuffer_default = \<lparr>mb_wpos = 0, mb_rpos = 0, mb_storage = replicate 4096 0\<rparr>"

definition MessageBuffer_sized :: "nat \<Rightarrow> message_buffer" where
  "MessageBuffer_sized initialSize =
     \<lparr>mb_wpos = 0, mb_rpos = 0, mb_storage = replicate initialSize 0\<rparr>"

definition Reset :: "message_buffer \<Rightarrow> message_buffer" where
  "Reset b = b\<lparr>mb_wpos := 0, mb_rpos := 0\<rparr>"

definition Resize :: "nat \<Rightarrow> message_buffer \<Rightarrow> message_buffer" where
  "Resize n b = b\<lparr>mb_storage := resize_list n 0 (mb_storage b)\<rparr>"

definition GetReadPointer :: "message_buffer \<Rightarrow> nat" where
  "GetReadPointer b = mb_rpos b"

definition GetWritePointer :: "message_buffer \<Rightarrow> nat" where
  "GetWritePointer b = mb_wpos b"

definition ReadCompleted :: "nat \<Rightarrow> message_buffer \<Rightarrow> message_buffer" where
  "ReadCompleted n b = b\<lparr>mb_rpos := sz_add (mb_rpos b) n\<rparr>"

definition WriteCompleted :: "nat \<Rightarrow> message_buffer \<Rightarrow> message_buffer" where
  "WriteCompleted n b = b\<lparr>mb_wpos := sz_add (mb_wpos b) n\<rparr>"

definition GetActiveSize :: "message_buffer \<Rightarrow> nat" where
  "GetActiveSize b = sz_sub (mb_wpos b) (mb_rpos b)"

definition GetRemainingSpace :: "message_buffer \<Rightarrow> nat" where
  "GetRemainingSpace b = sz_sub (length (mb_storage b)) (mb_wpos b)"

definition GetBufferSize :: "message_buffer \<Rightarrow> nat" where
  "GetBufferSize b = length (mb_storage b)"

text \<open>The \<open>n\<close> bytes at an offset, as \<open>memcpy\<close> and \<open>memmove\<close> read them.\<close>

definition mem_read :: "nat \<Rightarrow> nat \<Rightarrow> message_buffer \<Rightarrow> bytes result" where
  "mem_read ptr n b =
     (if ptr + n \<le> length (mb_storage b) then Inr (slice ptr n (mb_storage b))
      else Inl UndefinedBehaviour)"

definition mem_write :: "nat \<Rightarrow> bytes \<Rightarrow> message_buffer \<Rightarrow> message_buffer result" where
  "mem_write ptr src b =
     (if ptr + length src \<le> length (mb_storage b)
      then Inr (b\<lparr>mb_storage := blit ptr src (mb_storage b)\<rparr>)
      else Inl UndefinedBehaviour)"

definition Normalize :: "message_buffer \<Rightarrow> message_buffer result" where
  "Normalize b =
     (if mb_rpos b \<noteq> 0 then
        rbind (if mb_rpos b \<noteq> mb_wpos b then
                 rbind (mem_read (GetReadPointer b) (GetActiveSize b) b) (\<lambda>src. mem_write 0 src b)
               else Inr b)
          (\<lambda>b. Inr (b\<lparr>mb_wpos := sz_sub (mb_wpos b) (mb_rpos b), mb_rpos := 0\<rparr>))
      else Inr b)"

definition EnsureFreeSpace :: "message_buffer \<Rightarrow> message_buffer" where
  "EnsureFreeSpace b =
     (if GetRemainingSpace b = 0 then Resize (length (mb_storage b) * 3 mod size_mod div 2) b else b)"

text \<open>\<open>Write(data, size)\<close>; \<open>data\<close> is the \<open>size\<close> bytes the pointer designates.\<close>

definition Write :: "bytes \<Rightarrow> message_buffer \<Rightarrow> message_buffer result" where
  "Write data b =
     (if length data \<noteq> 0 then
        rbind (mem_write (GetWritePointer b) data b) (\<lambda>b. Inr (WriteCompleted (length data) b))
      else Inr b)"

text \<open>\<open>Move()\<close> together with the move construction it feeds: the storage and what is left.\<close>

definition Move :: "message_buffer \<Rightarrow> bytes \<times> message_buffer" where
  "Move b = (mb_storage b, b\<lparr>mb_wpos := 0, mb_rpos := 0, mb_storage := []\<rparr>)"

text \<open>
  The move constructor reads the positions of \<open>right\<close> before \<open>right.Move()\<close> clears
  them (members are initialised in declaration order); so does the move assignment.
\<close>

definition move_MessageBuffer :: "message_buffer \<Rightarrow> message_buffer \<times> message_buffer" where
  "move_MessageBuffer right =
     (let (st, right') = Move right
      in (\<lparr>mb_wpos = mb_wpos right, mb_rpos = mb_rpos right, mb_storage = st\<rparr>, right'))"

definition copy_MessageBuffer :: "message_buffer \<Rightarrow> message_buffer" where
  "copy_MessageBuffer right =
     \<lparr>mb_wpos = mb_wpos right, mb_rpos = mb_rpos right, mb_storage = mb_storage right\<rparr>"

section \<open>Well-formed buffers\<close>

text \<open>
  The positions are ordered and inside the storage, and the storage is no larger than a
  vector can be (its size in bytes fits a signed 64-bit difference type).
\<close>

definition mb_inv :: "message_buffer \<Rightarrow> bool" where
  "mb_inv b \<longleftrightarrow> mb_rpos b \<le> mb_wpos b \<and> mb_wpos b \<le> length (mb_storage b) \<and>
     length (mb_storage b) < 2 ^ 63"

text \<open>The abstract view of a buffer: the bytes written and not yet read.\<close>

definition active :: "message_buffer \<Rightarrow> bytes" where
  "active b = slice (mb_rpos b) (mb_wpos b - mb_rpos b) (mb_storage b)"

text \<open>The bytes written since the last reset.\<close>

definition written :: "message_buffer \<Rightarrow> bytes" where
  "written b = take (mb_wpos b) (mb_storage b)"

lemma mb_inv_sizes [buf_simps]:
  assumes "mb_inv b"
  shows "GetActiveSize b = mb_wpos b - mb_rpos b"
    and "GetRemainingSpace b = length (mb_storage b) - mb_wpos b"
proof -
  have "length (mb_storage b) < size_mod" "mb_wpos b < size_mod"
    using assms by (auto simp: mb_inv_def size_mod_def)
  with assms show "GetActiveSize b = mb_wpos b - mb_rpos b"
    and "GetRemainingSpace b = length (mb_storage b) - mb_wpos b"
    by (simp_all add: GetActiveSize_def GetRemainingSpace_def mb_inv_def sz_sub_exact)
qed

lemma length_active [simp]: "mb_inv b \<Longrightarrow> length (active b) = mb_wpos b - mb_rpos b"
  by (simp add: active_def mb_inv_def)

lemma length_written [simp]: "mb_inv b \<Longrightarrow> length (written b) = mb_wpos b"
  by (simp add: written_def mb_inv_def)

lemma GetActiveSize_active: "mb_inv b \<Longrightarrow> GetActiveSize b = length (active b)"
  by (simp add: buf_simps)

lemma active_written: "mb_inv b \<Longrightarrow> active b = drop (mb_rpos b) (written b)"
  by (simp add: active_def written_def slice_def mb_inv_def drop_take)

section \<open>Every operation keeps the invariant\<close>

lemma mb_inv_default: "mb_inv MessageBuffer_default" "active MessageBuffer_default = []"
  by (simp_all add: mb_inv_def MessageBuffer_default_def active_def slice_def)

lemma mb_inv_sized: "n < 2 ^ 63 \<Longrightarrow> mb_inv (MessageBuffer_sized n)"
  by (simp add: mb_inv_def MessageBuffer_sized_def)

lemma mb_inv_Reset: "mb_inv b \<Longrightarrow> mb_inv (Reset b)"
  by (simp add: mb_inv_def Reset_def)

lemma mb_inv_Resize: "mb_inv b \<Longrightarrow> mb_wpos b \<le> n \<Longrightarrow> n < 2 ^ 63 \<Longrightarrow> mb_inv (Resize n b)"
  by (simp add: mb_inv_def Resize_def)

lemma ReadCompleted_ok:
  assumes "mb_inv b" "n \<le> GetActiveSize b"
  shows "mb_inv (ReadCompleted n b)" and "active (ReadCompleted n b) = drop n (active b)"
    and "mb_rpos (ReadCompleted n b) = mb_rpos b + n"
proof -
  have n: "mb_rpos b + n \<le> mb_wpos b" using assms by (auto simp: buf_simps mb_inv_def)
  then have "mb_rpos b + n < size_mod" using assms(1) by (simp add: mb_inv_def size_mod_def)
  then have r: "ReadCompleted n b = b\<lparr>mb_rpos := mb_rpos b + n\<rparr>"
    by (simp add: ReadCompleted_def wrap_simps)
  show "mb_inv (ReadCompleted n b)" using n assms(1) by (simp add: r mb_inv_def)
  show "mb_rpos (ReadCompleted n b) = mb_rpos b + n" by (simp add: r)
  show "active (ReadCompleted n b) = drop n (active b)"
    using n by (simp add: r active_def slice_def drop_take add.commute)
qed

lemma Write_ok:
  assumes "mb_inv b" "length data \<le> GetRemainingSpace b"
  shows "\<exists>b'. Write data b = Inr b' \<and> mb_inv b' \<and> active b' = active b @ data \<and>
    written b' = written b @ data \<and> mb_rpos b' = mb_rpos b \<and> mb_wpos b' = mb_wpos b + length data \<and>
    length (mb_storage b') = length (mb_storage b)"
proof (cases "data = []")
  case True
  with assms show ?thesis by (simp add: Write_def)
next
  case False
  define b' where
    "b' = b\<lparr>mb_wpos := mb_wpos b + length data, mb_storage := blit (mb_wpos b) data (mb_storage b)\<rparr>"
  from assms have d: "mb_wpos b + length data \<le> length (mb_storage b)"
    by (auto simp: buf_simps mb_inv_def)
  then have "mb_wpos b + length data < size_mod"
    using assms(1) by (simp add: mb_inv_def size_mod_def)
  then have "Write data b = Inr b'"
    using False d by (simp add: Write_def mem_write_def WriteCompleted_def GetWritePointer_def
        wrap_simps b'_def)
  moreover have "mb_inv b'" using assms(1) d by (simp add: mb_inv_def b'_def)
  moreover have w: "written b' = written b @ data"
    using d assms(1) by (simp add: written_def b'_def mb_inv_def blit_def)
  moreover have "active b' = active b @ data"
  proof -
    have "active b' = drop (mb_rpos b) (written b')"
      using \<open>mb_inv b'\<close> by (simp add: active_written) (simp add: b'_def)
    then show ?thesis
      using assms(1) by (simp add: w active_written) (simp add: mb_inv_def)
  qed
  ultimately show ?thesis using d by (auto simp: b'_def)
qed

lemma Normalize_ok:
  assumes "mb_inv b"
  shows "\<exists>b'. Normalize b = Inr b' \<and> mb_inv b' \<and> active b' = active b \<and> mb_rpos b' = 0 \<and>
    length (mb_storage b') = length (mb_storage b)"
proof -
  let ?n = "mb_wpos b - mb_rpos b"
  have le: "mb_rpos b \<le> mb_wpos b" "mb_wpos b \<le> length (mb_storage b)" "mb_wpos b < size_mod"
    using assms by (auto simp: mb_inv_def size_mod_def)
  consider "mb_rpos b = 0" | "mb_rpos b \<noteq> 0" "mb_rpos b = mb_wpos b" | "mb_rpos b \<noteq> 0" "mb_rpos b \<noteq> mb_wpos b"
    by blast
  then show ?thesis
  proof cases
    case 1
    with assms show ?thesis by (simp add: Normalize_def)
  next
    case 2
    then show ?thesis
      using assms le by (simp add: Normalize_def sz_sub_exact mb_inv_def active_def slice_def)
  next
    case 3
    then show ?thesis
      using assms le
      by (simp add: Normalize_def buf_simps sz_sub_exact mem_read_def mem_write_def GetReadPointer_def
          mb_inv_def active_def)
  qed
qed

lemma EnsureFreeSpace_ok:
  assumes "mb_inv b" "2 \<le> length (mb_storage b)" "length (mb_storage b) < 2 ^ 62"
  shows "mb_inv (EnsureFreeSpace b)" and "active (EnsureFreeSpace b) = active b"
    and "0 < GetRemainingSpace (EnsureFreeSpace b)"
proof -
  let ?n = "length (mb_storage b)" and ?m = "length (mb_storage b) * 3 div 2"
  have grow: "length (mb_storage b) * 3 mod size_mod div 2 = ?m" and m: "?n < ?m" "?m < 2 ^ 63"
    using assms by (simp_all add: size_mod_def)
  have le: "mb_rpos b \<le> mb_wpos b" "mb_wpos b \<le> ?n" using assms(1) by (auto simp: mb_inv_def)
  have act: "active (Resize ?m b) = active b"
    using le m by (simp add: active_def Resize_def slice_def resize_list_grow drop_append take_append)
  show inv: "mb_inv (EnsureFreeSpace b)"
    using assms(1) m le by (auto simp: EnsureFreeSpace_def grow intro!: mb_inv_Resize)
  show "active (EnsureFreeSpace b) = active b"
    by (simp add: EnsureFreeSpace_def grow act)
  show "0 < GetRemainingSpace (EnsureFreeSpace b)"
  proof (cases "GetRemainingSpace b = 0")
    case True
    have "mb_inv (Resize ?m b)" using assms(1) m le by (intro mb_inv_Resize) auto
    then have "GetRemainingSpace (Resize ?m b) = ?m - mb_wpos b"
      by (simp add: buf_simps) (simp add: Resize_def)
    then show ?thesis using True m le by (simp add: EnsureFreeSpace_def grow)
  qed (simp add: EnsureFreeSpace_def)
qed

section \<open>The buffer is a queue of bytes\<close>

text \<open>
  The contract the socket relies on: a queue of bytes with an abstract content, to which
  data is added at the end and from which it is consumed at the front, and two maintenance
  operations that do not change the content.
\<close>

locale byte_queue =
  fixes inv :: "'b \<Rightarrow> bool"
    and content :: "'b \<Rightarrow> bytes"
    and room :: "'b \<Rightarrow> nat"
    and add :: "bytes \<Rightarrow> 'b \<Rightarrow> 'b result"
    and consume :: "nat \<Rightarrow> 'b \<Rightarrow> 'b"
    and compact :: "'b \<Rightarrow> 'b result"
  assumes add_law: "inv b \<Longrightarrow> length data \<le> room b \<Longrightarrow>
      \<exists>b'. add data b = Inr b' \<and> inv b' \<and> content b' = content b @ data"
    and consume_law: "inv b \<Longrightarrow> n \<le> length (content b) \<Longrightarrow>
      inv (consume n b) \<and> content (consume n b) = drop n (content b)"
    and compact_law: "inv b \<Longrightarrow> \<exists>b'. compact b = Inr b' \<and> inv b' \<and> content b' = content b"
begin

text \<open>One round of the client: compact, add what arrived, consume what was parsed.\<close>

fun rounds :: "(bytes \<times> nat) list \<Rightarrow> 'b \<Rightarrow> 'b result" where
  "rounds [] b = Inr b"
| "rounds ((data, n) # rs) b =
     rbind (compact b) (\<lambda>b. rbind (add data b) (\<lambda>b. rounds rs (consume n b)))"

text \<open>The rounds a client may ask for: there is room for the data and enough to consume.\<close>

fun feasible :: "(bytes \<times> nat) list \<Rightarrow> 'b \<Rightarrow> bool" where
  "feasible [] b = True"
| "feasible ((data, n) # rs) b =
     (\<forall>b1. compact b = Inr b1 \<longrightarrow> length data \<le> room b1 \<and>
       (\<forall>b2. add data b1 = Inr b2 \<longrightarrow> n \<le> length (content b2) \<and> feasible rs (consume n b2)))"

lemma rounds_content:
  assumes "inv b" "feasible rs b"
  shows "\<exists>b'. rounds rs b = Inr b' \<and> inv b' \<and>
    content b' = drop (sum_list (map snd rs)) (content b @ concat (map fst rs))"
  using assms
proof (induction rs arbitrary: b)
  case (Cons r rs)
  obtain data n where r: "r = (data, n)" by (cases r)
  from compact_law [OF Cons.prems(1)] obtain b1 where
    b1: "compact b = Inr b1" "inv b1" "content b1 = content b" by blast
  with Cons.prems(2) r have "length data \<le> room b1" by simp
  from add_law [OF b1(2) this] obtain b2 where
    b2: "add data b1 = Inr b2" "inv b2" "content b2 = content b1 @ data" by blast
  with Cons.prems(2) r b1 have n: "n \<le> length (content b2)" "feasible rs (consume n b2)" by auto
  from Cons.IH [OF _ n(2)] consume_law [OF b2(2) n(1)] obtain b' where
    b': "rounds rs (consume n b2) = Inr b'" "inv b'"
      "content b' = drop (sum_list (map snd rs)) (drop n (content b2) @ concat (map fst rs))" by auto
  have "drop n (content b2) @ ys = drop n (content b @ data @ ys)" for ys
    using n(1) b1(3) b2(3) by simp
  then have "content b' = drop (n + sum_list (map snd rs)) (content b @ data @ concat (map fst rs))"
    by (simp only: b'(3) drop_drop add.commute)
  then show ?case using b1 b2 b' by (simp add: r)
qed simp

end

interpretation mb: byte_queue mb_inv active GetRemainingSpace Write ReadCompleted Normalize
proof (unfold_locales, goal_cases)
  case (1 b data)
  then show ?case using Write_ok [of b data] by blast
next
  case (2 b n)
  then show ?case using ReadCompleted_ok [of b n] by (simp add: GetActiveSize_active)
next
  case (3 b)
  then show ?case using Normalize_ok [of b] by blast
qed

section \<open>Properties of the message buffer\<close>

text \<open>
  The same rounds on the message buffer, as the socket performs them: \<open>Normalize\<close>, a write
  of what the peer sent, \<open>ReadCompleted\<close> of what the parser took.
\<close>

fun mb_rounds :: "(bytes \<times> nat) list \<Rightarrow> message_buffer \<Rightarrow> message_buffer result" where
  "mb_rounds [] b = Inr b"
| "mb_rounds ((data, n) # rs) b =
     rbind (Normalize b) (\<lambda>b. rbind (Write data b) (\<lambda>b. mb_rounds rs (ReadCompleted n b)))"

text \<open>The rounds fit: at most \<open>cap\<close> bytes are held at any time and no more is consumed than is there.\<close>

fun fits :: "nat \<Rightarrow> (bytes \<times> nat) list \<Rightarrow> nat \<Rightarrow> bool" where
  "fits cap [] held = True"
| "fits cap ((data, n) # rs) held =
     (held + length data \<le> cap \<and> n \<le> held + length data \<and> fits cap rs (held + length data - n))"

lemma mb_rounds_eq: "mb_rounds rs b = mb.rounds rs b"
  by (induction rs b rule: mb_rounds.induct) simp_all

lemma fits_feasible:
  "mb_inv b \<Longrightarrow> fits (length (mb_storage b)) rs (length (active b)) \<Longrightarrow> mb.feasible rs b"
proof (induction rs arbitrary: b)
  case (Cons r rs)
  obtain data n where r: "r = (data, n)" by (cases r)
  from Normalize_ok [OF Cons.prems(1)] obtain b1 where b1: "Normalize b = Inr b1" "mb_inv b1"
    "active b1 = active b" "mb_rpos b1 = 0" "length (mb_storage b1) = length (mb_storage b)" by blast
  have "length (active b1) = mb_wpos b1" using b1(2,4) by simp
  then have w: "mb_wpos b1 = length (active b)" using b1(3) by simp
  have f: "length (active b) + length data \<le> length (mb_storage b)" "n \<le> length (active b) + length data"
    "fits (length (mb_storage b)) rs (length (active b) + length data - n)"
    using Cons.prems(2) by (simp_all add: r del: length_active)
  then have room: "length data \<le> GetRemainingSpace b1"
    using b1(2,5) w by (simp add: buf_simps del: length_active)
  from Write_ok [OF b1(2) room] obtain b2 where b2: "Write data b1 = Inr b2" "mb_inv b2"
    "active b2 = active b1 @ data" "length (mb_storage b2) = length (mb_storage b1)" by blast
  have n: "n \<le> GetActiveSize b2" using b2 b1(3) f(2) by (simp add: GetActiveSize_active del: length_active)
  have act: "active (ReadCompleted n b2) = drop n (active b2)"
    using ReadCompleted_ok(2) [OF b2(2) n] .
  have len: "length (active (ReadCompleted n b2)) = length (active b) + length data - n"
    by (simp only: act b2(3) b1(3) length_drop length_append)
  have "mb.feasible rs (ReadCompleted n b2)"
  proof (rule Cons.IH)
    show "mb_inv (ReadCompleted n b2)" by (rule ReadCompleted_ok(1) [OF b2(2) n])
    show "fits (length (mb_storage (ReadCompleted n b2))) rs (length (active (ReadCompleted n b2)))"
      using f(3) b2(4) b1(5) len by (simp add: ReadCompleted_def)
  qed
  then show ?case
    using b1(1) b2(1) room n b2(2) by (simp add: r GetActiveSize_active)
qed simp

text \<open>
  C9: the message buffer refines a queue of bytes.  However the incoming data is cut into
  pieces and however much is consumed after each piece, as long as no more is held than the
  buffer can store, no access leaves the storage, the invariant holds at the end, and the
  active bytes are the bytes received, in order, less those consumed.
\<close>
theorem message_buffer_refines_queue:
  assumes "mb_inv b" "fits (length (mb_storage b)) rs (length (active b))"
  shows "\<exists>b'. mb_rounds rs b = Inr b' \<and> mb_inv b' \<and>
    active b' = drop (sum_list (map snd rs)) (active b @ concat (map fst rs))"
  using mb.rounds_content [OF assms(1) fits_feasible [OF assms]] by (simp only: mb_rounds_eq)

theorem message_buffer_refines_queue_witness:
  "\<exists>b'. mb_rounds [([1, 2, 3], 2), ([4, 5, 6], 1)] (MessageBuffer_sized 4) = Inr b' \<and> mb_inv b' \<and>
    active b' = [4, 5, 6]"
  using message_buffer_refines_queue [of "MessageBuffer_sized 4" "[([1, 2, 3], 2), ([4, 5, 6], 1)]"]
    mb_inv_sized [of 4]
  by (simp add: MessageBuffer_sized_def active_def slice_def del: mb_rounds.simps)

text \<open>
  C27: after \<open>EnsureFreeSpace\<close> a buffer of at least two bytes has room for at least one more
  byte and the active bytes are untouched; \<open>AsyncRead\<close> therefore never asks for zero bytes.
\<close>
theorem ensure_free_space_makes_room:
  assumes "mb_inv b" "2 \<le> length (mb_storage b)" "length (mb_storage b) < 2 ^ 62"
  shows "mb_inv (EnsureFreeSpace b) \<and> active (EnsureFreeSpace b) = active b \<and>
    0 < GetRemainingSpace (EnsureFreeSpace b)"
  using EnsureFreeSpace_ok [OF assms] by simp

theorem ensure_free_space_makes_room_witness:
  "0 < GetRemainingSpace (EnsureFreeSpace \<lparr>mb_wpos = 2, mb_rpos = 1, mb_storage = [7, 8]\<rparr>)"
  using ensure_free_space_makes_room [of "\<lparr>mb_wpos = 2, mb_rpos = 1, mb_storage = [7, 8]\<rparr>"]
  by (simp add: mb_inv_def)

end
