(* ===== verification/ByteBuffer.thy ===== *)
theory ByteBuffer
  imports ByteConverter Utf8 MessageBuffer
begin

text \<open>
  \<^verbatim>\<open>src/shared/Packet/ByteBuffer.h\<close> and \<^verbatim>\<open>ByteBuffer.cpp\<close>: the serialisation buffer under
  every packet.  An integer is a word of its width (two's complement when signed), a
  \<open>float\<close> or \<open>double\<close> is its IEEE-754 bit pattern, a \<open>std::string\<close> is its bytes.

  An exception leaves the object it was thrown from behind: nothing in the program catches
  a \<open>ByteBufferException\<close>, so an error carries no buffer.  \<open>char\<close> is signed, as in the
  System V x86-64 ABI.  \<open>bb_capacity\<close> is \<open>_storage.capacity()\<close> with the least growth the
  standard allows.
\<close>

section \<open>The buffer\<close>

record byte_buffer =
  bb_rpos :: nat
  bb_wpos :: nat
  bb_storage :: bytes
  bb_capacity :: nat

definition bb_size :: "byte_buffer \<Rightarrow> nat" where
  "bb_size b = length (bb_storage b)"

definition bb_empty :: "byte_buffer \<Rightarrow> bool" where
  "bb_empty b \<longleftrightarrow> bb_storage b = []"

definition ByteBuffer_default :: byte_buffer where
  "ByteBuffer_default = \<lparr>bb_rpos = 0, bb_wpos = 0, bb_storage = [], bb_capacity = 0x1000\<rparr>"

text \<open>
  \<open>ByteBuffer(const char* buffer, size_t reserve)\<close> reserves and copies the characters
  into the reserved memory, which is past the end of the (empty) vector: the characters
  never become elements of \<open>_storage\<close>.
\<close>

definition ByteBuffer_from_chars :: "bytes \<Rightarrow> byte_buffer" where
  "ByteBuffer_from_chars buffer =
     \<lparr>bb_rpos = 0, bb_wpos = 0, bb_storage = [], bb_capacity = length buffer\<rparr>"

definition ByteBuffer_reserve :: "nat \<Rightarrow> byte_buffer" where
  "ByteBuffer_reserve n = \<lparr>bb_rpos = 0, bb_wpos = 0, bb_storage = [], bb_capacity = n\<rparr>"

text \<open>Move construction and move assignment: the new value and what is left of the source.\<close>

definition move_ByteBuffer :: "byte_buffer \<Rightarrow> byte_buffer \<times> byte_buffer" where
  "move_ByteBuffer buf =
     (buf, buf\<lparr>bb_rpos := 0, bb_wpos := 0, bb_storage := [], bb_capacity := 0\<rparr>)"

text \<open>\<open>ByteBuffer(MessageBuffer&&)\<close>: both positions start at 0; the message buffer is emptied.\<close>

definition ByteBuffer_of_message :: "message_buffer \<Rightarrow> byte_buffer \<times> message_buffer" where
  "ByteBuffer_of_message buffer =
     (let (st, buffer') = Move buffer
      in (\<lparr>bb_rpos = 0, bb_wpos = 0, bb_storage = st, bb_capacity = length st\<rparr>, buffer'))"

definition clear :: "byte_buffer \<Rightarrow> byte_buffer" where
  "clear b = b\<lparr>bb_storage := [], bb_rpos := 0, bb_wpos := 0\<rparr>"

definition set_rpos :: "nat \<Rightarrow> byte_buffer \<Rightarrow> byte_buffer" where
  "set_rpos p b = b\<lparr>bb_rpos := p\<rparr>"

definition rfinish :: "byte_buffer \<Rightarrow> byte_buffer" where
  "rfinish b = b\<lparr>bb_rpos := bb_wpos b\<rparr>"

definition set_wpos :: "nat \<Rightarrow> byte_buffer \<Rightarrow> byte_buffer" where
  "set_wpos p b = b\<lparr>bb_wpos := p\<rparr>"

definition contents :: "byte_buffer \<Rightarrow> bytes result" where
  "contents b = (if bb_storage b = [] then Inl BufferEmpty else Inr (bb_storage b))"

definition resize :: "nat \<Rightarrow> byte_buffer \<Rightarrow> byte_buffer" where
  "resize newsize b =
     b\<lparr>bb_storage := resize_list newsize 0 (bb_storage b), bb_rpos := 0, bb_wpos := newsize,
       bb_capacity := max (bb_capacity b) newsize\<rparr>"

definition reserve :: "nat \<Rightarrow> byte_buffer \<Rightarrow> byte_buffer" where
  "reserve ressize b =
     (if ressize > bb_size b then b\<lparr>bb_capacity := max (bb_capacity b) ressize\<rparr> else b)"

definition shrink_to_fit :: "byte_buffer \<Rightarrow> byte_buffer" where
  "shrink_to_fit b = b\<lparr>bb_capacity := bb_size b\<rparr>"

text \<open>\<open>operator[]\<close>, reading.\<close>

definition index :: "nat \<Rightarrow> byte_buffer \<Rightarrow> uint8 result" where
  "index pos b =
     (if pos \<ge> bb_size b then Inl (BufferPosition False pos 1 (bb_size b))
      else Inr (bb_storage b ! pos))"

section \<open>Writing\<close>

text \<open>The capacity \<open>append\<close> asks for, by the size the buffer is about to have.\<close>

definition growth :: "nat \<Rightarrow> nat" where
  "growth newSize =
     (if newSize < 100 then 300
      else if newSize < 750 then 2500
      else if newSize < 6000 then 10000
      else 400000)"

text \<open>\<open>append(uint8 const* src, size_t cnt)\<close>.\<close>

definition append_bytes :: "bytes \<Rightarrow> byte_buffer \<Rightarrow> byte_buffer result" where
  "append_bytes src b =
     (if length src = 0 then Inl AssertionFailed
      else if \<not> bb_size b < 10000000 then Inl AssertionFailed
      else
        let newSize = sz_add (bb_wpos b) (length src);
            cap = (if bb_capacity b < newSize then max (bb_capacity b) (growth newSize)
                   else bb_capacity b);
            st = (if bb_size b < newSize then resize_list newSize 0 (bb_storage b)
                  else bb_storage b)
        in if bb_wpos b + length src \<le> length st
           then Inr (b\<lparr>bb_storage := blit (bb_wpos b) src st, bb_wpos := newSize,
                       bb_capacity := max cap (length st)\<rparr>)
           else Inl UndefinedBehaviour)"

text \<open>\<open>append<T>(T value)\<close>.\<close>

definition append_val :: "endian \<Rightarrow> 'a::len word \<Rightarrow> byte_buffer \<Rightarrow> byte_buffer result" where
  "append_val e v b = append_bytes (EndianConvert e (mem_bytes e v)) b"

text \<open>\<open>append(ByteBuffer const& buffer)\<close>.\<close>

definition append_buffer :: "byte_buffer \<Rightarrow> byte_buffer \<Rightarrow> byte_buffer result" where
  "append_buffer buffer b =
     (if bb_wpos buffer \<noteq> 0 then
        rbind (contents buffer) (\<lambda>st.
          if bb_wpos buffer \<le> length st then append_bytes (take (bb_wpos buffer) st) b
          else Inl UndefinedBehaviour)
      else Inr b)"

text \<open>\<open>put(size_t pos, uint8 const* src, size_t cnt)\<close> and \<open>put<T>\<close>.\<close>

definition put_bytes :: "nat \<Rightarrow> bytes \<Rightarrow> byte_buffer \<Rightarrow> byte_buffer result" where
  "put_bytes pos src b =
     (if \<not> sz_add pos (length src) \<le> bb_size b then Inl AssertionFailed
      else if length src = 0 then Inl AssertionFailed
      else if pos + length src \<le> bb_size b
      then Inr (b\<lparr>bb_storage := blit pos src (bb_storage b)\<rparr>)
      else Inl UndefinedBehaviour)"

definition put_val :: "endian \<Rightarrow> nat \<Rightarrow> 'a::len word \<Rightarrow> byte_buffer \<Rightarrow> byte_buffer result" where
  "put_val e pos v b = put_bytes pos (EndianConvert e (mem_bytes e v)) b"

text \<open>
  The values the shift operators transfer, one constructor per overload: signed integers
  as their two's complement word, floating point as the bit pattern, strings as bytes.
\<close>

datatype bb_value =
    VBool bool
  | VU8 uint8 | VU16 uint16 | VU32 uint32 | VU64 uint64
  | VI8 uint8 | VI16 uint16 | VI32 uint32 | VI64 uint64
  | VFloat uint32 | VDouble uint64
  | VString bytes

text \<open>\<open>operator<<(std::string_view)\<close>.\<close>

definition put_string :: "endian \<Rightarrow> bytes \<Rightarrow> byte_buffer \<Rightarrow> byte_buffer result" where
  "put_string e str b =
     rbind (if length str \<noteq> 0 then append_bytes str b else Inr b) (append_val e (0 :: uint8))"

text \<open>The overloads of \<open>operator<<\<close>.\<close>

fun put_value :: "endian \<Rightarrow> bb_value \<Rightarrow> byte_buffer \<Rightarrow> byte_buffer result" where
  "put_value e (VBool v) b = append_val e (if v then 1 else 0 :: uint8) b"
| "put_value e (VU8 v) b = append_val e v b"
| "put_value e (VU16 v) b = append_val e v b"
| "put_value e (VU32 v) b = append_val e v b"
| "put_value e (VU64 v) b = append_val e v b"
| "put_value e (VI8 v) b = append_val e v b"
| "put_value e (VI16 v) b = append_val e v b"
| "put_value e (VI32 v) b = append_val e v b"
| "put_value e (VI64 v) b = append_val e v b"
| "put_value e (VFloat v) b = append_val e v b"
| "put_value e (VDouble v) b = append_val e v b"
| "put_value e (VString s) b = put_string e s b"

text \<open>\<open>operator<<(char const*)\<close>: a null pointer is written as the empty string.\<close>

definition put_c_string :: "endian \<Rightarrow> bytes option \<Rightarrow> byte_buffer \<Rightarrow> byte_buffer result" where
  "put_c_string e str b = put_string e (case str of None \<Rightarrow> [] | Some s \<Rightarrow> s) b"

text \<open>
  \<open>appendPackXYZ\<close>; \<open>quarter v\<close> stands for the floating-point expression
  \<open>(int)(v / 0.25f)\<close>.
\<close>

definition appendPackXYZ ::
    "endian \<Rightarrow> ('f \<Rightarrow> int) \<Rightarrow> 'f \<Rightarrow> 'f \<Rightarrow> 'f \<Rightarrow> byte_buffer \<Rightarrow> byte_buffer result" where
  "appendPackXYZ e quarter x y z b =
     (let packed = (word_of_int (quarter x) AND 0x7FF) :: uint32;
          packed = packed OR push_bit 11 (word_of_int (quarter y) AND 0x7FF);
          packed = packed OR push_bit 22 (word_of_int (quarter z) AND 0x3FF)
      in append_val e packed b)"

text \<open>
  \<open>appendPackGUID\<close>: the loop over the bytes of the guid, with the mask byte and the
  nonzero bytes stored so far; \<open>packGUID\<close> has room for eight of them.
\<close>

function pack_guid_loop :: "uint8 \<Rightarrow> uint64 \<Rightarrow> uint8 \<Rightarrow> bytes \<Rightarrow> (uint8 \<times> bytes) result" where
  "pack_guid_loop i guid mark out =
     (if guid \<noteq> 0 then
        (if guid AND 0xFF \<noteq> 0 then
           (if 1 + length out < 9 then
              pack_guid_loop (i + 1) (drop_bit 8 guid) (mark OR push_bit (unat i) 1)
                (out @ [ucast (guid AND 0xFF)])
            else Inl UndefinedBehaviour)
         else pack_guid_loop (i + 1) (drop_bit 8 guid) mark out)
      else Inr (mark, out))"
  by pat_completeness auto
termination
proof (relation "measure (\<lambda>(i, guid, mark, out). unat guid)", goal_cases)
  case (2 i guid mark out)
  then have "unat guid \<noteq> 0" by (simp add: unat_eq_zero)
  then show ?case by (simp only: in_measure case_prod_conv unat_drop_bit) simp
next
  case (3 i guid mark out)
  then have "unat guid \<noteq> 0" by (simp add: unat_eq_zero)
  then show ?case by (simp only: in_measure case_prod_conv unat_drop_bit) simp
qed simp

declare pack_guid_loop.simps [simp del]

definition appendPackGUID :: "uint64 \<Rightarrow> byte_buffer \<Rightarrow> byte_buffer result" where
  "appendPackGUID guid b =
     rbind (pack_guid_loop 0 guid 0 []) (\<lambda>(mark, out). append_bytes (mark # out) b)"

section \<open>Reading\<close>

text \<open>
  The \<open>n\<close> bytes at \<open>pos\<close> are elements of the vector (whose size is a \<open>size_t\<close>); the
  checks of the code compare the wrapped sum only.
\<close>

definition in_storage :: "nat \<Rightarrow> nat \<Rightarrow> byte_buffer \<Rightarrow> bool" where
  "in_storage pos n b \<longleftrightarrow> pos + n \<le> bb_size b \<and> bb_size b < size_mod"

text \<open>\<open>read<T>(size_t pos)\<close>.\<close>

definition read_at :: "endian \<Rightarrow> nat \<Rightarrow> byte_buffer \<Rightarrow> 'a::len word result" where
  "read_at e pos b =
     (let n = sizeof TYPE('a)
      in if sz_add pos n > bb_size b then Inl (BufferPosition False pos n (bb_size b))
         else if in_storage pos n b
         then Inr (mem_word e (EndianConvert e (slice pos n (bb_storage b))))
         else Inl UndefinedBehaviour)"

text \<open>\<open>read<T>()\<close>.\<close>

definition read_val :: "endian \<Rightarrow> byte_buffer \<Rightarrow> ('a::len word \<times> byte_buffer) result" where
  "read_val e b =
     rbind (read_at e (bb_rpos b) b)
       (\<lambda>r :: 'a word. Inr (r, b\<lparr>bb_rpos := sz_add (bb_rpos b) (sizeof TYPE('a))\<rparr>))"

definition read_skip :: "nat \<Rightarrow> byte_buffer \<Rightarrow> byte_buffer result" where
  "read_skip skip b =
     (if sz_add (bb_rpos b) skip > bb_size b
      then Inl (BufferPosition False (bb_rpos b) skip (bb_size b))
      else Inr (b\<lparr>bb_rpos := sz_add (bb_rpos b) skip\<rparr>))"

text \<open>\<open>read(uint8* dest, size_t len)\<close>.\<close>

definition read_bytes :: "nat \<Rightarrow> byte_buffer \<Rightarrow> (bytes \<times> byte_buffer) result" where
  "read_bytes len b =
     (if sz_add (bb_rpos b) len > bb_size b
      then Inl (BufferPosition False (bb_rpos b) len (bb_size b))
      else if in_storage (bb_rpos b) len b
      then Inr (slice (bb_rpos b) len (bb_storage b), b\<lparr>bb_rpos := sz_add (bb_rpos b) len\<rparr>)
      else Inl UndefinedBehaviour)"

text \<open>The loop of \<open>ReadCString\<close>: characters up to a terminator or the end of the buffer.\<close>

function read_c_loop :: "endian \<Rightarrow> byte_buffer \<Rightarrow> bytes \<Rightarrow> (bytes \<times> byte_buffer) result" where
  "read_c_loop e b str =
     (if bb_rpos b < bb_size b then
        (case read_val e b :: (uint8 \<times> byte_buffer) result of
           Inl err \<Rightarrow> Inl err
         | Inr (c, b') \<Rightarrow> if c = 0 then Inr (str, b') else read_c_loop e b' (str @ [c]))
      else Inr (str, b))"
  by pat_completeness auto
termination
proof (relation "measure (\<lambda>(e, b, str). bb_size b - bb_rpos b)", goal_cases)
  case (2 e b str p c b')
  then have "b' = b\<lparr>bb_rpos := sz_add (bb_rpos b) 1\<rparr>" "bb_rpos b + 1 < size_mod"
    by (auto simp: read_val_def read_at_def rbind_eq_Inr in_storage_def Let_def split: if_splits)
  with 2(1) show ?case by (simp add: wrap_simps bb_size_def)
qed simp

declare read_c_loop.simps [simp del]

definition ReadCString :: "endian \<Rightarrow> bool \<Rightarrow> byte_buffer \<Rightarrow> (bytes \<times> byte_buffer) result" where
  "ReadCString e requireValidUtf8 b =
     rbind (read_c_loop e b []) (\<lambda>(str, b').
       if requireValidUtf8 \<and> \<not> is_valid str then Inl (BufferInvalidValue ''string'')
       else Inr (str, b'))"

text \<open>\<open>std::isfinite\<close> of a bit pattern: the exponent field is not all ones.\<close>

definition isfinite_float :: "uint32 \<Rightarrow> bool" where
  "isfinite_float v \<longleftrightarrow> drop_bit 23 v AND 0xFF \<noteq> 0xFF"

definition isfinite_double :: "uint64 \<Rightarrow> bool" where
  "isfinite_double v \<longleftrightarrow> drop_bit 52 v AND 0x7FF \<noteq> 0x7FF"

definition read_float :: "endian \<Rightarrow> byte_buffer \<Rightarrow> (uint32 \<times> byte_buffer) result" where
  "read_float e b =
     rbind (read_val e b) (\<lambda>(v, b').
       if \<not> isfinite_float v then Inl (BufferInvalidValue ''float'') else Inr (v, b'))"

definition read_double :: "endian \<Rightarrow> byte_buffer \<Rightarrow> (uint64 \<times> byte_buffer) result" where
  "read_double e b =
     rbind (read_val e b) (\<lambda>(v, b').
       if \<not> isfinite_double v then Inl (BufferInvalidValue ''double'') else Inr (v, b'))"

text \<open>\<open>operator>>(bool&)\<close>: \<open>read<char>() > 0\<close> with a signed \<open>char\<close>.\<close>

definition read_bool :: "endian \<Rightarrow> byte_buffer \<Rightarrow> (bool \<times> byte_buffer) result" where
  "read_bool e b = rbind (read_val e b) (\<lambda>(c :: uint8, b'). Inr (sint c > 0, b'))"

datatype bb_type = TBool | TU8 | TU16 | TU32 | TU64 | TI8 | TI16 | TI32 | TI64 | TFloat | TDouble
  | TString

text \<open>The overloads of \<open>operator>>\<close>.\<close>

fun get_value :: "endian \<Rightarrow> bb_type \<Rightarrow> byte_buffer \<Rightarrow> (bb_value \<times> byte_buffer) result" where
  "get_value e TBool b = map_sum id (map_prod VBool id) (read_bool e b)"
| "get_value e TU8 b = map_sum id (map_prod VU8 id) (read_val e b)"
| "get_value e TU16 b = map_sum id (map_prod VU16 id) (read_val e b)"
| "get_value e TU32 b = map_sum id (map_prod VU32 id) (read_val e b)"
| "get_value e TU64 b = map_sum id (map_prod VU64 id) (read_val e b)"
| "get_value e TI8 b = map_sum id (map_prod VI8 id) (read_val e b)"
| "get_value e TI16 b = map_sum id (map_prod VI16 id) (read_val e b)"
| "get_value e TI32 b = map_sum id (map_prod VI32 id) (read_val e b)"
| "get_value e TI64 b = map_sum id (map_prod VI64 id) (read_val e b)"
| "get_value e TFloat b = map_sum id (map_prod VFloat id) (read_float e b)"
| "get_value e TDouble b = map_sum id (map_prod VDouble id) (read_double e b)"
| "get_value e TString b = map_sum id (map_prod VString id) (ReadCString e True b)"

text \<open>The loop of \<open>readPackGUID\<close> over the bits of the mark.\<close>

function read_guid_loop :: "endian \<Rightarrow> nat \<Rightarrow> uint8 \<Rightarrow> uint64 \<Rightarrow> byte_buffer
    \<Rightarrow> (uint64 \<times> byte_buffer) result" where
  "read_guid_loop e i guidmark guid b =
     (if i < 8 then
        (if guidmark AND push_bit i 1 \<noteq> 0 then
           (if sz_add (bb_rpos b) 1 > bb_size b
            then Inl (BufferPosition False (bb_rpos b) 1 (bb_size b))
            else case read_val e b :: (uint8 \<times> byte_buffer) result of
                   Inl err \<Rightarrow> Inl err
                 | Inr (bt, b') \<Rightarrow>
                     read_guid_loop e (Suc i) guidmark (guid OR push_bit (i * 8) (ucast bt)) b')
         else read_guid_loop e (Suc i) guidmark guid b)
      else Inr (guid, b))"
  by pat_completeness auto
termination
  by (relation "measure (\<lambda>(e, i, _). 8 - i)") auto

declare read_guid_loop.simps [simp del]

definition readPackGUID :: "endian \<Rightarrow> byte_buffer \<Rightarrow> (uint64 \<times> byte_buffer) result" where
  "readPackGUID e b =
     (if sz_add (bb_rpos b) 1 > bb_size b
      then Inl (BufferPosition False (bb_rpos b) 1 (bb_size b))
      else rbind (read_val e b) (\<lambda>(guidmark, b'). read_guid_loop e 0 guidmark 0 b'))"

section \<open>Packed times\<close>

text \<open>\<open>struct tm\<close>.\<close>

record tm =
  tm_sec :: int
  tm_min :: int
  tm_hour :: int
  tm_mday :: int
  tm_mon :: int
  tm_year :: int
  tm_wday :: int
  tm_yday :: int
  tm_isdst :: int

definition tm_zero :: tm where
  "tm_zero = \<lparr>tm_sec = 0, tm_min = 0, tm_hour = 0, tm_mday = 0, tm_mon = 0, tm_year = 0,
     tm_wday = 0, tm_yday = 0, tm_isdst = 0\<rparr>"

text \<open>The expression \<open>AppendPackedTime\<close> writes, for the broken-down local time.\<close>

definition pack_time :: "tm \<Rightarrow> uint32" where
  "pack_time lt =
     push_bit 24 (word_of_int (tm_year lt - 100)) OR push_bit 20 (word_of_int (tm_mon lt))
     OR push_bit 14 (word_of_int (tm_mday lt - 1)) OR push_bit 11 (word_of_int (tm_wday lt))
     OR push_bit 6 (word_of_int (tm_hour lt)) OR word_of_int (tm_min lt)"

text \<open>\<open>TimeBreakdown(time)\<close> is a parameter here: it reads the clock and the time zone.\<close>

definition AppendPackedTime ::
    "endian \<Rightarrow> (int \<Rightarrow> tm) \<Rightarrow> int \<Rightarrow> byte_buffer \<Rightarrow> byte_buffer result" where
  "AppendPackedTime e time_breakdown time b = append_val e (pack_time (time_breakdown time)) b"

text \<open>The fields \<open>ReadPackedTime\<close> fills in before it calls \<open>mktime\<close>.\<close>

definition unpack_time :: "uint32 \<Rightarrow> tm" where
  "unpack_time packedDate = tm_zero\<lparr>
     tm_min := uint (packedDate AND 0x3F),
     tm_hour := uint (drop_bit 6 packedDate AND 0x1F),
     tm_mday := uint (drop_bit 14 packedDate AND 0x3F) + 1,
     tm_mon := uint (drop_bit 20 packedDate AND 0xF),
     tm_year := uint (drop_bit 24 packedDate AND 0x1F) + 100\<rparr>"

definition ReadPackedTime ::
    "endian \<Rightarrow> (tm \<Rightarrow> int) \<Rightarrow> byte_buffer \<Rightarrow> (uint32 \<times> byte_buffer) result" where
  "ReadPackedTime e mktime b =
     rbind (read_val e b) (\<lambda>(packedDate, b'). Inr (word_of_int (mktime (unpack_time packedDate)), b'))"

section \<open>Well-formed buffers\<close>

text \<open>
  Positions inside the storage, the storage inside its capacity.  A buffer whose write
  position is at its end is being composed: what is appended lands after what is there.
\<close>

definition bb_inv :: "byte_buffer \<Rightarrow> bool" where
  "bb_inv b \<longleftrightarrow> bb_rpos b \<le> bb_size b \<and> bb_wpos b \<le> bb_size b \<and> bb_size b \<le> bb_capacity b \<and>
     bb_size b < 2 ^ 63"

definition composing :: "byte_buffer \<Rightarrow> bool" where
  "composing b \<longleftrightarrow> bb_inv b \<and> bb_wpos b = bb_size b"

lemma bb_size_less: "bb_inv b \<Longrightarrow> bb_size b < size_mod"
  by (simp add: bb_inv_def size_mod_def)

lemma composing_reserve [simp]: "composing (ByteBuffer_reserve n)" "composing ByteBuffer_default"
  by (simp_all add: composing_def bb_inv_def ByteBuffer_reserve_def ByteBuffer_default_def bb_size_def)

lemma append_bytes_storage:
  assumes inv: "bb_inv b" and src: "src \<noteq> []" and lim: "bb_size b < 10000000"
    and n: "length src < 2 ^ 62"
  shows "\<exists>b'. append_bytes src b = Inr b' \<and> bb_inv b' \<and>
    bb_storage b' = take (bb_wpos b) (bb_storage b) @ src @ drop (bb_wpos b + length src) (bb_storage b) \<and>
    bb_wpos b' = bb_wpos b + length src \<and> bb_rpos b' = bb_rpos b"
proof -
  let ?w = "bb_wpos b" and ?st = "bb_storage b" and ?n = "bb_wpos b + length src"
  have w: "?w \<le> length ?st" "bb_rpos b \<le> length ?st" "length ?st < 10000000"
    using inv lim by (auto simp: bb_inv_def bb_size_def)
  have new: "sz_add ?w (length src) = ?n" using w n by (simp add: sz_add_def size_mod_def)
  define st where "st = (if length ?st < ?n then resize_list ?n 0 ?st else ?st)"
  have st: "length st = max ?n (length ?st)" "take ?w st = take ?w ?st" "drop ?n st = drop ?n ?st"
    using w by (auto simp: st_def resize_list_def)
  define b' where "b' = b\<lparr>bb_storage := blit ?w src st, bb_wpos := ?n, bb_capacity :=
    max (if bb_capacity b < ?n then max (bb_capacity b) (growth ?n) else bb_capacity b) (length st)\<rparr>"
  have "append_bytes src b = Inr b'"
    using src lim st(1) by (simp add: append_bytes_def new b'_def st_def bb_size_def Let_def)
  moreover have len: "length (blit ?w src st) = length st"
    using st(1) by simp
  moreover have "bb_inv b'"
    using w n len st(1) by (simp add: bb_inv_def bb_size_def b'_def)
  ultimately show ?thesis
    using st(2,3) by (auto simp: b'_def blit_def)
qed

lemma append_bytes_composing:
  assumes "composing b" "src \<noteq> []" "bb_size b + length src \<le> 10000000"
  shows "\<exists>b'. append_bytes src b = Inr b' \<and> composing b' \<and> bb_storage b' = bb_storage b @ src \<and>
    bb_rpos b' = bb_rpos b"
proof -
  have "0 < length src" using assms(2) by simp
  then have lim: "bb_size b < 10000000" using assms(3) by linarith
  have "length src < 2 ^ 62" using assms(3) by simp
  from append_bytes_storage [OF _ assms(2) lim this] assms(1) show ?thesis
    by (auto simp: composing_def bb_size_def)
qed

lemma append_val_composing:
  fixes v :: "'a::len word"
  assumes "composing b" "0 < sizeof TYPE('a)" "bb_size b + sizeof TYPE('a) \<le> 10000000"
  shows "\<exists>b'. append_val e v b = Inr b' \<and> composing b' \<and> bb_storage b' = bb_storage b @ le_bytes v \<and>
    bb_rpos b' = bb_rpos b"
proof -
  have "le_bytes v \<noteq> []" using assms(2) by (simp flip: length_0_conv)
  with append_bytes_composing [OF assms(1), of "le_bytes v"] assms(3) show ?thesis
    by (simp add: append_val_def)
qed

lemma read_val_eq:
  assumes "bb_rpos b + sizeof TYPE('a::len) \<le> bb_size b" "bb_size b < size_mod"
  shows "read_val e b = Inr (le_word (slice (bb_rpos b) (sizeof TYPE('a)) (bb_storage b)) :: 'a word,
    b\<lparr>bb_rpos := bb_rpos b + sizeof TYPE('a)\<rparr>)"
  using assms by (simp add: read_val_def read_at_def in_storage_def Let_def wrap_simps)

lemma read_val_slice:
  assumes "bb_storage b = pre @ le_bytes (v :: 'a::len word) @ post" "bb_rpos b = length pre"
    and "bb_size b < size_mod" and "8 dvd LENGTH('a)"
  shows "read_val e b = Inr (v, b\<lparr>bb_rpos := length pre + sizeof TYPE('a)\<rparr>)"
proof -
  have "length pre + sizeof TYPE('a) \<le> bb_size b" using assms(1) by (simp add: bb_size_def)
  moreover have "slice (length pre) (sizeof TYPE('a)) (bb_storage b) = le_bytes v"
    using assms(1) by (simp add: slice_mid)
  ultimately show ?thesis
    using assms(2-4) by (simp add: read_val_eq le_word_le_bytes)
qed

section \<open>Codecs\<close>

text \<open>
  A chain of \<open><<\<close> and the matching chain of \<open>>>\<close>, for any writer and reader of single
  values.
\<close>

fun put_all :: "('v \<Rightarrow> byte_buffer \<Rightarrow> byte_buffer result) \<Rightarrow> 'v list \<Rightarrow> byte_buffer \<Rightarrow> byte_buffer result"
  where
  "put_all put [] b = Inr b"
| "put_all put (v # vs) b = rbind (put v b) (put_all put vs)"

fun get_all :: "('t \<Rightarrow> byte_buffer \<Rightarrow> ('v \<times> byte_buffer) result) \<Rightarrow> 't list \<Rightarrow> byte_buffer
    \<Rightarrow> ('v list \<times> byte_buffer) result" where
  "get_all get [] b = Inr ([], b)"
| "get_all get (t # ts) b =
     rbind (get t b) (\<lambda>(v, b'). rbind (get_all get ts b') (\<lambda>(vs, b''). Inr (v # vs, b'')))"

text \<open>
  What a pair of writer and reader promises its users: writing appends the encoding of
  the value, reading at an encoding returns the value and moves past it.
\<close>

locale codec =
  fixes put :: "'v \<Rightarrow> byte_buffer \<Rightarrow> byte_buffer result"
    and get :: "'t \<Rightarrow> byte_buffer \<Rightarrow> ('v \<times> byte_buffer) result"
    and enc :: "'v \<Rightarrow> bytes"
    and ty :: "'v \<Rightarrow> 't"
    and ok :: "'v \<Rightarrow> bool"
  assumes put_enc: "composing b \<Longrightarrow> bb_size b + length (enc v) \<le> 10000000 \<Longrightarrow>
      \<exists>b'. put v b = Inr b' \<and> composing b' \<and> bb_storage b' = bb_storage b @ enc v \<and>
        bb_rpos b' = bb_rpos b"
    and get_enc: "ok v \<Longrightarrow> bb_storage b = pre @ enc v @ post \<Longrightarrow> bb_rpos b = length pre \<Longrightarrow>
      bb_size b < size_mod \<Longrightarrow> get (ty v) b = Inr (v, b\<lparr>bb_rpos := length pre + length (enc v)\<rparr>)"
begin

lemma put_all_enc:
  assumes "composing b" "bb_size b + length (concat (map enc vs)) \<le> 10000000"
  shows "\<exists>b'. put_all put vs b = Inr b' \<and> composing b' \<and>
    bb_storage b' = bb_storage b @ concat (map enc vs) \<and> bb_rpos b' = bb_rpos b"
  using assms
proof (induction vs arbitrary: b)
  case (Cons v vs)
  then have "bb_size b + length (enc v) \<le> 10000000" by simp
  from put_enc [OF Cons.prems(1) this] obtain b1 where b1: "put v b = Inr b1" "composing b1"
      "bb_storage b1 = bb_storage b @ enc v" "bb_rpos b1 = bb_rpos b"
    by blast
  with Cons.prems(2) have "bb_size b1 + length (concat (map enc vs)) \<le> 10000000"
    by (simp add: bb_size_def)
  from Cons.IH [OF b1(2) this] b1 show ?case by auto
qed simp

lemma get_all_enc:
  assumes "list_all ok vs" "bb_storage b = pre @ concat (map enc vs) @ post" "bb_rpos b = length pre"
    and "bb_size b < size_mod"
  shows "get_all get (map ty vs) b =
    Inr (vs, b\<lparr>bb_rpos := length pre + length (concat (map enc vs))\<rparr>)"
  using assms
proof (induction vs arbitrary: b pre)
  case (Cons v vs)
  let ?b = "b\<lparr>bb_rpos := length pre + length (enc v)\<rparr>"
  have "get (ty v) b = Inr (v, ?b)"
    using Cons.prems by (intro get_enc [where post = "concat (map enc vs) @ post"]) auto
  moreover have "get_all get (map ty vs) ?b =
      Inr (vs, ?b\<lparr>bb_rpos := length (pre @ enc v) + length (concat (map enc vs))\<rparr>)"
    by (rule Cons.IH) (use Cons.prems in \<open>auto simp: bb_size_def\<close>)
  ultimately show ?case by (simp add: add.assoc)
qed simp

text \<open>What a chain of writes puts after the read position, the chain of reads takes back.\<close>

lemma round_trip:
  assumes "composing b" "bb_rpos b = bb_size b" "list_all ok vs"
    and "bb_size b + length (concat (map enc vs)) \<le> 10000000"
  shows "\<exists>b' b''. put_all put vs b = Inr b' \<and> get_all get (map ty vs) b' = Inr (vs, b'') \<and>
    bb_rpos b'' = bb_size b'' \<and> bb_storage b'' = bb_storage b'"
proof -
  from put_all_enc [OF assms(1,4)] obtain b' where b': "put_all put vs b = Inr b'" "composing b'"
      "bb_storage b' = bb_storage b @ concat (map enc vs)" "bb_rpos b' = bb_rpos b"
    by blast
  have "get_all get (map ty vs) b' =
      Inr (vs, b'\<lparr>bb_rpos := length (bb_storage b) + length (concat (map enc vs))\<rparr>)"
    using assms b' by (intro get_all_enc [where post = "[]"])
      (auto simp: bb_size_def composing_def dest: bb_size_less)
  with b' show ?thesis by (auto simp: bb_size_def)
qed

end

section \<open>The shift operators are a codec\<close>

fun value_type :: "bb_value \<Rightarrow> bb_type" where
  "value_type (VBool _) = TBool"
| "value_type (VU8 _) = TU8"
| "value_type (VU16 _) = TU16"
| "value_type (VU32 _) = TU32"
| "value_type (VU64 _) = TU64"
| "value_type (VI8 _) = TI8"
| "value_type (VI16 _) = TI16"
| "value_type (VI32 _) = TI32"
| "value_type (VI64 _) = TI64"
| "value_type (VFloat _) = TFloat"
| "value_type (VDouble _) = TDouble"
| "value_type (VString _) = TString"

text \<open>The wire format: little endian integers, zero-terminated strings.\<close>

fun value_bytes :: "bb_value \<Rightarrow> bytes" where
  "value_bytes (VBool v) = [if v then 1 else 0]"
| "value_bytes (VU8 v) = le_bytes v"
| "value_bytes (VU16 v) = le_bytes v"
| "value_bytes (VU32 v) = le_bytes v"
| "value_bytes (VU64 v) = le_bytes v"
| "value_bytes (VI8 v) = le_bytes v"
| "value_bytes (VI16 v) = le_bytes v"
| "value_bytes (VI32 v) = le_bytes v"
| "value_bytes (VI64 v) = le_bytes v"
| "value_bytes (VFloat v) = le_bytes v"
| "value_bytes (VDouble v) = le_bytes v"
| "value_bytes (VString s) = s @ [0]"

text \<open>The values a reader gets back: finite numbers, UTF-8 strings without an embedded zero.\<close>

fun readable :: "bb_value \<Rightarrow> bool" where
  "readable (VFloat v) = isfinite_float v"
| "readable (VDouble v) = isfinite_double v"
| "readable (VString s) = (0 \<notin> set s \<and> is_valid s)"
| "readable _ = True"

lemma le_bytes_byte: "le_bytes (v :: uint8) = [v]"
  by (simp add: le_bytes_def)

lemma read_byte:
  assumes "bb_storage b = pre @ c # post" "bb_rpos b = length pre" "bb_size b < size_mod"
  shows "read_val e b = Inr (c :: uint8, b\<lparr>bb_rpos := length pre + 1\<rparr>)"
  using read_val_slice [of b pre c post e] assms by (simp add: le_bytes_byte)

lemma read_c_loop_string:
  assumes "bb_storage b = pre @ s @ 0 # post" "bb_rpos b = length pre" "bb_size b < size_mod"
    and "0 \<notin> set s"
  shows "read_c_loop e b acc = Inr (acc @ s, b\<lparr>bb_rpos := length pre + length s + 1\<rparr>)"
  using assms
proof (induction s arbitrary: b pre acc)
  case Nil
  then have "read_val e b = Inr (0 :: uint8, b\<lparr>bb_rpos := length pre + 1\<rparr>)"
    by (intro read_byte) auto
  then show ?case
    using Nil by (subst read_c_loop.simps) (simp add: bb_size_def)
next
  case (Cons c s)
  let ?b = "b\<lparr>bb_rpos := length pre + 1\<rparr>"
  have r: "read_val e b = Inr (c, ?b)"
    using Cons.prems by (intro read_byte) auto
  have "read_c_loop e ?b (acc @ [c]) =
      Inr ((acc @ [c]) @ s, ?b\<lparr>bb_rpos := length (pre @ [c]) + length s + 1\<rparr>)"
    by (rule Cons.IH) (use Cons.prems in \<open>auto simp: bb_size_def\<close>)
  then show ?case
    using Cons.prems r by (subst read_c_loop.simps) (simp add: bb_size_def)
qed

lemma put_string_composing:
  assumes "composing b" "bb_size b + length s + 1 \<le> 10000000"
  shows "\<exists>b'. put_string e s b = Inr b' \<and> composing b' \<and> bb_storage b' = bb_storage b @ s @ [0] \<and>
    bb_rpos b' = bb_rpos b"
proof -
  have "\<exists>b1. (if length s \<noteq> 0 then append_bytes s b else Inr b) = Inr b1 \<and> composing b1 \<and>
      bb_storage b1 = bb_storage b @ s \<and> bb_rpos b1 = bb_rpos b"
    using append_bytes_composing [OF assms(1), of s] assms by auto
  then obtain b1 where b1: "(if length s \<noteq> 0 then append_bytes s b else Inr b) = Inr b1"
      "composing b1" "bb_storage b1 = bb_storage b @ s" "bb_rpos b1 = bb_rpos b" by blast
  have "bb_size b1 + sizeof TYPE(8) \<le> 10000000" using assms(2) b1(3) by (simp add: bb_size_def)
  from append_val_composing [OF b1(2) _ this, of e 0] b1 show ?thesis
    by (auto simp: put_string_def le_bytes_byte)
qed

interpretation vals: codec "put_value e" "get_value e" value_bytes value_type readable for e
proof (unfold_locales, goal_cases)
  case (1 b v)
  then show ?case
    by (cases v) (simp_all add: append_val_composing put_string_composing le_bytes_byte
        append_val_composing [where 'a = 8, unfolded le_bytes_byte, simplified])
next
  case (2 v b pre post)
  have sz: "bb_size b = length pre + length (value_bytes v) + length post"
    using 2 by (simp add: bb_size_def)
  show ?case
  proof (cases v)
    case (VBool x)
    then show ?thesis using 2 read_byte [of b pre _ post e] by (simp add: read_bool_def)
  next
    case (VString s)
    then have "read_c_loop e b [] = Inr (s, b\<lparr>bb_rpos := length pre + length s + 1\<rparr>)"
      using 2 read_c_loop_string [of b pre s post e "[]"] by simp
    then show ?thesis using VString 2 by (simp add: ReadCString_def)
  qed (use 2 sz in \<open>simp_all add: read_float_def read_double_def read_val_eq slice_mid
      le_word_le_bytes\<close>)
qed

section \<open>Memory safety\<close>

text \<open>
  The operations on a buffer that a client can issue one after the other; moving the
  positions by hand (\<open>rpos(n)\<close>, \<open>wpos(n)\<close>) is left to the client's care.
\<close>

datatype bb_op =
    OpPut bb_value | OpAppend bytes | OpPutAt nat bytes | OpAppendBuffer byte_buffer
  | OpGet bb_type | OpRead nat | OpSkip nat | OpGuid | OpAppendGuid uint64
  | OpClear | OpFinish | OpResize nat | OpReserve nat | OpShrink

fun bb_step :: "endian \<Rightarrow> bb_op \<Rightarrow> byte_buffer \<Rightarrow> byte_buffer result" where
  "bb_step e (OpPut v) b = put_value e v b"
| "bb_step e (OpAppend src) b = append_bytes src b"
| "bb_step e (OpPutAt pos src) b = put_bytes pos src b"
| "bb_step e (OpAppendBuffer other) b = append_buffer other b"
| "bb_step e (OpGet t) b = rbind (get_value e t b) (\<lambda>(_, b'). Inr b')"
| "bb_step e (OpRead len) b = rbind (read_bytes len b) (\<lambda>(_, b'). Inr b')"
| "bb_step e (OpSkip n) b = read_skip n b"
| "bb_step e OpGuid b = rbind (readPackGUID e b) (\<lambda>(_, b'). Inr b')"
| "bb_step e (OpAppendGuid g) b = appendPackGUID g b"
| "bb_step e OpClear b = Inr (clear b)"
| "bb_step e OpFinish b = Inr (rfinish b)"
| "bb_step e (OpResize n) b = Inr (resize n b)"
| "bb_step e (OpReserve n) b = Inr (reserve n b)"
| "bb_step e OpShrink b = Inr (shrink_to_fit b)"

text \<open>Arguments an object in memory can have: sizes below half the address space.\<close>

fun bb_op_ok :: "bb_op \<Rightarrow> bool" where
  "bb_op_ok (OpPut (VString s)) = (length s < 2 ^ 62)"
| "bb_op_ok (OpAppend src) = (length src < 2 ^ 62)"
| "bb_op_ok (OpPutAt pos src) = (pos < 2 ^ 63 \<and> length src < 2 ^ 62)"
| "bb_op_ok (OpAppendBuffer other) = (bb_inv other \<and> bb_size other < 2 ^ 62)"
| "bb_op_ok (OpRead len) = (len < 2 ^ 63)"
| "bb_op_ok (OpResize n) = (n < 2 ^ 63)"
| "bb_op_ok _ = True"

fun bb_run :: "endian \<Rightarrow> bb_op list \<Rightarrow> byte_buffer \<Rightarrow> byte_buffer result" where
  "bb_run e [] b = Inr b"
| "bb_run e (c # cs) b = rbind (bb_step e c b) (bb_run e cs)"

text \<open>What a safe step may end in: a well-formed buffer, or a failure other than undefined behaviour.\<close>

definition safe :: "byte_buffer result \<Rightarrow> bool" where
  "safe r \<longleftrightarrow> (case r of Inl err \<Rightarrow> err \<noteq> UndefinedBehaviour | Inr b \<Rightarrow> bb_inv b)"

lemma safe_simps [simp]: "safe (Inl err) \<longleftrightarrow> err \<noteq> UndefinedBehaviour" "safe (Inr b) \<longleftrightarrow> bb_inv b"
  by (simp_all add: safe_def)

lemma safe_rbind:
  assumes "safe r" "\<And>b. r = Inr b \<Longrightarrow> bb_inv b \<Longrightarrow> safe (f b)"
  shows "safe (rbind r f)"
  using assms by (cases r) auto

lemma safe_append_bytes: "bb_inv b \<Longrightarrow> length src < 2 ^ 62 \<Longrightarrow> safe (append_bytes src b)"
  using append_bytes_storage [of b src]
  by (cases "src = []"; cases "bb_size b < 10000000") (auto simp: append_bytes_def)

lemma safe_append_val:
  fixes v :: "'a::len word"
  shows "bb_inv b \<Longrightarrow> sizeof TYPE('a) < 2 ^ 62 \<Longrightarrow> safe (append_val e v b)"
  by (simp add: append_val_def safe_append_bytes)

lemma safe_put_string: "bb_inv b \<Longrightarrow> length s < 2 ^ 62 \<Longrightarrow> safe (put_string e s b)"
  unfolding put_string_def
  by (rule safe_rbind) (auto intro: safe_append_bytes safe_append_val)

lemma bb_inv_rpos [simp]: "bb_inv b \<Longrightarrow> bb_inv (b\<lparr>bb_rpos := p\<rparr>) \<longleftrightarrow> p \<le> bb_size b"
  by (auto simp: bb_inv_def bb_size_def)

text \<open>A reader is safe when it fails cleanly or leaves a well-formed buffer.\<close>

definition reads :: "('a \<times> byte_buffer) result \<Rightarrow> bool" where
  "reads r \<longleftrightarrow> safe (rbind r (\<lambda>(_, b'). Inr b'))"

lemma reads_simps [simp]: "reads (Inl err) \<longleftrightarrow> err \<noteq> UndefinedBehaviour" "reads (Inr (v, b)) \<longleftrightarrow> bb_inv b"
  by (simp_all add: reads_def)

lemma reads_map_sum [simp]: "reads (map_sum id (map_prod f id) r) = reads r"
  by (cases r) auto

lemma reads_rbind:
  assumes "reads r" "\<And>v b. bb_inv b \<Longrightarrow> reads (f (v, b))"
  shows "reads (rbind r f)"
  using assms by (cases r) auto

text \<open>A failed bounds check and a passed one, for a size that does not wrap.\<close>

lemma read_val_cases:
  assumes "bb_inv b" "sizeof TYPE('a::len) < 2 ^ 63"
  shows "read_val e b =
    (if bb_rpos b + sizeof TYPE('a) \<le> bb_size b
     then Inr (le_word (slice (bb_rpos b) (sizeof TYPE('a)) (bb_storage b)) :: 'a word,
       b\<lparr>bb_rpos := bb_rpos b + sizeof TYPE('a)\<rparr>)
     else Inl (BufferPosition False (bb_rpos b) (sizeof TYPE('a)) (bb_size b)))"
proof (cases "bb_rpos b + sizeof TYPE('a) \<le> bb_size b")
  case True
  then show ?thesis using assms by (simp add: read_val_eq bb_size_less)
next
  case False
  have "bb_rpos b + sizeof TYPE('a) < size_mod"
    using assms by (simp add: bb_inv_def size_mod_def)
  with False show ?thesis by (simp add: read_val_def read_at_def Let_def wrap_simps)
qed

lemma reads_read_val: "bb_inv b \<Longrightarrow> sizeof TYPE('a::len) < 2 ^ 63 \<Longrightarrow>
    reads (read_val e b :: ('a word \<times> byte_buffer) result)"
  by (simp add: read_val_cases)

lemma reads_read_c_loop: "bb_inv b \<Longrightarrow> reads (read_c_loop e b str)"
proof (induction e b str rule: read_c_loop.induct)
  case (1 e b str)
  show ?case
  proof (cases "bb_rpos b < bb_size b")
    case True
    with 1(2) obtain c b' where r: "read_val e b = Inr (c :: uint8, b')" and "bb_inv b'"
      by (simp add: read_val_cases)
    with 1(1) [OF True r refl] True show ?thesis
      by (subst read_c_loop.simps) simp
  next
    case False
    with 1(2) show ?thesis by (subst read_c_loop.simps) simp
  qed
qed

lemma reads_read_guid_loop: "bb_inv b \<Longrightarrow> reads (read_guid_loop e i m g b)"
proof (induction e i m g b rule: read_guid_loop.induct)
  case (1 e i m g b)
  show ?case
  proof (cases "i < 8 \<and> m AND push_bit i 1 \<noteq> 0 \<and> \<not> sz_add (bb_rpos b) 1 > bb_size b")
    case True
    then have "bb_rpos b + 1 \<le> bb_size b"
      using 1(3) by (simp add: bb_inv_def size_mod_def sz_add_def)
    then have r: "read_val e b = Inr (le_word (slice (bb_rpos b) 1 (bb_storage b)) :: uint8,
        b\<lparr>bb_rpos := bb_rpos b + 1\<rparr>)" and i: "bb_inv (b\<lparr>bb_rpos := bb_rpos b + 1\<rparr>)"
      using 1(3) by (simp_all add: read_val_cases)
    show ?thesis
      using True 1(1) [OF _ _ _ r refl i] r by (subst read_guid_loop.simps) auto
  next
    case False
    then show ?thesis using 1(2,3) by (subst read_guid_loop.simps) auto
  qed
qed

lemma reads_get_value: "bb_inv b \<Longrightarrow> reads (get_value e t b)"
  by (cases t) (auto intro!: reads_rbind reads_read_val reads_read_c_loop
      simp: read_bool_def read_float_def read_double_def ReadCString_def)

lemma reads_readPackGUID: "bb_inv b \<Longrightarrow> reads (readPackGUID e b)"
  by (auto simp: readPackGUID_def intro!: reads_rbind reads_read_val reads_read_guid_loop)

lemma safe_read_bytes: "bb_inv b \<Longrightarrow> len < 2 ^ 63 \<Longrightarrow> reads (read_bytes len b)"
  by (auto simp: read_bytes_def in_storage_def bb_inv_def sz_add_def size_mod_def bb_size_def)

lemma safe_append_buffer:
  assumes "bb_inv b" "bb_inv other" "bb_size other < 2 ^ 62"
  shows "safe (append_buffer other b)"
proof -
  have "length (take (bb_wpos other) (bb_storage other)) < 2 ^ 62" "bb_wpos other \<le> length (bb_storage other)"
    using assms by (auto simp: bb_inv_def bb_size_def)
  then show ?thesis
    using assms(1) by (auto simp: append_buffer_def contents_def intro: safe_append_bytes)
qed

end
