(* ===== verification/PackedGuid.thy ===== *)
theory PackedGuid
  imports ByteBuffer
begin

text \<open>
  The two compressed encodings of \<^verbatim>\<open>src/shared/Packet/ByteBuffer.h\<close>: \<open>appendPackGUID\<close> against
  \<open>readPackGUID\<close>, and \<open>AppendPackedTime\<close> against \<open>ReadPackedTime\<close>.  The packed guid is
  specified by its mark byte and its nonzero bytes, and is a second codec of the buffer.
\<close>

section \<open>The packed form of a guid\<close>

text \<open>Bit \<open>k + i\<close> of the mark says that byte \<open>i\<close> is not zero.\<close>

fun marks :: "nat \<Rightarrow> bytes \<Rightarrow> uint8" where
  "marks k [] = 0"
| "marks k (b # bs) = (if b \<noteq> 0 then push_bit k 1 else 0) OR marks (Suc k) bs"

definition guid_bytes :: "uint64 \<Rightarrow> bytes" where
  "guid_bytes guid = marks 0 (le_bytes guid) # filter (\<lambda>b. b \<noteq> 0) (le_bytes guid)"

lemma bit_marks:
  "k + length bs \<le> 8 \<Longrightarrow> bit (marks k bs) j \<longleftrightarrow> k \<le> j \<and> j < k + length bs \<and> bs ! (j - k) \<noteq> 0"
proof (induction bs arbitrary: k)
  case (Cons b bs)
  have "bit (if b \<noteq> 0 then push_bit k 1 else 0 :: uint8) j \<longleftrightarrow> j = k \<and> b \<noteq> 0"
    using Cons.prems by (auto simp: bit_exp_iff)
  moreover have "bit (marks (Suc k) bs) j \<longleftrightarrow> Suc k \<le> j \<and> j < Suc k + length bs \<and> bs ! (j - Suc k) \<noteq> 0"
    by (rule Cons.IH) (use Cons.prems in simp)
  ultimately show ?case
    by (cases "j \<le> k") (auto simp: bit_or_iff nth_Cons')
qed simp

lemma marks_zeros [simp]: "marks k (replicate n 0) = 0"
  by (induction n arbitrary: k) auto

lemma nat_le_zero [simp]: "nat_le n 0 = replicate n 0"
  by (induction n) auto

lemma low_byte:
  fixes guid :: uint64
  shows "unat (guid AND 0xFF) = unat guid mod 256"
    and "ucast (guid AND 0xFF) = (word_of_nat (unat guid mod 256) :: uint8)"
proof -
  have m: "(0xFF :: uint64) = mask 8" by (simp add: mask_eq_exp_minus_1)
  show *: "unat (guid AND 0xFF) = unat guid mod 256"
    by (simp add: unat_and_mask [OF m])
  show "ucast (guid AND 0xFF) = (word_of_nat (unat guid mod 256) :: uint8)"
    by (rule word_unat_eq_iff [THEN iffD2]) (simp add: unat_ucast * unat_of_nat)
qed

lemma pack_guid_loop_eq:
  assumes "k + n \<le> 8" "unat guid < 256 ^ n" "length out \<le> k"
  shows "pack_guid_loop (word_of_nat k) guid mark out =
    Inr (mark OR marks k (nat_le n (unat guid)), out @ filter (\<lambda>b. b \<noteq> 0) (nat_le n (unat guid)))"
  using assms
proof (induction n arbitrary: k guid mark out)
  case 0
  then have "guid = 0" by (simp add: unat_eq_zero)
  then show ?case by (subst pack_guid_loop.simps) simp
next
  case (Suc n)
  show ?case
  proof (cases "guid = 0")
    case True
    have "marks k (nat_le (Suc n) 0) = 0" "filter (\<lambda>b. b \<noteq> 0) (nat_le (Suc n) 0) = []"
      by (simp_all only: nat_le_zero marks_zeros filter_replicate) simp
    then show ?thesis using True by (subst pack_guid_loop.simps) (simp del: nat_le.simps)
  next
    case False
    let ?g = "drop_bit 8 guid" and ?d = "word_of_nat (unat guid mod 256) :: uint8"
    have g: "unat ?g = unat guid div 256" by (simp add: unat_drop_bit)
    have lim: "unat ?g < 256 ^ n" using Suc.prems(2) by (simp add: g div_less_iff_less_mult mult.commute)
    have i: "word_of_nat k + 1 = (word_of_nat (Suc k) :: uint8)" "unat (word_of_nat k :: uint8) = k"
      using Suc.prems(1) by (simp_all add: unat_of_nat)
    have z: "guid AND 0xFF = 0 \<longleftrightarrow> ?d = 0"
      by (simp add: word_unat_eq_iff low_byte(1) unat_of_nat)
    have IH: "pack_guid_loop (word_of_nat (Suc k)) ?g m out' =
        Inr (m OR marks (Suc k) (nat_le n (unat guid div 256)),
             out' @ filter (\<lambda>b. b \<noteq> 0) (nat_le n (unat guid div 256)))"
      if "length out' \<le> Suc k" for m out'
      using Suc.IH [of "Suc k" ?g out' m] Suc.prems(1) lim that by (simp only: g)
    show ?thesis
      using False Suc.prems IH [of out mark] IH [of "out @ [?d]" "mark OR push_bit k 1"]
      by (subst pack_guid_loop.simps) (simp add: i z low_byte(2) or.assoc del: of_nat_Suc)
  qed
qed

lemma appendPackGUID_eq: "appendPackGUID guid b = append_bytes (guid_bytes guid) b"
proof -
  have "unat guid < 256 ^ 8" using unat_less [of guid] by simp
  from pack_guid_loop_eq [of 0 8 guid "[]" 0, OF _ this] show ?thesis
    by (simp add: appendPackGUID_def guid_bytes_def le_bytes_def del: nat_le.simps)
qed

lemma length_guid_bytes: "1 \<le> length (guid_bytes guid)" "length (guid_bytes guid) \<le> 9"
  using length_filter_le [of "\<lambda>b. b \<noteq> 0" "le_bytes guid"] by (simp_all add: guid_bytes_def)

section \<open>Reading it back\<close>

lemma le_word_snoc:
  assumes "length bs < 8"
  shows "le_word bs OR push_bit (length bs * 8) (ucast (b :: uint8)) = (le_word (bs @ [b]) :: uint64)"
proof -
  let ?n = "length bs"
  have p: "(2 :: nat) ^ (?n * 8) = 256 ^ ?n" by (simp add: power_mult mult.commute [of _ 8])
  have "(256 :: nat) ^ Suc ?n \<le> 256 ^ 8" by (rule power_increasing) (use assms in auto)
  then have lim: "256 * 256 ^ ?n \<le> (2 :: nat) ^ 64" by simp
  have u: "unat b * 256 ^ ?n < 2 ^ 64"
    by (rule less_le_trans [OF mult_strict_right_mono lim]) simp_all
  have v: "unat (le_word bs :: uint64) = le_nat bs"
    using le_nat_bound [of bs] lim by (simp add: le_word_def unat_of_nat)
  have w: "le_nat bs + 256 ^ ?n * unat b < 2 ^ 64"
    using le_nat_bound [of "bs @ [b]"] lim by (simp add: le_nat_append)
  have ub: "unat (ucast b :: uint64) = unat b"
    using unat_byte_less [of b] by (simp add: unat_ucast del: unat_byte_less)
  have "unat (le_word bs OR push_bit (?n * 8) (ucast b) :: uint64) = le_nat bs OR unat b * 256 ^ ?n"
    using u by (simp add: unat_or v unat_push_bit ub p)
  also have "\<dots> = le_nat bs + unat b * 256 ^ ?n"
    by (rule or_add_nat [of _ "?n * 8"]) (simp_all add: p le_nat_bound)
  also have "\<dots> = unat (le_word (bs @ [b]) :: uint64)"
    using w by (simp only: le_word_def unat_of_nat) (simp add: le_nat_append mult.commute)
  finally show ?thesis by (simp only: word_unat_eq_iff)
qed

lemma read_guid_loop_eq:
  assumes "length done + length rest = 8"
    and "\<And>i. i < length rest \<Longrightarrow> bit mark (length done + i) \<longleftrightarrow> rest ! i \<noteq> 0"
    and "bb_storage b = pre @ filter (\<lambda>x. x \<noteq> 0) rest @ post" "bb_rpos b = length pre"
    and "bb_size b < size_mod"
  shows "read_guid_loop e (length done) mark (le_word done) b =
    Inr (le_word (done @ rest), b\<lparr>bb_rpos := length pre + length (filter (\<lambda>x. x \<noteq> 0) rest)\<rparr>)"
  using assms
proof (induction rest arbitrary: "done" pre b)
  case Nil
  then show ?case by (subst read_guid_loop.simps) simp
next
  case (Cons c rest)
  have len: "length done < 8" using Cons.prems(1) by simp
  have mk: "mark AND push_bit (length done) 1 \<noteq> 0 \<longleftrightarrow> c \<noteq> 0"
    using Cons.prems(2) [of 0] by (simp only: bit_iff_and_push_bit_not_eq_0 [symmetric]) simp
  have bits: "bit mark (length (done @ [c]) + i) \<longleftrightarrow> rest ! i \<noteq> 0" if "i < length rest" for i
    using Cons.prems(2) [of "Suc i"] that by simp
  show ?case
  proof (cases "c = 0")
    case True
    then have "le_word (done @ [c]) = (le_word done :: uint64)" by (simp add: le_word_def le_nat_append)
    moreover have "read_guid_loop e (length (done @ [c])) mark (le_word (done @ [c])) b =
      Inr (le_word ((done @ [c]) @ rest), b\<lparr>bb_rpos := length pre + length (filter (\<lambda>x. x \<noteq> 0) rest)\<rparr>)"
      by (rule Cons.IH) (use True Cons.prems bits in auto)
    ultimately show ?thesis
      using True len mk by (subst read_guid_loop.simps) simp
  next
    case False
    let ?b = "b\<lparr>bb_rpos := length pre + 1\<rparr>"
    have st: "bb_storage b = pre @ c # filter (\<lambda>x. x \<noteq> 0) rest @ post" using False Cons.prems(3) by simp
    then have sz: "length pre + 1 \<le> bb_size b" by (simp add: bb_size_def)
    have r: "read_val e b = Inr (c, ?b)" by (rule read_byte [OF st Cons.prems(4,5)])
    have "read_guid_loop e (length (done @ [c])) mark (le_word (done @ [c])) ?b =
      Inr (le_word ((done @ [c]) @ rest),
        ?b\<lparr>bb_rpos := length (pre @ [c]) + length (filter (\<lambda>x. x \<noteq> 0) rest)\<rparr>)"
      by (rule Cons.IH) (use st Cons.prems bits in \<open>auto simp: bb_size_def\<close>)
    then show ?thesis
      using False len mk sz Cons.prems(4,5) r
      by (subst read_guid_loop.simps) (simp add: le_word_snoc wrap_simps)
  qed
qed

interpretation guids: codec appendPackGUID "\<lambda>_ :: unit. readPackGUID e" guid_bytes "\<lambda>_. ()" "\<lambda>_. True"
  for e
proof (unfold_locales, goal_cases)
  case (1 b guid)
  then show ?case
    using append_bytes_composing [of b "guid_bytes guid"] by (simp add: appendPackGUID_eq guid_bytes_def)
next
  case (2 guid b pre post)
  let ?bs = "le_bytes guid" and ?b = "b\<lparr>bb_rpos := length pre + 1\<rparr>"
  have st: "bb_storage b = pre @ marks 0 ?bs # filter (\<lambda>x. x \<noteq> 0) ?bs @ post"
    using 2 by (simp add: guid_bytes_def)
  then have sz: "length pre + 1 \<le> bb_size b" by (simp add: bb_size_def)
  have r: "read_val e b = Inr (marks 0 ?bs, ?b)" using st 2 by (intro read_byte) auto
  have "read_guid_loop e (length ([] :: bytes)) (marks 0 ?bs) (le_word []) ?b =
      Inr (le_word ([] @ ?bs), ?b\<lparr>bb_rpos := length (pre @ [marks 0 ?bs]) + length (filter (\<lambda>x. x \<noteq> 0) ?bs)\<rparr>)"
    by (rule read_guid_loop_eq) (use st 2 in \<open>auto simp: bb_size_def bit_marks\<close>)
  then have "read_guid_loop e 0 (marks 0 ?bs) 0 ?b =
      Inr (guid, b\<lparr>bb_rpos := length pre + length (guid_bytes guid)\<rparr>)"
    by (simp add: le_word_le_bytes guid_bytes_def) (simp add: le_word_def)
  then show ?case
    using r sz 2 by (simp add: readPackGUID_def wrap_simps)
qed

section \<open>Packed times\<close>

text \<open>A broken-down time with every field in the range \<open>struct tm\<close> gives it, from the year 2000.\<close>

definition tm_ok :: "tm \<Rightarrow> bool" where
  "tm_ok lt \<longleftrightarrow> 0 \<le> tm_min lt \<and> tm_min lt < 60 \<and> 0 \<le> tm_hour lt \<and> tm_hour lt < 24 \<and>
     1 \<le> tm_mday lt \<and> tm_mday lt \<le> 31 \<and> 0 \<le> tm_mon lt \<and> tm_mon lt < 12 \<and>
     0 \<le> tm_wday lt \<and> tm_wday lt < 7 \<and> 100 \<le> tm_year lt \<and> tm_year lt < 356"

text \<open>The value as mixed-radix digits, lowest field first.\<close>

definition time_digits :: "tm \<Rightarrow> nat" where
  "time_digits lt =
     nat (tm_min lt) + 64 * (nat (tm_hour lt) + 32 * (nat (tm_wday lt) + 8 * (nat (tm_mday lt - 1) +
       64 * (nat (tm_mon lt) + 16 * nat (tm_year lt - 100)))))"

lemma unat_shifted:
  assumes "0 \<le> z" "z < 2 ^ m" "m + k \<le> 32"
  shows "unat (push_bit k (word_of_int z) :: uint32) = 2 ^ k * nat z"
proof -
  have z: "nat z < 2 ^ m" using assms by (simp add: nat_less_iff)
  have "(2 :: nat) ^ m \<le> 2 ^ 32" by (rule power_increasing) (use assms in auto)
  then have "nat z < 2 ^ 32" using z by (rule less_le_trans [rotated])
  then have "unat (word_of_int z :: uint32) = nat z"
    using assms(1) by (simp add: unsigned_of_int take_bit_eq_mod nat_mod_distrib del: nat_less_numeral_power_cancel_iff)
  moreover have "nat z * 2 ^ k < 2 ^ 32"
  proof (rule less_le_trans)
    show "nat z * 2 ^ k < 2 ^ m * 2 ^ k" using z by simp
    show "(2 :: nat) ^ m * 2 ^ k \<le> 2 ^ 32"
      by (simp only: power_add [symmetric]) (rule power_increasing, use assms in auto)
  qed
  ultimately show ?thesis by (simp add: unat_push_bit mult.commute)
qed

lemma or_digit: "(x :: nat) < 2 ^ k \<Longrightarrow> 2 ^ k * y OR x = x + 2 ^ k * y"
  by (subst or.commute) (rule or_add_nat, simp, rule dvd_triv_left)

lemma unat_pack_time:
  assumes "tm_ok lt"
  shows "unat (pack_time lt) = time_digits lt"
proof -
  let ?mi = "nat (tm_min lt)" and ?h = "nat (tm_hour lt)" and ?w = "nat (tm_wday lt)"
  let ?d = "nat (tm_mday lt - 1)" and ?mo = "nat (tm_mon lt)" and ?y = "nat (tm_year lt - 100)"
  have lim: "?mi < 64" "?h < 32" "?w < 8" "?d < 64" "?mo < 16"
    using assms by (auto simp: tm_ok_def)
  have fields: "unat (push_bit 24 (word_of_int (tm_year lt - 100)) :: uint32) = 2 ^ 24 * ?y"
    "unat (push_bit 20 (word_of_int (tm_mon lt)) :: uint32) = 2 ^ 20 * ?mo"
    "unat (push_bit 14 (word_of_int (tm_mday lt - 1)) :: uint32) = 2 ^ 14 * ?d"
    "unat (push_bit 11 (word_of_int (tm_wday lt)) :: uint32) = 2 ^ 11 * ?w"
    "unat (push_bit 6 (word_of_int (tm_hour lt)) :: uint32) = 2 ^ 6 * ?h"
    "unat (word_of_int (tm_min lt) :: uint32) = ?mi"
    subgoal by (rule unat_shifted [of _ 8]) (use assms in \<open>auto simp: tm_ok_def\<close>)
    subgoal by (rule unat_shifted [of _ 4]) (use assms in \<open>auto simp: tm_ok_def\<close>)
    subgoal by (rule unat_shifted [of _ 6]) (use assms in \<open>auto simp: tm_ok_def\<close>)
    subgoal by (rule unat_shifted [of _ 3]) (use assms in \<open>auto simp: tm_ok_def\<close>)
    subgoal by (rule unat_shifted [of _ 5]) (use assms in \<open>auto simp: tm_ok_def\<close>)
    subgoal using unat_shifted [of _ 6 0] assms by (simp add: tm_ok_def)
    done
  have "unat (pack_time lt) =
      2 ^ 24 * ?y OR (2 ^ 20 * ?mo OR (2 ^ 14 * ?d OR (2 ^ 11 * ?w OR (2 ^ 6 * ?h OR ?mi))))"
    by (simp only: pack_time_def unat_or fields or.assoc)
  also have "2 ^ 6 * ?h OR ?mi = ?mi + 2 ^ 6 * ?h"
    using lim by (subst or_digit) simp_all
  also have "2 ^ 11 * ?w OR \<dots> = ?mi + 2 ^ 6 * ?h + 2 ^ 11 * ?w"
    using lim by (subst or_digit) simp_all
  also have "2 ^ 14 * ?d OR \<dots> = ?mi + 2 ^ 6 * ?h + 2 ^ 11 * ?w + 2 ^ 14 * ?d"
    using lim by (subst or_digit) simp_all
  also have "2 ^ 20 * ?mo OR \<dots> = ?mi + 2 ^ 6 * ?h + 2 ^ 11 * ?w + 2 ^ 14 * ?d + 2 ^ 20 * ?mo"
    using lim by (subst or_digit) simp_all
  also have "2 ^ 24 * ?y OR \<dots> =
      ?mi + 2 ^ 6 * ?h + 2 ^ 11 * ?w + 2 ^ 14 * ?d + 2 ^ 20 * ?mo + 2 ^ 24 * ?y"
    using lim by (subst or_digit) simp_all
  also have "\<dots> = time_digits lt" by (simp add: time_digits_def)
  finally show ?thesis .
qed

lemma digit_div: "(x :: nat) < k \<Longrightarrow> (x + k * y) div k = y" "x < k \<Longrightarrow> (x + k * y) mod k = x"
  by simp_all

lemma unpack_pack_time:
  assumes "tm_ok lt"
  shows "unpack_time (pack_time lt) = tm_zero\<lparr>tm_min := tm_min lt, tm_hour := tm_hour lt,
    tm_mday := tm_mday lt, tm_mon := tm_mon lt, tm_year := (tm_year lt - 100) mod 32 + 100\<rparr>"
proof -
  have m: "(0x3F :: uint32) = mask 6" "(0x1F :: uint32) = mask 5" "(0xF :: uint32) = mask 4"
    by (simp_all add: mask_eq_exp_minus_1)
  have fld: "uint (drop_bit k (pack_time lt) AND mask n) = int (time_digits lt div 2 ^ k mod 2 ^ n)" for k n
    by (simp only: uint_nat unat_and_mask [OF refl] unat_drop_bit unat_pack_time [OF assms])
  have lim: "nat (tm_min lt) < 64" "nat (tm_hour lt) < 32" "nat (tm_wday lt) < 8"
      "nat (tm_mday lt - 1) < 64" "nat (tm_mon lt) < 16"
    using assms by (auto simp: tm_ok_def)
  have div: "n div 2 ^ 14 = n div 64 div 32 div 8" "n div 2 ^ 20 = n div 64 div 32 div 8 div 64"
    "n div 2 ^ 24 = n div 64 div 32 div 8 div 64 div 16" for n :: nat
    by (simp_all add: div_mult2_eq [symmetric])
  have pow: "(2 :: nat) ^ 4 = 16" "(2 :: nat) ^ 5 = 32" "(2 :: nat) ^ 6 = 64" by simp_all
  have "time_digits lt mod 64 = nat (tm_min lt)" unfolding time_digits_def by (rule digit_div) (rule lim)
  then have "uint (pack_time lt AND 0x3F) = tm_min lt"
    using assms fld [of 0 6] by (simp add: m tm_ok_def)
  moreover have "uint (drop_bit 6 (pack_time lt) AND 0x1F) = tm_hour lt"
    using assms lim by (simp only: m fld pow time_digits_def digit_div) (simp add: tm_ok_def)
  moreover have "uint (drop_bit 14 (pack_time lt) AND 0x3F) + 1 = tm_mday lt"
    using assms lim by (simp only: m fld div pow time_digits_def digit_div) (simp add: tm_ok_def)
  moreover have "uint (drop_bit 20 (pack_time lt) AND 0xF) = tm_mon lt"
    using assms lim by (simp only: m fld div pow time_digits_def digit_div) (simp add: tm_ok_def)
  moreover have "uint (drop_bit 24 (pack_time lt) AND 0x1F) = (tm_year lt - 100) mod 32"
    using assms lim by (simp only: m fld div pow time_digits_def digit_div) (simp add: tm_ok_def zmod_int)
  ultimately show ?thesis by (simp add: unpack_time_def tm_zero_def)
qed

section \<open>Every operation is memory safe\<close>

lemma safe_put_value: "bb_inv b \<Longrightarrow> bb_op_ok (OpPut v) \<Longrightarrow> safe (put_value e v b)"
  by (cases v) (simp_all add: safe_append_val safe_put_string)

lemma safe_bb_step:
  assumes "bb_inv b" "bb_op_ok c"
  shows "safe (bb_step e c b)"
proof (cases c)
  case (OpPut v)
  with assms safe_put_value [of b v e] show ?thesis by simp
next
  case (OpGet t)
  with reads_get_value [OF assms(1)] show ?thesis by (simp add: reads_def)
next
  case (OpRead len)
  with assms safe_read_bytes [of b len] show ?thesis by (simp add: reads_def)
next
  case OpGuid
  with reads_readPackGUID [OF assms(1)] show ?thesis by (simp add: reads_def)
next
  case (OpAppendGuid g)
  with assms length_guid_bytes [of g] show ?thesis by (simp add: appendPackGUID_eq safe_append_bytes)
next
  case (OpPutAt pos src)
  with assms show ?thesis by (auto simp: put_bytes_def sz_add_def size_mod_def bb_inv_def bb_size_def)
next
  case (OpSkip n)
  with assms show ?thesis by (auto simp: read_skip_def)
qed (use assms in \<open>auto simp: safe_append_bytes safe_append_buffer clear_def rfinish_def resize_def
    reserve_def shrink_to_fit_def bb_inv_def bb_size_def\<close>)

lemma safe_bb_run: "bb_inv b \<Longrightarrow> list_all bb_op_ok cs \<Longrightarrow> safe (bb_run e cs b)"
  by (induction cs arbitrary: b) (auto intro!: safe_rbind intro: safe_bb_step)

section \<open>Properties of the packet buffer\<close>

text \<open>
  C5: the shift operators are a faithful serialisation.  Any sequence of values a reader
  accepts (finite floating point numbers, UTF-8 strings without an embedded zero), written
  with \<open><<\<close> to a buffer that is being composed, is read back by the matching sequence of
  \<open>>>\<close>, on hosts of either byte order, and reading ends exactly at the end of the buffer.
\<close>
theorem shift_operators_round_trip:
  assumes "composing b" "bb_rpos b = bb_size b" "list_all readable vs"
    and "bb_size b + length (concat (map value_bytes vs)) \<le> 10000000"
  shows "\<exists>b' b''. put_all (put_value e) vs b = Inr b' \<and>
    get_all (get_value e) (map value_type vs) b' = Inr (vs, b'') \<and>
    bb_rpos b'' = bb_size b'' \<and> bb_storage b'' = bb_storage b'"
  using assms by (rule vals.round_trip)

lemma witness_values_readable:
  "list_all readable [VBool True, VU16 0x1234, VI64 (- 5), VFloat 0x3F800000, VString [0x68, 0xC3, 0xA9]]"
  by code_simp

theorem shift_operators_round_trip_witness:
  "\<exists>b' b''. put_all (put_value BigEndian)
      [VBool True, VU16 0x1234, VI64 (- 5), VFloat 0x3F800000, VString [0x68, 0xC3, 0xA9]]
      ByteBuffer_default = Inr b' \<and>
    get_all (get_value BigEndian) [TBool, TU16, TI64, TFloat, TString] b' =
      Inr ([VBool True, VU16 0x1234, VI64 (- 5), VFloat 0x3F800000, VString [0x68, 0xC3, 0xA9]], b'') \<and>
    bb_rpos b'' = bb_size b'' \<and> bb_storage b'' = bb_storage b'"
  using shift_operators_round_trip [OF composing_reserve(2) _ witness_values_readable, of BigEndian]
  by (simp add: ByteBuffer_default_def bb_size_def)

text \<open>
  Packed guids round trip.  A sequence of guids appended in packed form is read back
  unchanged, each takes between 1 and 9 bytes, and a guid takes one byte more than it has
  nonzero bytes.
\<close>
theorem packed_guid_round_trip:
  assumes "composing b" "bb_rpos b = bb_size b" "bb_size b + 9 * length gs \<le> 10000000"
  shows "\<exists>b' b''. put_all appendPackGUID gs b = Inr b' \<and>
    get_all (\<lambda>_. readPackGUID e) (map (\<lambda>_. ()) gs) b' = Inr (gs, b'') \<and> bb_rpos b'' = bb_size b' \<and>
    bb_size b' = bb_size b + (\<Sum>g\<leftarrow>gs. 1 + length (filter (\<lambda>x. x \<noteq> 0) (le_bytes g)))"
proof -
  have len: "length (concat (map guid_bytes gs)) = (\<Sum>g\<leftarrow>gs. 1 + length (filter (\<lambda>x. x \<noteq> 0) (le_bytes g)))"
    by (simp add: length_concat guid_bytes_def comp_def)
  have "length (concat (map guid_bytes gs)) \<le> 9 * length gs"
    using length_guid_bytes(2) by (induction gs) (auto intro: add_mono)
  then have lim: "bb_size b + length (concat (map guid_bytes gs)) \<le> 10000000" using assms(3) by simp
  from guids.put_all_enc [OF assms(1) lim] guids.round_trip [OF assms(1,2) _ lim, of e] show ?thesis
    by (auto simp: bb_size_def len list_all_iff)
qed

lemma witness_guid_bytes:
  "filter (\<lambda>x. x \<noteq> 0) (le_bytes (0 :: uint64)) = []"
  "filter (\<lambda>x. x \<noteq> 0) (le_bytes (0x0100000000000203 :: uint64)) = [3, 2, 1]"
  by (simp_all add: le_bytes_def nat_le_numeral)

theorem packed_guid_round_trip_witness:
  "\<exists>b' b''. put_all appendPackGUID [0, 0x0100000000000203] (ByteBuffer_reserve 4) = Inr b' \<and>
    get_all (\<lambda>_. readPackGUID LittleEndian) [(), ()] b' = Inr ([0, 0x0100000000000203], b'') \<and>
    bb_rpos b'' = bb_size b' \<and> bb_size b' = 5"
proof -
  have five: "Suc (Suc (Suc (Suc (Suc 0)))) = 5" by simp
  show ?thesis
    using packed_guid_round_trip [OF composing_reserve(1), of 4 "[0, 0x0100000000000203]" LittleEndian]
    by (simp add: ByteBuffer_reserve_def bb_size_def witness_guid_bytes five)
qed



text \<open>
  \<open>read<T>\<close> on a well-formed buffer: it returns the little-endian value of the next
  \<open>sizeof(T)\<close> bytes and moves past them when that many bytes are left, and otherwise throws
  the position exception with the position, the size asked for and the buffer size.
\<close>
theorem read_uint32_spec:
  assumes "bb_inv b"
  shows "(read_val e b :: (uint32 \<times> byte_buffer) result) =
    (if bb_rpos b + 4 \<le> bb_size b
     then Inr (word_of_nat (le_nat (slice (bb_rpos b) 4 (bb_storage b))), b\<lparr>bb_rpos := bb_rpos b + 4\<rparr>)
     else Inl (BufferPosition False (bb_rpos b) 4 (bb_size b)))"
  using read_val_cases [where 'a = 32, OF assms] by (simp add: le_word_def)

theorem read_uint32_spec_witness:
  "(read_val BigEndian \<lparr>bb_rpos = 1, bb_wpos = 0, bb_storage = [9, 1, 2, 0, 0], bb_capacity = 8\<rparr>
     :: (uint32 \<times> byte_buffer) result) =
   Inr (513, \<lparr>bb_rpos = 5, bb_wpos = 0, bb_storage = [9, 1, 2, 0, 0], bb_capacity = 8\<rparr>)"
  using read_uint32_spec [of "\<lparr>bb_rpos = 1, bb_wpos = 0, bb_storage = [9, 1, 2, 0, 0], bb_capacity = 8\<rparr>"
      BigEndian]
  by (simp add: bb_inv_def bb_size_def slice_def)

text \<open>
  Packed dates.  A date packed by \<open>AppendPackedTime\<close> and unpacked by \<open>ReadPackedTime\<close>
  keeps its minute, hour, day and month, while the year is kept modulo 32 only: the years
  2000 to 2031 round trip, and 2032 is read as 2000.
\<close>
theorem packed_time_round_trip:
  assumes "composing b" "bb_rpos b = bb_size b" "bb_size b + 4 \<le> 10000000" "tm_ok (time_breakdown t)"
  shows "\<exists>b' b''. AppendPackedTime e time_breakdown t b = Inr b' \<and>
    ReadPackedTime e mktime b' =
      Inr (word_of_int (mktime (tm_zero\<lparr>tm_min := tm_min (time_breakdown t),
        tm_hour := tm_hour (time_breakdown t), tm_mday := tm_mday (time_breakdown t),
        tm_mon := tm_mon (time_breakdown t),
        tm_year := (tm_year (time_breakdown t) - 100) mod 32 + 100\<rparr>)), b'') \<and>
    bb_rpos b'' = bb_size b'"
proof -
  let ?p = "pack_time (time_breakdown t)"
  from append_val_composing [of b e ?p] assms obtain b' where
    b': "append_val e ?p b = Inr b'" "composing b'" "bb_storage b' = bb_storage b @ le_bytes ?p"
      "bb_rpos b' = bb_rpos b" by auto
  have "read_val e b' = Inr (?p, b'\<lparr>bb_rpos := length (bb_storage b) + sizeof TYPE(32)\<rparr>)"
    using b' assms(2) by (intro read_val_slice [where post = "[]"])
      (auto simp: bb_size_def composing_def dest: bb_size_less)
  then show ?thesis
    using b' assms(4) by (auto simp: AppendPackedTime_def ReadPackedTime_def unpack_pack_time bb_size_def)
qed

definition new_year_2032 :: "int \<Rightarrow> tm" where
  "new_year_2032 t = tm_zero\<lparr>tm_mday := 1, tm_year := 132, tm_wday := 4\<rparr>"

theorem packed_time_round_trip_witness:
  "\<exists>b' b''. AppendPackedTime LittleEndian new_year_2032 0 ByteBuffer_default = Inr b' \<and>
    ReadPackedTime LittleEndian tm_year b' = Inr (100, b'') \<and> bb_rpos b'' = bb_size b'"
  using packed_time_round_trip [OF composing_reserve(2), of new_year_2032 0 LittleEndian tm_year]
  by (simp add: new_year_2032_def tm_ok_def tm_zero_def ByteBuffer_default_def bb_size_def)

end
