(* ===== verification/Text.thy ===== *)
theory Text
  imports Utf8
begin

text \<open>
  The string utilities of \<^verbatim>\<open>src/common/Utilities\<close>: \<^verbatim>\<open>Util.cpp\<close>, \<^verbatim>\<open>StringConvert.h\<close>,
  \<^verbatim>\<open>StringFormat.cpp\<close> (trimming) and \<^verbatim>\<open>Tokenize.cpp\<close>.  A string is a list of characters in the
  classic locale; \<open>from_chars\<close>, \<open>to_chars\<close> and \<open>strtoul\<close> are the standard library's, on the
  cases the code uses.  Lengths stay below \<open>2 ^ 31\<close>, where the loops' \<open>int32\<close> counters are exact.
\<close>

section \<open>Characters\<close>

definition code :: "char \<Rightarrow> nat" where
  "code c = of_char c"

definition tolower :: "char \<Rightarrow> char" where
  "tolower c = (if 65 \<le> code c \<and> code c \<le> 90 then char_of (code c + 32) else c)"

definition isspace :: "char \<Rightarrow> bool" where
  "isspace c \<longleftrightarrow> code c = 32 \<or> 9 \<le> code c \<and> code c \<le> 13"

definition StringEqualI :: "string \<Rightarrow> string \<Rightarrow> bool" where
  "StringEqualI a b \<longleftrightarrow> list_all2 (\<lambda>c1 c2. tolower c1 = tolower c2) a b"

definition GetLowerString :: "string \<Rightarrow> string" where
  "GetLowerString str = map tolower str"

section \<open>Trimming\<close>

text \<open>The two loops of \<open>Trim\<close>, over the characters from the front and from the back.\<close>

definition Trim :: "string \<Rightarrow> string" where
  "Trim s =
     (let first = length (takeWhile isspace s)
      in if first = length s then []
         else let lst = length s - length (takeWhile isspace (rev s))
              in if first \<noteq> 0 \<or> lst \<noteq> length s then take (lst - first) (drop first s) else s)"

fun trim_pos :: "string \<Rightarrow> nat \<Rightarrow> nat" where
  "trim_pos str 0 = 0"
| "trim_pos str (Suc n) = (if isspace (str ! n) then trim_pos str n else Suc n)"

definition TrimRightInPlace :: "string \<Rightarrow> string" where
  "TrimRightInPlace str = take (trim_pos str (length str)) str"

section \<open>Tokens\<close>

text \<open>\<open>string_view::find\<close> from a position on.\<close>

definition find_char :: "char \<Rightarrow> string \<Rightarrow> nat \<Rightarrow> nat option" where
  "find_char sep str start =
     (let n = start + length (takeWhile (\<lambda>c. c \<noteq> sep) (drop start str))
      in if n < length str then Some n else None)"

lemma find_char_bounds: "find_char sep str start = Some n \<Longrightarrow> start \<le> n \<and> n < length str"
  by (auto simp: find_char_def Let_def split: if_splits)

function tokenize_loop :: "string \<Rightarrow> char \<Rightarrow> bool \<Rightarrow> nat \<Rightarrow> string list \<Rightarrow> nat \<times> string list" where
  "tokenize_loop str sep keepEmpty start tokens =
     (case find_char sep str start of
        None \<Rightarrow> (start, tokens)
      | Some n \<Rightarrow> tokenize_loop str sep keepEmpty (n + 1)
          (if keepEmpty \<or> start < n then tokens @ [slice start (n - start) str] else tokens))"
  by pat_completeness auto
termination
  by (relation "measure (\<lambda>(str, _, _, start, _). length str - start)") (auto dest: find_char_bounds)

declare tokenize_loop.simps [simp del]

definition Tokenize :: "string \<Rightarrow> char \<Rightarrow> bool \<Rightarrow> string list" where
  "Tokenize str sep keepEmpty =
     (let (start, tokens) = tokenize_loop str sep keepEmpty 0 []
      in if keepEmpty \<or> start < length str then tokens @ [drop start str] else tokens)"

section \<open>Numbers\<close>

definition digit_value :: "char \<Rightarrow> nat option" where
  "digit_value c =
     (if 48 \<le> code c \<and> code c \<le> 57 then Some (code c - 48)
      else if 97 \<le> code c \<and> code c \<le> 122 then Some (code c - 87)
      else if 65 \<le> code c \<and> code c \<le> 90 then Some (code c - 55) else None)"

definition is_digit :: "nat \<Rightarrow> char \<Rightarrow> bool" where
  "is_digit base c = (case digit_value c of Some d \<Rightarrow> d < base | None \<Rightarrow> False)"

definition digits_value :: "nat \<Rightarrow> string \<Rightarrow> nat" where
  "digits_value base ds = foldl (\<lambda>v c. v * base + (case digit_value c of Some d \<Rightarrow> d | None \<Rightarrow> 0)) 0 ds"

text \<open>An integral type: whether it is signed, and its width.\<close>

record int_type =
  it_signed :: bool
  it_bits :: nat

definition in_range :: "int_type \<Rightarrow> int \<Rightarrow> bool" where
  "in_range t v \<longleftrightarrow>
     (if it_signed t then - (2 ^ (it_bits t - 1)) \<le> v \<and> v < 2 ^ (it_bits t - 1) else 0 \<le> v \<and> v < 2 ^ it_bits t)"

datatype from_chars_ec = FcOk int | FcInvalid | FcOutOfRange

definition from_chars :: "int_type \<Rightarrow> nat \<Rightarrow> string \<Rightarrow> nat \<times> from_chars_ec" where
  "from_chars t base s =
     (let neg = (it_signed t \<and> s \<noteq> [] \<and> hd s = CHR ''-'');
          ds = takeWhile (is_digit base) (if neg then tl s else s);
          v = (if neg then - int (digits_value base ds) else int (digits_value base ds))
      in if ds = [] then (0, FcInvalid)
         else (length ds + (if neg then 1 else 0), if in_range t v then FcOk v else FcOutOfRange))"

definition For_int_FromString :: "int_type \<Rightarrow> nat \<Rightarrow> string \<Rightarrow> int option" where
  "For_int_FromString t base str =
     (let (base', str') =
          (if base = 0 then
             (if StringEqualI (take 2 str) ''0x'' then (16, drop 2 str)
              else if StringEqualI (take 2 str) ''0b'' then (2, drop 2 str) else (10, str))
           else (base, str))
      in if base = 0 \<and> str' = [] then None
         else case from_chars t base' str' of
                (n, FcOk v) \<Rightarrow> if n = length str' then Some v else None
              | _ \<Rightarrow> None)"

definition digit_char :: "nat \<Rightarrow> char" where
  "digit_char d = char_of (if d < 10 then d + 48 else d + 55)"

fun nat_digits :: "nat \<Rightarrow> string" where
  "nat_digits n = (if n < 10 then [digit_char n] else nat_digits (n div 10) @ [digit_char (n mod 10)])"

declare nat_digits.simps [simp del]

definition to_chars :: "nat \<Rightarrow> int \<Rightarrow> string option" where
  "to_chars room v =
     (let s = (if v < 0 then CHR ''-'' # nat_digits (nat (- v)) else nat_digits (nat v))
      in if length s \<le> room then Some s else None)"

definition For_int_ToString :: "int \<Rightarrow> string result" where
  "For_int_ToString val = (case to_chars 20 val of None \<Rightarrow> Inl AssertionFailed | Some s \<Rightarrow> Inr s)"

definition For_bool_FromString :: "bool \<Rightarrow> string \<Rightarrow> bool option" where
  "For_bool_FromString strict str =
     (if strict then
        (if str = ''1'' then Some True else if str = ''0'' then Some False else None)
      else if str = ''1'' \<or> StringEqualI str ''y'' \<or> StringEqualI str ''on'' \<or> StringEqualI str ''yes'' \<or>
        StringEqualI str ''true'' then Some True
      else if str = ''0'' \<or> StringEqualI str ''n'' \<or> StringEqualI str ''off'' \<or> StringEqualI str ''no'' \<or>
        StringEqualI str ''false'' then Some False
      else None)"

definition For_bool_ToString :: "bool \<Rightarrow> string" where
  "For_bool_ToString val = (if val then ''1'' else ''0'')"

section \<open>Hexadecimal strings\<close>

definition hex_byte :: "uint8 \<Rightarrow> string" where
  "hex_byte b = [digit_char (unat b div 16), digit_char (unat b mod 16)]"

definition ByteArrayToHexStr :: "bytes \<Rightarrow> bool \<Rightarrow> string" where
  "ByteArrayToHexStr bs reverse =
     concat (map (\<lambda>i. hex_byte (bs ! i)) (if reverse then rev [0..<length bs] else [0..<length bs]))"

text \<open>
  \<open>strtoul\<close> with base 16 on a terminated buffer: white space, a sign, the prefix \<open>0x\<close> when a
  digit follows it, then digits; a minus negates in the unsigned type.
\<close>

definition strtoul16 :: "string \<Rightarrow> uint64" where
  "strtoul16 s =
     (let s1 = dropWhile isspace s;
          neg = (s1 \<noteq> [] \<and> hd s1 = CHR ''-'');
          s2 = (if s1 \<noteq> [] \<and> (hd s1 = CHR ''-'' \<or> hd s1 = CHR ''+'') then tl s1 else s1);
          s3 = (if StringEqualI (take 2 s2) ''0x'' \<and> takeWhile (is_digit 16) (drop 2 s2) \<noteq> [] then drop 2 s2 else s2);
          v = word_of_nat (digits_value 16 (takeWhile (is_digit 16) s3))
      in if neg then - v else v)"

definition HexStrToByteArray :: "string \<Rightarrow> nat \<Rightarrow> bool \<Rightarrow> bytes result" where
  "HexStrToByteArray str outlen reverse =
     (if length str \<noteq> 2 * outlen then Inl AssertionFailed
      else Inr (map (\<lambda>i. ucast (strtoul16 [str ! (2 * i), str ! (2 * i + 1)]))
        (if reverse then rev [0..<outlen] else [0..<outlen])))"

definition Utf8toWStr :: "bytes \<Rightarrow> bool \<times> uint16 list" where
  "Utf8toWStr utf8str = (case utf8to16 utf8str [] of Inl _ \<Rightarrow> (False, []) | Inr w \<Rightarrow> (True, w))"

section \<open>Lemmas on digits\<close>

lemma code_char_of [simp]: "n < 256 \<Longrightarrow> code (char_of n) = n"
  by (simp add: code_def)

lemma code_eq_iff: "c = d \<longleftrightarrow> code c = code d"
  by (simp add: code_def)

lemma code_digit_char: "d < 16 \<Longrightarrow> code (digit_char d) = (if d < 10 then d + 48 else d + 55)"
  by (simp add: digit_char_def)

lemma code_literals [simp]:
  "code CHR ''-'' = 45" "code CHR ''+'' = 43" "code CHR ''x'' = 120" "code CHR ''b'' = 98" "code CHR ''0'' = 48"
  by (simp_all add: code_def)

lemma digit_value_char [simp]: "d < 16 \<Longrightarrow> digit_value (digit_char d) = Some d"
  by (auto simp: digit_value_def code_digit_char)

lemma is_digit_char [simp]: "d < base \<Longrightarrow> base \<le> 16 \<Longrightarrow> is_digit base (digit_char d)"
  by (simp add: is_digit_def)

lemma digit_char_plain:
  assumes "d < 16"
  shows "\<not> isspace (digit_char d)" "digit_char d \<noteq> CHR ''-''" "digit_char d \<noteq> CHR ''+''"
    "tolower (digit_char d) \<noteq> tolower CHR ''x''"
    "d < 10 \<Longrightarrow> tolower (digit_char d) \<noteq> tolower CHR ''b''"
  using assms by (auto simp: isspace_def tolower_def code_digit_char code_eq_iff)

lemma digits_value_snoc: "d < 16 \<Longrightarrow> digits_value base (ds @ [digit_char d]) = digits_value base ds * base + d"
  by (simp add: digits_value_def)

lemma digits_value_nat_digits: "digits_value 10 (nat_digits n) = n"
proof (induction n rule: nat_digits.induct)
  case (1 n)
  show ?case
  proof (cases "n < 10")
    case True
    then show ?thesis using digits_value_snoc [of n 10 "[]"] by (simp add: nat_digits.simps [of n]) (simp add: digits_value_def)
  next
    case False
    then show ?thesis using 1 by (simp add: nat_digits.simps [of n] digits_value_snoc)
  qed
qed

lemma nat_digits_set: "c \<in> set (nat_digits n) \<Longrightarrow> \<exists>d<10. c = digit_char d"
proof (induction n rule: nat_digits.induct)
  case (1 n)
  have "\<exists>d<10. digit_char (n mod 10) = digit_char d" by (intro exI [of _ "n mod 10"]) simp
  with 1 show ?case by (cases "n < 10") (auto simp: nat_digits.simps [of n])
qed

lemma nat_digits_not_Nil [simp]: "nat_digits n \<noteq> []"
  by (simp add: nat_digits.simps)

lemma nat_digits_length: "n < 10 ^ k \<Longrightarrow> 0 < k \<Longrightarrow> length (nat_digits n) \<le> k"
proof (induction n arbitrary: k rule: nat_digits.induct)
  case (1 n)
  show ?case
  proof (cases "n < 10")
    case True
    then show ?thesis using 1(3) by (simp add: nat_digits.simps [of n])
  next
    case False
    then obtain k' where k: "k = Suc k'" "0 < k'" using 1(2,3) by (cases k; cases "k - 1") auto
    then have "n div 10 < 10 ^ k'" using 1(2) by (simp add: less_mult_imp_div_less mult.commute)
    then show ?thesis using 1(1) [OF False _ k(2)] False k(1) by (simp add: nat_digits.simps [of n])
  qed
qed

lemma takeWhile_nat_digits [simp]: "takeWhile (is_digit 10) (nat_digits n) = nat_digits n"
  by (rule takeWhile_eq_all_conv [THEN iffD2]) (auto dest: nat_digits_set)

lemma nat_digits_no_prefix:
  "\<not> StringEqualI (take 2 (nat_digits n)) ''0x''" "\<not> StringEqualI (take 2 (nat_digits n)) ''0b''"
  "\<not> StringEqualI (take 2 (CHR ''-'' # nat_digits n)) ''0x''" "\<not> StringEqualI (take 2 (CHR ''-'' # nat_digits n)) ''0b''"
proof -
  have *: "tolower c \<noteq> tolower CHR ''x'' \<and> tolower c \<noteq> tolower CHR ''b''" if "c \<in> set (nat_digits n)" for c
    using nat_digits_set [OF that] digit_char_plain(4,5) by auto
  show "\<not> StringEqualI (take 2 (nat_digits n)) ''0x''" "\<not> StringEqualI (take 2 (nat_digits n)) ''0b''"
    using * by (cases "nat_digits n"; cases "tl (nat_digits n)"; auto simp: StringEqualI_def)+
  show "\<not> StringEqualI (take 2 (CHR ''-'' # nat_digits n)) ''0x''" "\<not> StringEqualI (take 2 (CHR ''-'' # nat_digits n)) ''0b''"
    using * by (cases "nat_digits n"; auto simp: StringEqualI_def)+
qed

text \<open>What \<open>to_chars\<close> prints, \<open>from_chars\<close> reads back to the end.\<close>

lemma from_chars_digits:
  assumes "in_range t v" "s = (if v < 0 then CHR ''-'' # nat_digits (nat (- v)) else nat_digits (nat v))"
  shows "from_chars t 10 s = (length s, FcOk v)"
proof (cases "v < 0")
  case True
  then have "it_signed t" using assms(1) by (auto simp: in_range_def split: if_splits)
  with True assms show ?thesis by (simp add: from_chars_def Let_def digits_value_nat_digits)
next
  case False
  have "hd (nat_digits (nat v)) \<noteq> CHR ''-''"
  proof -
    obtain d where "d < 10" "hd (nat_digits (nat v)) = digit_char d"
      using nat_digits_set [OF hd_in_set [OF nat_digits_not_Nil]] by blast
    then show ?thesis using digit_char_plain(2) [of d] by simp
  qed
  with False assms show ?thesis by (simp add: from_chars_def Let_def digits_value_nat_digits)
qed

lemma to_chars_room:
  assumes "in_range t v" "it_bits t \<le> 64"
  shows "length (if v < 0 then CHR ''-'' # nat_digits (nat (- v)) else nat_digits (nat v)) \<le> 20"
proof (cases "v < 0")
  case True
  then have s: "- (2 ^ (it_bits t - 1)) \<le> v" using assms(1) by (auto simp: in_range_def split: if_splits)
  have "(2 :: int) ^ (it_bits t - 1) \<le> 2 ^ 63" using assms(2) by (intro power_increasing) simp_all
  then have "nat (- v) \<le> 2 ^ 63" using s by simp
  then have "nat (- v) < 10 ^ 19" by simp
  then show ?thesis using nat_digits_length [of "nat (- v)" 19] True by simp
next
  case False
  have p: "(2 :: int) ^ (it_bits t - 1) \<le> 2 ^ 63" "(2 :: int) ^ it_bits t \<le> 2 ^ 64"
    using assms(2) by (intro power_increasing; simp)+
  then have "v < 2 ^ 64" using assms(1) unfolding in_range_def by (auto split: if_splits)
  then have "nat v < 10 ^ 20" by simp
  then show ?thesis using nat_digits_length [of "nat v" 20] False by simp
qed

section \<open>Splitting\<close>

text \<open>The reference: the fields between separators.\<close>

fun split_at_sep :: "char \<Rightarrow> string \<Rightarrow> string list" where
  "split_at_sep sep [] = [[]]"
| "split_at_sep sep (c # cs) =
     (if c = sep then [] # split_at_sep sep cs
      else case split_at_sep sep cs of t # ts \<Rightarrow> (c # t) # ts | [] \<Rightarrow> [])"

lemma split_at_sep_none: "sep \<notin> set s \<Longrightarrow> split_at_sep sep s = [s]"
  by (induction s) auto

lemma split_at_sep_some: "sep \<notin> set t \<Longrightarrow> split_at_sep sep (t @ sep # s) = t # split_at_sep sep s"
  by (induction t) auto

lemma find_char_None:
  assumes "find_char sep str start = None"
  shows "sep \<notin> set (drop start str)"
proof (cases "start \<le> length str")
  case True
  then have "length (drop start str) \<le> length (takeWhile (\<lambda>c. c \<noteq> sep) (drop start str))"
    using assms by (simp add: find_char_def Let_def split: if_splits)
  then have "takeWhile (\<lambda>c. c \<noteq> sep) (drop start str) = drop start str"
    by (metis length_takeWhile_le order_antisym takeWhile_eq_take take_all)
  then show ?thesis by (auto simp: takeWhile_eq_all_conv)
qed simp

lemma find_char_Some:
  assumes "find_char sep str start = Some n"
  shows "drop start str = slice start (n - start) str @ sep # drop (n + 1) str" "sep \<notin> set (slice start (n - start) str)"
proof -
  let ?d = "drop start str"
  let ?k = "length (takeWhile (\<lambda>c. c \<noteq> sep) ?d)"
  have n: "n = start + ?k" "n < length str" using assms by (auto simp: find_char_def Let_def split: if_splits)
  have k: "?k < length ?d" using n by simp
  have t: "slice start (n - start) str = takeWhile (\<lambda>c. c \<noteq> sep) ?d"
    using n(1) by (simp add: slice_def takeWhile_eq_take [symmetric])
  have "?d ! ?k = sep" using nth_length_takeWhile [OF k] by simp
  moreover have "drop (n + 1) str = drop (Suc ?k) ?d" using n(1) by (simp add: add.commute)
  moreover have "?d = take ?k ?d @ ?d ! ?k # drop (Suc ?k) ?d" using k by (rule id_take_nth_drop)
  ultimately show "drop start str = slice start (n - start) str @ sep # drop (n + 1) str"
    using t by (simp add: takeWhile_eq_take [symmetric])
  show "sep \<notin> set (slice start (n - start) str)" unfolding t by (auto dest: set_takeWhileD)
qed

lemma tokenize_loop_split:
  assumes "tokenize_loop str sep keepEmpty start tokens = (start', tokens')"
  shows "tokens' @ (if keepEmpty \<or> start' < length str then [drop start' str] else []) =
    tokens @ filter (\<lambda>t. keepEmpty \<or> t \<noteq> []) (split_at_sep sep (drop start str))"
  using assms
proof (induction str sep keepEmpty start tokens rule: tokenize_loop.induct)
  case (1 str sep keepEmpty start tokens)
  show ?case
  proof (cases "find_char sep str start")
    case None
    then have "start' = start" "tokens' = tokens" using 1(2) by (simp_all add: tokenize_loop.simps [of str])
    then show ?thesis using split_at_sep_none [OF find_char_None [OF None]] by auto
  next
    case (Some n)
    let ?t = "slice start (n - start) str"
    have b: "start \<le> n" "n < length str" using find_char_bounds [OF Some] by simp_all
    have e: "?t = [] \<longleftrightarrow> \<not> start < n" using b by (auto simp: slice_def)
    have sp: "split_at_sep sep (drop start str) = ?t # split_at_sep sep (drop (n + 1) str)"
      using find_char_Some [OF Some] split_at_sep_some by metis
    from 1(1) [OF Some] 1(2) Some have "tokens' @ (if keepEmpty \<or> start' < length str then [drop start' str] else []) =
      (if keepEmpty \<or> start < n then tokens @ [?t] else tokens) @
        filter (\<lambda>t. keepEmpty \<or> t \<noteq> []) (split_at_sep sep (drop (n + 1) str))"
      by (simp add: tokenize_loop.simps [of str sep keepEmpty start])
    then show ?thesis using e by (simp add: sp)
  qed
qed

section \<open>Lemmas on hexadecimal strings\<close>

lemma strtoul16_hex_byte: "ucast (strtoul16 (hex_byte b)) = b"
proof -
  have d: "unat b div 16 < 16" "unat b mod 16 < 16" using unat_byte_less [of b] by (simp_all add: less_mult_imp_div_less del: unat_byte_less)
  have v: "digits_value 16 [digit_char (unat b div 16), digit_char (unat b mod 16)] = unat b"
    using d by (simp add: digits_value_def)
  have "strtoul16 (hex_byte b) = ucast b"
    using d v digit_char_plain by (simp add: strtoul16_def hex_byte_def StringEqualI_def)
  then show ?thesis by (simp add: word_unat_eq_iff unsigned_ucast_eq take_bit_nat_eq_self)
qed

lemma hex_string_nth:
  "i < length xs \<Longrightarrow> [concat (map hex_byte xs) ! (2 * i), concat (map hex_byte xs) ! (2 * i + 1)] = hex_byte (xs ! i)"
proof (induction xs arbitrary: i)
  case (Cons x xs)
  then show ?case by (cases i) (auto simp: hex_byte_def)
qed simp

lemma hex_string_length: "length (concat (map hex_byte xs)) = 2 * length xs"
  by (induction xs) (auto simp: hex_byte_def)

lemma hex_string_decode:
  "map (\<lambda>i. ucast (strtoul16 [concat (map hex_byte xs) ! (2 * i), concat (map hex_byte xs) ! (2 * i + 1)]))
    [0..<length xs] = xs"
  by (intro nth_equalityI) (simp_all only: length_map length_upt diff_zero nth_map_upt hex_string_nth
      strtoul16_hex_byte add_0)

lemma hex_string_decode_rev:
  "map (\<lambda>i. ucast (strtoul16 [concat (map hex_byte xs) ! (2 * i), concat (map hex_byte xs) ! (2 * i + 1)]))
    (rev [0..<length xs]) = rev xs"
  by (simp only: rev_map [symmetric] hex_string_decode)

lemma ByteArrayToHexStr_concat: "ByteArrayToHexStr bs reverse = concat (map hex_byte (if reverse then rev bs else bs))"
proof -
  have "map (\<lambda>i. hex_byte (bs ! i)) [0..<length bs] = map hex_byte bs" by (rule nth_equalityI) simp_all
  then show ?thesis by (simp add: ByteArrayToHexStr_def flip: rev_map)
qed

text \<open>Reading a number back in base 10, and the range of what is read.\<close>

lemma FromString_digits:
  assumes "in_range t v" "s = (if v < 0 then CHR ''-'' # nat_digits (nat (- v)) else nat_digits (nat v))"
  shows "For_int_FromString t 10 s = Some v"
  using from_chars_digits [OF assms] by (simp add: For_int_FromString_def)

lemma FromString_in_range: "For_int_FromString t base str = Some u \<Longrightarrow> in_range t u"
  by (auto simp: For_int_FromString_def from_chars_def Let_def split: if_splits prod.splits from_chars_ec.splits)

section \<open>Properties\<close>

text \<open>
  C39: numbers survive their text form.  \<open>ToString\<close> of every value of an integral type of at
  most 64 bits fits its 20 characters, and \<open>FromString\<close> reads it back, with base 10 and with
  the base taken from the prefix; and \<open>FromString\<close> of any text never yields a value outside
  the type.
\<close>
theorem integer_text_round_trip:
  assumes "it_bits t \<le> 64"
  shows "(in_range t v \<longrightarrow> (\<exists>s. For_int_ToString v = Inr s \<and> For_int_FromString t 10 s = Some v \<and>
      For_int_FromString t 0 s = Some v)) \<and>
    (For_int_FromString t base str = Some u \<longrightarrow> in_range t u)"
proof (intro conjI impI)
  assume v: "in_range t v"
  let ?s = "if v < 0 then CHR ''-'' # nat_digits (nat (- v)) else nat_digits (nat v)"
  have "For_int_ToString v = Inr ?s"
    using to_chars_room [OF v assms] by (simp add: For_int_ToString_def to_chars_def Let_def)
  moreover have f: "from_chars t 10 ?s = (length ?s, FcOk v)" by (rule from_chars_digits [OF v refl])
  have "For_int_FromString t 10 ?s = Some v" by (rule FromString_digits [OF v refl])
  moreover have "\<not> StringEqualI (take 2 ?s) ''0x''" "\<not> StringEqualI (take 2 ?s) ''0b''" "?s \<noteq> []"
    using nat_digits_no_prefix by simp_all
  then have "For_int_FromString t 0 ?s = Some v" using f by (simp only: For_int_FromString_def Let_def) simp
  ultimately show "\<exists>s. For_int_ToString v = Inr s \<and> For_int_FromString t 10 s = Some v \<and> For_int_FromString t 0 s = Some v"
    by blast
next
  assume "For_int_FromString t base str = Some u"
  then show "in_range t u" by (rule FromString_in_range)
qed

theorem integer_text_round_trip_witness:
  "\<exists>s. For_int_ToString (- 128) = Inr s \<and> For_int_FromString \<lparr>it_signed = True, it_bits = 8\<rparr> 10 s = Some (- 128)"
  using integer_text_round_trip [of "\<lparr>it_signed = True, it_bits = 8\<rparr>" "- 128" 10 "[]" 0]
  by (auto simp: in_range_def)

text \<open>
  Hexadecimal strings are read back to the bytes they were printed from, in both
  directions of the byte order; and a string of any other length than twice the number of
  bytes asked for fails the assertion.
\<close>
theorem hex_round_trip:
  assumes "length bs < 2 ^ 30"
  shows "HexStrToByteArray (ByteArrayToHexStr bs reverse) (length bs) reverse = Inr bs \<and>
    (n \<noteq> length bs \<longrightarrow> HexStrToByteArray (ByteArrayToHexStr bs reverse) n reverse = Inl AssertionFailed)"
  using hex_string_decode [of bs] hex_string_decode_rev [of "rev bs"] hex_string_length [of bs]
    hex_string_length [of "rev bs"]
  by (cases reverse) (auto simp: HexStrToByteArray_def ByteArrayToHexStr_concat)

theorem hex_round_trip_witness:
  "HexStrToByteArray (ByteArrayToHexStr [0xAB, 7] True) (length [0xAB, 7 :: uint8]) True = Inr [0xAB, 7]"
  using hex_round_trip [of "[0xAB, 7]" True 0] by simp

text \<open>
  The tokenizer splits at every separator.  With \<open>keepEmpty\<close> the tokens are exactly the
  fields between separators, without it the non-empty ones, in order.
\<close>
theorem tokenize_splits:
  "Tokenize str sep keepEmpty =
     (if keepEmpty then split_at_sep sep str else filter (\<lambda>t. t \<noteq> []) (split_at_sep sep str))"
  using tokenize_loop_split [of str sep keepEmpty 0 "[]"]
  by (cases "tokenize_loop str sep keepEmpty 0 []") (auto simp: Tokenize_def split: if_splits)

end
