(* ===== verification/BufferDump.thy ===== *)
theory BufferDump
  imports ByteBuffer Text
begin

text \<open>
  What a packet buffer tells about itself: the messages of its exceptions and the trace dumps
  (\<^verbatim>\<open>shared/Packet/ByteBuffer.cpp\<close>).  A dump is the text it hands to the logging system.  An
  unsigned character put on a stream is that character, any other unsigned number its decimal digits.
\<close>

section \<open>Exception messages\<close>

definition position_message :: "bool \<Rightarrow> nat \<Rightarrow> nat \<Rightarrow> nat \<Rightarrow> string" where
  "position_message add pos sz valueSize =
     ''Attempted to '' @ (if add then ''put'' else ''get'') @ '' value with size: '' @ nat_digits valueSize @
     '' in ByteBuffer (pos: '' @ nat_digits pos @ '' size: '' @ nat_digits sz @ '')''"

definition source_message :: "nat \<Rightarrow> nat \<Rightarrow> nat \<Rightarrow> string" where
  "source_message pos sz valueSize =
     ''Attempted to put a '' @ (if valueSize > 0 then ''NULL-pointer'' else ''zero-sized value'') @
     '' in ByteBuffer (pos: '' @ nat_digits pos @ '' size: '' @ nat_digits sz @ '')''"

definition invalid_value_message :: "string \<Rightarrow> string \<Rightarrow> string" where
  "invalid_value_message type val = ''Invalid '' @ type @ '' value ('' @ val @ '') found in ByteBuffer''"

text \<open>\<open>what()\<close>: the bare \<open>ByteBufferException\<close> has an empty message; the value of an invalid one is given.\<close>

fun buffer_what :: "string \<Rightarrow> cpp_error \<Rightarrow> string option" where
  "buffer_what val (BufferPosition add pos sz valueSize) = Some (position_message add pos sz valueSize)"
| "buffer_what val BufferEmpty = Some ''''"
| "buffer_what val (BufferInvalidValue type) = Some (invalid_value_message type val)"
| "buffer_what val _ = None"

section \<open>Dumps\<close>

definition byte_char :: "uint8 \<Rightarrow> char" where
  "byte_char b = char_of (unat b)"

text \<open>The counter \<open>uint32 i\<close> of the loops reaches the size of every buffer below 4 GiB.\<close>

function print_loop :: "endian \<Rightarrow> byte_buffer \<Rightarrow> string \<Rightarrow> nat \<Rightarrow> string \<Rightarrow> string result" where
  "print_loop e b separator i o1 =
     (if i < bb_size b then
        case read_at e i b of
          Inl err \<Rightarrow> Inl err
        | Inr v \<Rightarrow> print_loop e b separator (Suc i) (o1 @ [byte_char v] @ separator)
      else Inr o1)"
  by pat_completeness auto
termination
  by (relation "measure (\<lambda>(_, b, _, i, _). bb_size b - i)") auto

declare print_loop.simps [simp del]

definition print_storage :: "endian \<Rightarrow> byte_buffer \<Rightarrow> string result" where
  "print_storage e b =
     rbind (print_loop e b '' - '' 0 (''STORAGE_SIZE: '' @ nat_digits (bb_size b))) (\<lambda>o1. Inr (o1 @ '' ''))"

definition textlike :: "endian \<Rightarrow> byte_buffer \<Rightarrow> string result" where
  "textlike e b =
     rbind (print_loop e b '''' 0 (''STORAGE_SIZE: '' @ nat_digits (bb_size b) @ ''. '' @ [CHR 0x27]))
       (\<lambda>o1. Inr (o1 @ [CHR 0x27]))"

function hex_loop :: "endian \<Rightarrow> byte_buffer \<Rightarrow> nat \<Rightarrow> uint32 \<Rightarrow> uint32 \<Rightarrow> string \<Rightarrow> string result" where
  "hex_loop e b i j k o1 =
     (if i < bb_size b then
        case rbind (read_at e i b) (\<lambda>v :: uint8. For_int_ToString (uint v)) of
          Inl err \<Rightarrow> Inl err
        | Inr buf \<Rightarrow>
            let (j, k, o1) =
              (if of_nat i = j * 8 \<and> of_nat i \<noteq> k * 16 then (j + 1, k, o1 @ ''| '')
               else if of_nat i = k * 16 then (j + 1, k + 1, o1 @ [CHR 0x0A])
               else (j, k, o1))
            in hex_loop e b (Suc i) j k (o1 @ buf)
      else Inr o1)"
  by pat_completeness auto
termination
  by (relation "measure (\<lambda>(_, b, i, _, _, _). bb_size b - i)") auto

declare hex_loop.simps [simp del]

definition hexlike :: "endian \<Rightarrow> byte_buffer \<Rightarrow> string result" where
  "hexlike e b =
     rbind (hex_loop e b 0 1 1 (''STORAGE_SIZE: '' @ nat_digits (bb_size b))) (\<lambda>o1. Inr (o1 @ '' ''))"

section \<open>What is printed\<close>

lemma read_at_byte:
  assumes "i < bb_size b" "bb_size b < size_mod"
  shows "read_at e i b = Inr (bb_storage b ! i :: uint8)"
proof -
  have "sz_add i 1 = Suc i" using assms by (simp add: sz_add_def)
  then show ?thesis using assms
    by (cases e) (auto simp: read_at_def in_storage_def bb_size_def slice_def take_Suc_conv_app_nth
        hd_drop_conv_nth Cons_nth_drop_Suc [symmetric] le_word_def)
qed

lemma print_loop_text:
  assumes "bb_size b < size_mod" "i \<le> bb_size b"
  shows "print_loop e b separator i o1 = Inr (o1 @ concat (map (\<lambda>v. byte_char v # separator) (drop i (bb_storage b))))"
  using assms(2)
proof (induction "bb_size b - i" arbitrary: i o1)
  case 0
  then have "\<not> i < bb_size b" "drop i (bb_storage b) = []" by (simp_all add: bb_size_def)
  then show ?case by (simp add: print_loop.simps [of e b separator i])
next
  case (Suc n)
  then have i: "i < bb_size b" "n = bb_size b - Suc i" by auto
  have "drop i (bb_storage b) = bb_storage b ! i # drop (Suc i) (bb_storage b)"
    using i by (simp add: Cons_nth_drop_Suc bb_size_def)
  with Suc(1) [of "Suc i"] i show ?case
    by (simp add: print_loop.simps [of e b separator i] read_at_byte assms(1))
qed

text \<open>The sign in front of the byte at a position: rows of sixteen, cut in the middle.\<close>

definition hex_sign :: "nat \<Rightarrow> string" where
  "hex_sign i = (if i = 0 \<or> i mod 8 \<noteq> 0 then '''' else if i mod 16 = 0 then [CHR 0x0A] else ''| '')"

lemma byte_digits: "For_int_ToString (uint (v :: uint8)) = Inr (nat_digits (unat v))"
proof -
  have "unat v < 10 ^ 3" by (rule less_trans [OF unat_byte_less]) simp
  then have "length (nat_digits (unat v)) \<le> 3" by (rule nat_digits_length) simp
  then show ?thesis by (simp add: For_int_ToString_def to_chars_def nat_uint_eq)
qed

definition rows_before :: "nat \<Rightarrow> nat \<Rightarrow> nat" where
  "rows_before w i = Suc ((i - 1) div w)"

lemma rows_before_Suc:
  assumes "0 < w"
  shows "rows_before w (Suc i) = (if i \<noteq> 0 \<and> i mod w = 0 then Suc (rows_before w i) else rows_before w i)"
  using assms by (cases i) (auto simp: rows_before_def div_Suc mod_eq_0_iff_dvd)

lemma row_counter:
  assumes "i < 4294967280" "w = 8 \<or> w = 16"
  shows "of_nat i = (of_nat (rows_before w i) * of_nat w :: uint32) \<longleftrightarrow> i \<noteq> 0 \<and> i mod w = 0"
proof -
  have "rows_before w i * w < 4294967296" using assms by (auto simp: rows_before_def)
  then have "of_nat i = (of_nat (rows_before w i * w) :: uint32) \<longleftrightarrow> i = rows_before w i * w"
    using assms(1) by (auto simp: word_unat_eq_iff unat_of_nat simp del: of_nat_mult)
  also have "\<dots> \<longleftrightarrow> i \<noteq> 0 \<and> i mod w = 0"
    using assms(2) unfolding rows_before_def by (elim disjE; cases i; simp) presburger+
  finally show ?thesis by simp
qed

lemma hex_loop_step:
  assumes "i < bb_size b" "bb_size b \<le> 4294967280"
  shows "hex_loop e b i (of_nat (rows_before 8 i)) (of_nat (rows_before 16 i)) o1 =
    hex_loop e b (Suc i) (of_nat (rows_before 8 (Suc i))) (of_nat (rows_before 16 (Suc i)))
      (o1 @ hex_sign i @ nat_digits (unat (bb_storage b ! i)))"
proof -
  have read: "read_at e i b = Inr (bb_storage b ! i :: uint8)"
    using assms by (intro read_at_byte) (simp_all add: size_mod_def)
  have i: "i < 4294967280" using assms by simp
  have "i mod 8 = 0" if "i mod 16 = 0" using that by presburger
  then show ?thesis
    using assms(1) row_counter [OF i, of 8] row_counter [OF i, of 16]
    by (auto simp: hex_loop.simps [of e b i] read byte_digits Let_def hex_sign_def rows_before_Suc add.commute)
qed

lemma hex_loop_text:
  assumes "bb_size b \<le> 4294967280" "i \<le> bb_size b"
  shows "hex_loop e b i (of_nat (rows_before 8 i)) (of_nat (rows_before 16 i)) o1 =
      Inr (o1 @ concat (map (\<lambda>n. hex_sign n @ nat_digits (unat (bb_storage b ! n))) [i..<bb_size b]))"
  using assms(2)
proof (induction "bb_size b - i" arbitrary: i o1)
  case 0
  then show ?case by (simp add: hex_loop.simps [of e b i])
next
  case (Suc n)
  then have i: "i < bb_size b" "n = bb_size b - Suc i" by auto
  then have "[i..<bb_size b] = i # [Suc i..<bb_size b]" by (intro upt_conv_Cons)
  with Suc(1) [of "Suc i"] i show ?case by (simp add: hex_loop_step assms(1))
qed

section \<open>Properties\<close>

text \<open>
  The dumps show the whole storage and never fail: the size, and after it every byte in order, as
  characters in \<open>print_storage\<close> and \<open>textlike\<close> and as decimal numbers in \<open>hexlike\<close>, where a
  newline starts every row of sixteen and a bar its second half.
\<close>
theorem dumps_show_storage:
  assumes "bb_size b \<le> 4294967280"
  shows "print_storage e b = Inr (''STORAGE_SIZE: '' @ nat_digits (bb_size b) @
      concat (map (\<lambda>v. byte_char v # '' - '') (bb_storage b)) @ '' '') \<and>
    textlike e b = Inr (''STORAGE_SIZE: '' @ nat_digits (bb_size b) @ ''. '' @ [CHR 0x27] @
      map byte_char (bb_storage b) @ [CHR 0x27]) \<and>
    hexlike e b = Inr (''STORAGE_SIZE: '' @ nat_digits (bb_size b) @
      concat (map (\<lambda>i. hex_sign i @ nat_digits (unat (bb_storage b ! i))) [0..<bb_size b]) @ '' '')"
proof -
  have small: "bb_size b < size_mod" using assms by (simp add: size_mod_def)
  have "rows_before w 0 = 1" for w by (simp add: rows_before_def)
  then show ?thesis
    using hex_loop_text [OF assms, of 0 e] print_loop_text [OF small, of 0 e]
    by (simp add: print_storage_def textlike_def hexlike_def)
qed

text \<open>
  The numbers of \<open>hexlike\<close> are neither hexadecimal nor separated, so different packets have the
  same dump.
\<close>
theorem hexlike_ambiguous:
  "hexlike e \<lparr>bb_rpos = 0, bb_wpos = 2, bb_storage = [1, 11], bb_capacity = 2\<rparr> =
   hexlike e \<lparr>bb_rpos = 0, bb_wpos = 2, bb_storage = [11, 1], bb_capacity = 2\<rparr>"
  using dumps_show_storage [of "\<lparr>bb_rpos = 0, bb_wpos = 2, bb_storage = [1, 11], bb_capacity = 2\<rparr>" e]
    dumps_show_storage [of "\<lparr>bb_rpos = 0, bb_wpos = 2, bb_storage = [11, 1], bb_capacity = 2\<rparr>" e]
  by (simp add: bb_size_def upt_rec hex_sign_def nat_digits.simps)

text \<open>
  The message of a failed read names the size of the buffer where it means the size of the value,
  and the size of the value where it means the size of the buffer.
\<close>
theorem read_error_swaps_sizes:
  assumes "read_at e pos b = (Inl err :: 'a::len word result)" "bb_size b < size_mod" "pos < size_mod"
    "sizeof TYPE('a) < size_mod - pos"
  shows "buffer_what val err =
    Some (''Attempted to get value with size: '' @ nat_digits (bb_size b) @ '' in ByteBuffer (pos: '' @
      nat_digits pos @ '' size: '' @ nat_digits (sizeof TYPE('a)) @ '')'')"
  using assms
  by (auto simp: read_at_def in_storage_def sz_add_def position_message_def Let_def split: if_splits)

end
