(* ===== verification/LinkedChain.thy ===== *)
theory LinkedChain
  imports Prelude
begin

text \<open>
  The data structure behind both lock-free queues of \<^verbatim>\<open>src/common/Threading/MPSCQueue.h\<close>:
  a chain of nodes from the tail to the head in which a link is stored some time after its
  node was appended.  \<open>linked\<close> is the invariant the atomic actions keep, and the locale
  \<open>delivers\<close> is what a queue with such an invariant promises its consumer.
\<close>

section \<open>Neighbours in a list of nodes\<close>

definition links :: "nat list \<Rightarrow> (nat \<times> nat) set" where
  "links ns = set (zip ns (tl ns))"

lemma links_snoc: "ns \<noteq> [] \<Longrightarrow> links (ns @ [n]) = insert (last ns, n) (links ns)"
proof (induction ns)
  case (Cons m ns)
  then show ?case by (cases ns) (auto simp: links_def)
qed simp

lemma links_Cons2: "links (m # n # ns) = insert (m, n) (links (n # ns))"
  by (simp add: links_def)

lemma links_mem: "(a, b) \<in> links ns \<Longrightarrow> a \<in> set ns \<and> b \<in> set ns"
  unfolding links_def by (metis set_zip_leftD set_zip_rightD list.set_sel(2) list.sel(2) zip_Nil emptyE list.set(1))

lemma links_single [simp]: "links [n] = {}"
  by (simp add: links_def)

lemma links_left: "distinct ns \<Longrightarrow> (a, b) \<in> links ns \<Longrightarrow> a \<noteq> last ns"
proof (induction ns)
  case (Cons m ns)
  then show ?case
  proof (cases ns)
    case (Cons n ns')
    with Cons.prems Cons.IH show ?thesis
      by (auto simp: links_Cons2)
  qed simp
qed (simp add: links_def)

lemma links_unique: "distinct ns \<Longrightarrow> (a, b) \<in> links ns \<Longrightarrow> (a, c) \<in> links ns \<Longrightarrow> b = c"
proof (induction ns)
  case (Cons m ns)
  then show ?case
  proof (cases ns)
    case (Cons n ns')
    with Cons.prems Cons.IH show ?thesis
      by (auto simp: links_Cons2 dest: links_mem)
  qed simp
qed (simp add: links_def)

section \<open>Links that are stored or still pending\<close>

text \<open>
  \<open>nxt\<close> is the link of each node, \<open>pend\<close> what each producer between its exchange and its
  store still has to store: each link of the chain is stored or pending, only links of the
  chain are pending, each with one producer, and the last node has no link.
\<close>

definition linked :: "(nat \<Rightarrow> nat option) \<Rightarrow> (nat \<Rightarrow> (nat \<times> nat) option) \<Rightarrow> nat list \<Rightarrow> bool" where
  "linked nxt pend ns \<longleftrightarrow> ns \<noteq> [] \<and> distinct ns \<and> nxt (last ns) = None \<and>
     (\<forall>a b. (a, b) \<in> links ns \<longrightarrow> nxt a = Some b \<or> nxt a = None \<and> (\<exists>p. pend p = Some (a, b))) \<and>
     (\<forall>p a b. pend p = Some (a, b) \<longrightarrow> (a, b) \<in> links ns \<and> nxt a = None) \<and>
     (\<forall>p q x. pend p = Some x \<and> pend q = Some x \<longrightarrow> p = q)"

lemma linkedD:
  assumes "linked nxt pend ns"
  shows "ns \<noteq> []" "distinct ns" "nxt (last ns) = None"
    and "(a, b) \<in> links ns \<Longrightarrow> nxt a = Some b \<or> nxt a = None \<and> (\<exists>p. pend p = Some (a, b))"
    and "pend p = Some (a, b) \<Longrightarrow> (a, b) \<in> links ns"
    and "pend p = Some (a, b) \<Longrightarrow> nxt a = None"
    and "pend p = Some x \<Longrightarrow> pend q = Some x \<Longrightarrow> p = q"
  using assms unfolding linked_def by (simp, simp, simp, blast, blast, blast, blast)

lemma linkedI:
  assumes "ns \<noteq> []" "distinct ns" "nxt (last ns) = None"
    and "\<And>a b. (a, b) \<in> links ns \<Longrightarrow> nxt a = Some b \<or> nxt a = None \<and> (\<exists>p. pend p = Some (a, b))"
    and "\<And>p a b. pend p = Some (a, b) \<Longrightarrow> (a, b) \<in> links ns \<and> nxt a = None"
    and "\<And>p q x. pend p = Some x \<Longrightarrow> pend q = Some x \<Longrightarrow> p = q"
  shows "linked nxt pend ns"
  unfolding linked_def by (intro conjI allI impI) (use assms in blast)+

lemma linked_start: "nxt n = None \<Longrightarrow> linked nxt (\<lambda>_. None) [n]"
  by (simp add: linked_def)

text \<open>A link that is stored is the one to the neighbour.\<close>

lemma linked_hd_next:
  assumes l: "linked nxt pend ns" and n: "nxt (hd ns) = Some n"
  shows "\<exists>rest. ns = hd ns # n # rest"
proof -
  from linkedD(1) [OF l] obtain t rest where ns: "ns = t # rest" by (cases ns) auto
  with linkedD(3) [OF l] n have "rest \<noteq> []" by auto
  then obtain n' rest' where rest: "rest = n' # rest'" by (cases rest) auto
  then have "(t, n') \<in> links ns" by (simp add: ns links_Cons2)
  from linkedD(4) [OF l this] n show ?thesis by (simp add: ns rest)
qed

text \<open>With no link pending the first node is linked unless it is the only one.\<close>

lemma linked_settled:
  assumes l: "linked nxt pend ns" and idle: "\<forall>p. pend p = None"
  shows "nxt (hd ns) = None \<longleftrightarrow> tl ns = []"
proof (cases ns)
  case (Cons t rest)
  show ?thesis
  proof (cases rest)
    case (Cons n rest')
    then have "(t, n) \<in> links ns" by (simp add: \<open>ns = t # rest\<close> links_Cons2)
    from linkedD(4) [OF l this] idle show ?thesis by (simp add: \<open>ns = t # rest\<close> Cons)
  qed (use linkedD(3) [OF l] Cons in simp)
qed (use linkedD(1) [OF l] in simp)

text \<open>The exchange of the head: a node with an empty link is appended, its link pending.\<close>

lemma linked_exchange:
  assumes l: "linked nxt pend ns" and p: "pend p = None" and n: "n \<notin> set ns"
  shows "linked (nxt(n := None)) (pend(p := Some (last ns, n))) (ns @ [n])"
proof -
  let ?nxt = "nxt(n := None)" and ?pend = "pend(p := Some (last ns, n))"
  note ne = linkedD(1) [OF l]
  have old: "a \<noteq> n \<and> b \<noteq> n" if "(a, b) \<in> links ns" for a b
    using links_mem [OF that] n by auto
  have last: "last ns \<noteq> n" using last_in_set [OF ne] n by auto
  note lk = links_snoc [OF ne, of n]
  have edges: "?nxt a = Some b \<or> ?nxt a = None \<and> (\<exists>q. ?pend q = Some (a, b))"
    if "(a, b) \<in> links (ns @ [n])" for a b
  proof (cases "(a, b) \<in> links ns")
    case True
    with linkedD(4) [OF l True] old [OF True] p show ?thesis
      by (metis fun_upd_apply option.distinct(1))
  next
    case False
    with that lk have "a = last ns" "b = n" by auto
    with linkedD(3) [OF l] last show ?thesis by auto
  qed
  have pend: "(a, b) \<in> links (ns @ [n]) \<and> ?nxt a = None" if "?pend q = Some (a, b)" for q a b
    using that linkedD(3,5,6) [OF l] lk last by (auto split: if_splits)
  have new: "pend q \<noteq> Some (last ns, n)" for q
    using linkedD(5) [OF l] old by blast
  have inj: "q = r" if "?pend q = Some x" "?pend r = Some x" for q r x
    using that linkedD(7) [OF l, of q x r] new by (cases "q = p"; cases "r = p") auto
  show ?thesis
    by (rule linkedI [OF _ _ _ edges pend inj]) (use linkedD(2) [OF l] n in simp_all)
qed

text \<open>The store of a pending link.\<close>

lemma linked_store:
  assumes l: "linked nxt pend ns" and ab: "pend p = Some (a, b)"
  shows "linked (nxt(a := Some b)) (pend(p := None)) ns"
proof -
  let ?nxt = "nxt(a := Some b)" and ?pend = "pend(p := None)"
  note d = linkedD(2) [OF l] and ab' = linkedD(5) [OF l ab]
  have uniq: "x = b" if "(a, x) \<in> links ns" for x
    using links_unique [OF d that ab'] .
  have edges: "?nxt x = Some y \<or> ?nxt x = None \<and> (\<exists>q. ?pend q = Some (x, y))"
    if "(x, y) \<in> links ns" for x y
  proof (cases "x = a")
    case True
    with uniq that show ?thesis by simp
  next
    case False
    from linkedD(4) [OF l that] show ?thesis
    proof
      assume "nxt x = None \<and> (\<exists>q. pend q = Some (x, y))"
      then obtain q where "nxt x = None" "pend q = Some (x, y)" by blast
      moreover from this False ab have "q \<noteq> p" by auto
      ultimately show ?thesis using False by auto
    qed (use False in simp)
  qed
  have pend: "(x, y) \<in> links ns \<and> ?nxt x = None" if "?pend q = Some (x, y)" for q x y
  proof -
    from that have q: "q \<noteq> p" "pend q = Some (x, y)" by (auto split: if_splits)
    then have "x \<noteq> a" using uniq linkedD(5) [OF l q(2)] linkedD(7) [OF l ab, of q] by auto
    with linkedD(5,6) [OF l q(2)] show ?thesis by simp
  qed
  have inj: "q = r" if "?pend q = Some x" "?pend r = Some x" for q r x
    using that linkedD(7) [OF l] by (auto split: if_splits)
  show ?thesis
    by (rule linkedI [OF _ _ _ edges pend inj])
      (use links_left [OF d ab'] linkedD(1-3) [OF l] in simp_all)
qed

text \<open>The consumer drops the first node when its link is stored.\<close>

lemma linked_advance:
  assumes l: "linked nxt pend ns" and n: "nxt (hd ns) = Some n"
  shows "linked nxt pend (tl ns)"
proof -
  from linked_hd_next [OF l n] obtain t rest where ns: "ns = t # n # rest" by (metis list.sel(1))
  have pend: "(a, b) \<in> links (n # rest) \<and> nxt a = None" if "pend p = Some (a, b)" for p a b
    using linkedD(5,6) [OF l that] n by (auto simp: ns links_Cons2)
  have edges: "nxt a = Some b \<or> nxt a = None \<and> (\<exists>p. pend p = Some (a, b))"
    if "(a, b) \<in> links (n # rest)" for a b
    using linkedD(4) [OF l, of a b] that by (simp add: ns links_Cons2)
  have inj: "p = q" if "pend p = Some x" "pend q = Some x" for p q x
    using linkedD(7) [OF l that] .
  have "linked nxt pend (n # rest)"
    by (rule linkedI [OF _ _ _ edges pend inj]) (use linkedD(2,3) [OF l] in \<open>simp_all add: ns\<close>)
  then show ?thesis by (simp add: ns)
qed

section \<open>What a queue promises\<close>

text \<open>
  A queue in state \<open>s\<close> has taken \<open>sent s\<close> and handed out \<open>received s\<close>; \<open>inv s c\<close> relates the
  state to a structure \<open>c\<close> whose contents are in between.
\<close>

locale delivers =
  fixes start :: 's
    and step :: "'s \<Rightarrow> 's \<Rightarrow> bool"
    and inv :: "'s \<Rightarrow> 'c \<Rightarrow> bool"
    and sent received :: "'s \<Rightarrow> 'd list"
    and contents :: "'s \<Rightarrow> 'c \<Rightarrow> 'd list"
  assumes inv_start: "\<exists>c. inv start c"
    and inv_step: "inv s c \<Longrightarrow> step s s' \<Longrightarrow> \<exists>c'. inv s' c'"
    and accounts: "inv s c \<Longrightarrow> sent s = received s @ contents s c"
begin

lemma reachable_inv: "step\<^sup>*\<^sup>* start s \<Longrightarrow> \<exists>c. inv s c"
  by (induction rule: rtranclp_induct) (auto intro: inv_start dest: inv_step)

lemma reachable_accounts: "step\<^sup>*\<^sup>* start s \<Longrightarrow> \<exists>c. inv s c \<and> sent s = received s @ contents s c"
  using reachable_inv accounts by blast

end

end
