(* ===== verification/MPSCQueue.thy ===== *)
theory MPSCQueue
  imports LinkedChain
begin

text \<open>
  \<^verbatim>\<open>src/common/Threading/MPSCQueue.h\<close>: the non-intrusive lock-free queue for many producers
  and one consumer, over an explicit heap of nodes.

  The producers' \<open>Enqueue\<close> is two atomic actions, the exchange of the head and the store
  of the link, between which any other thread may run.  \<open>Dequeue\<close> is one action: its only
  access to memory a producer writes is the load of \<open>tail->Next\<close>, everything else is owned
  by the single consumer.  The interleavings are sequentially consistent, which the
  acquire and release orders of the source give for these accesses.
\<close>

section \<open>The queue and its atomic actions\<close>

text \<open>
  A node is an address; \<open>ms_alive\<close> are the nodes allocated and not deleted.
  \<open>ms_pending\<close> holds, for a producer between its two actions, \<open>prevHead\<close> and \<open>node\<close>.
  \<open>ms_in\<close> and \<open>ms_out\<close> record what was enqueued and what was dequeued, in order.
\<close>

record 'd mpsc =
  ms_data :: "nat \<Rightarrow> 'd option"
  ms_next :: "nat \<Rightarrow> nat option"
  ms_head :: nat
  ms_tail :: nat
  ms_alive :: "nat list"
  ms_fresh :: nat
  ms_pending :: "nat \<Rightarrow> (nat \<times> nat) option"
  ms_in :: "'d list"
  ms_out :: "'d list"

definition MPSC_new :: "'d mpsc" where
  "MPSC_new = \<lparr>ms_data = \<lambda>_. None, ms_next = \<lambda>_. None, ms_head = 0, ms_tail = 0, ms_alive = [0],
     ms_fresh = 1, ms_pending = \<lambda>_. None, ms_in = [], ms_out = []\<rparr>"

text \<open>\<open>new Node(input)\<close> and \<open>_head.exchange(node)\<close> by producer \<open>p\<close>.\<close>

definition Enqueue_exchange :: "nat \<Rightarrow> 'd \<Rightarrow> 'd mpsc \<Rightarrow> 'd mpsc" where
  "Enqueue_exchange p input s =
     (let node = ms_fresh s
      in s\<lparr>ms_fresh := Suc node, ms_alive := node # ms_alive s,
           ms_data := (ms_data s)(node := Some input), ms_next := (ms_next s)(node := None),
           ms_head := node, ms_pending := (ms_pending s)(p := Some (ms_head s, node)),
           ms_in := ms_in s @ [input]\<rparr>)"

text \<open>\<open>prevHead->Next.store(node)\<close>.\<close>

definition Enqueue_link :: "nat \<Rightarrow> 'd mpsc \<Rightarrow> 'd mpsc result" where
  "Enqueue_link p s =
     (case ms_pending s p of
        None \<Rightarrow> Inr s
      | Some (prevHead, node) \<Rightarrow>
          if prevHead \<in> set (ms_alive s)
          then Inr (s\<lparr>ms_next := (ms_next s)(prevHead := Some node),
                      ms_pending := (ms_pending s)(p := None)\<rparr>)
          else Inl UndefinedBehaviour)"

text \<open>\<open>Dequeue\<close>: the node read, or nothing; both nodes it touches must be alive.\<close>

definition Dequeue :: "'d mpsc \<Rightarrow> ('d option \<times> 'd mpsc) result" where
  "Dequeue s =
     (if ms_tail s \<notin> set (ms_alive s) then Inl UndefinedBehaviour
      else case ms_next s (ms_tail s) of
        None \<Rightarrow> Inr (None, s)
      | Some nxt \<Rightarrow>
          (case ms_data s nxt of
             None \<Rightarrow> Inl UndefinedBehaviour
           | Some d \<Rightarrow>
               if nxt \<notin> set (ms_alive s) then Inl UndefinedBehaviour
               else Inr (Some d, s\<lparr>ms_tail := nxt, ms_alive := removeAll (ms_tail s) (ms_alive s),
                                   ms_out := ms_out s @ [d]\<rparr>)))"

text \<open>\<open>Enqueue\<close> run without interruption.\<close>

definition Enqueue :: "nat \<Rightarrow> 'd \<Rightarrow> 'd mpsc \<Rightarrow> 'd mpsc result" where
  "Enqueue p input s = Enqueue_link p (Enqueue_exchange p input s)"

text \<open>The interleavings.  A producer starts a new \<open>Enqueue\<close> only after it finished its last one.\<close>

inductive mpsc_step :: "'d mpsc \<Rightarrow> 'd mpsc \<Rightarrow> bool" where
  exchange: "ms_pending s p = None \<Longrightarrow> mpsc_step s (Enqueue_exchange p d s)"
| link: "Enqueue_link p s = Inr s' \<Longrightarrow> mpsc_step s s'"
| dequeue: "Dequeue s = Inr (r, s') \<Longrightarrow> mpsc_step s s'"

inductive_cases mpsc_step_cases: "mpsc_step s s'"

text \<open>A successful \<open>Dequeue\<close> frees a node, so the loop of the destructor ends.\<close>

lemma Dequeue_frees: "Dequeue s = Inr (Some d, s') \<Longrightarrow> length (ms_alive s') < length (ms_alive s)"
  by (auto simp: Dequeue_def length_removeAll_less split: if_splits option.splits)

text \<open>
  The destructor: the elements that are still queued are deleted, they are returned in this
  order, and then the last node.
\<close>

function MPSC_delete :: "'d mpsc \<Rightarrow> ('d list \<times> 'd mpsc) result" where
  "MPSC_delete s =
     (case Dequeue s of
        Inl e \<Rightarrow> Inl e
      | Inr (Some d, s') \<Rightarrow> rbind (MPSC_delete s') (\<lambda>(ds, s''). Inr (d # ds, s''))
      | Inr (None, s') \<Rightarrow>
          if ms_head s' \<in> set (ms_alive s')
          then Inr ([], s'\<lparr>ms_alive := removeAll (ms_head s') (ms_alive s')\<rparr>)
          else Inl UndefinedBehaviour)"
  by pat_completeness auto
termination
  by (relation "measure (\<lambda>s. length (ms_alive s))") (auto dest!: Dequeue_frees)

declare MPSC_delete.simps [simp del]

section \<open>The chain of nodes\<close>

text \<open>
  The invariant: the nodes from the tail to the head, in the order of the exchanges, are
  the nodes alive; each link is stored or its producer still has to store it; what was
  enqueued is what was dequeued followed by the data in the chain after the tail.
\<close>

definition mpsc_chain :: "'d mpsc \<Rightarrow> nat list \<Rightarrow> bool" where
  "mpsc_chain s ns \<longleftrightarrow> linked (ms_next s) (ms_pending s) ns \<and>
     hd ns = ms_tail s \<and> last ns = ms_head s \<and>
     set ns = set (ms_alive s) \<and> (\<forall>n\<in>set ns. n < ms_fresh s) \<and>
     (map Some (ms_in s) = map Some (ms_out s) @ map (ms_data s) (tl ns))"

definition queued_data :: "'d mpsc \<Rightarrow> nat list \<Rightarrow> 'd list" where
  "queued_data s ns = map (the \<circ> ms_data s) (tl ns)"

lemma chainD:
  assumes "mpsc_chain s ns"
  shows "linked (ms_next s) (ms_pending s) ns" "hd ns = ms_tail s" "last ns = ms_head s"
    and "set ns = set (ms_alive s)" "n \<in> set ns \<Longrightarrow> n < ms_fresh s"
    and "map Some (ms_in s) = map Some (ms_out s) @ map (ms_data s) (tl ns)"
  using assms unfolding mpsc_chain_def by auto

lemma chain_tail_next:
  assumes "mpsc_chain s ns" "ms_next s (ms_tail s) = Some n"
  shows "\<exists>rest. ns = ms_tail s # n # rest"
  using linked_hd_next [OF chainD(1) [OF assms(1)]] assms(2) by (simp add: chainD(2) [OF assms(1)])

lemma chain_exchange:
  assumes c: "mpsc_chain s ns" and p: "ms_pending s p = None"
  shows "mpsc_chain (Enqueue_exchange p d s) (ns @ [ms_fresh s])"
proof -
  have fresh: "ms_fresh s \<notin> set ns" using chainD(5) [OF c] by auto
  note ne = linkedD(1) [OF chainD(1) [OF c]]
  have dat: "map ((ms_data s)(ms_fresh s := Some d)) (tl ns) = map (ms_data s) (tl ns)"
    using fresh by (auto dest: list.set_sel(2) [OF ne])
  show ?thesis
    using linked_exchange [OF chainD(1) [OF c] p fresh] chainD(2-6) [OF c] ne dat
    by (auto simp: mpsc_chain_def Enqueue_exchange_def Let_def less_Suc_eq)
qed

lemma chain_link:
  assumes c: "mpsc_chain s ns" and step: "Enqueue_link p s = Inr s'"
  shows "mpsc_chain s' ns"
proof (cases "ms_pending s p")
  case None
  with assms show ?thesis by (simp add: Enqueue_link_def)
next
  case (Some ab)
  obtain a b where "ab = (a, b)" by (cases ab)
  with Some step chainD(2-6) [OF c] linked_store [OF chainD(1) [OF c], of p a b] show ?thesis
    by (auto simp: Enqueue_link_def mpsc_chain_def split: if_splits)
qed

lemma chain_dequeue:
  assumes c: "mpsc_chain s ns" and step: "Dequeue s = Inr (r, s')"
  shows "mpsc_chain s' (if r = None then ns else tl ns)"
proof (cases "ms_next s (ms_tail s)")
  case None
  with assms show ?thesis by (auto simp: Dequeue_def split: if_splits)
next
  case (Some n)
  then obtain d where d: "ms_data s n = Some d" and r: "r = Some d" and
    s': "s' = s\<lparr>ms_tail := n, ms_alive := removeAll (ms_tail s) (ms_alive s), ms_out := ms_out s @ [d]\<rparr>"
    using step by (auto simp: Dequeue_def split: if_splits option.splits)
  from chain_tail_next [OF c Some] obtain rest where ns: "ns = ms_tail s # n # rest" by blast
  have "linked (ms_next s) (ms_pending s) (n # rest)"
    using linked_advance [OF chainD(1) [OF c]] Some chainD(2) [OF c] by (simp add: ns)
  moreover have "set (n # rest) = set (removeAll (ms_tail s) (ms_alive s))"
    using chainD(4) [OF c] linkedD(2) [OF chainD(1) [OF c]] by (auto simp: ns)
  ultimately show ?thesis
    using d r chainD(3,6) [OF c] chainD(5) [OF c] by (simp add: mpsc_chain_def s' ns)
qed

lemma chain_queued:
  assumes "mpsc_chain s ns"
  shows "ms_in s = ms_out s @ queued_data s ns" "map (ms_data s) (tl ns) = map Some (queued_data s ns)"
proof -
  note m = chainD(6) [OF assms]
  then have "map the (map Some (ms_in s)) = map the (map Some (ms_out s) @ map (ms_data s) (tl ns))"
    by simp
  then show io: "ms_in s = ms_out s @ queued_data s ns"
    by (simp add: queued_data_def comp_def)
  with m show "map (ms_data s) (tl ns) = map Some (queued_data s ns)"
    by simp
qed

interpretation mpsc: delivers MPSC_new mpsc_step mpsc_chain ms_in ms_out queued_data
proof
  have "mpsc_chain MPSC_new [0]" by (simp add: mpsc_chain_def MPSC_new_def linked_start)
  then show "\<exists>c. mpsc_chain MPSC_new c" by blast
next
  fix s s' :: "'d mpsc" and c
  assume "mpsc_chain s c" "mpsc_step s s'"
  then show "\<exists>c'. mpsc_chain s' c'"
    by (auto elim!: mpsc_step_cases dest: chain_exchange chain_link chain_dequeue)
qed (rule chain_queued(1))

lemma chain_safe:
  assumes c: "mpsc_chain s ns"
  shows "is_ok (Enqueue_link p s)" "is_ok (Dequeue s)"
proof -
  note l = chainD(1) [OF c]
  show "is_ok (Enqueue_link p s)"
  proof (cases "ms_pending s p")
    case (Some ab)
    then obtain a b where ab: "ms_pending s p = Some (a, b)" by (cases ab) auto
    with links_mem [OF linkedD(5) [OF l ab]] chainD(4) [OF c] show ?thesis
      by (simp add: Enqueue_link_def)
  qed (simp add: Enqueue_link_def)
  have tail: "ms_tail s \<in> set (ms_alive s)" using linkedD(1) [OF l] chainD(2,4) [OF c] hd_in_set by fastforce
  show "is_ok (Dequeue s)"
  proof (cases "ms_next s (ms_tail s)")
    case None
    with tail show ?thesis by (simp add: Dequeue_def)
  next
    case (Some n)
    from chain_tail_next [OF c Some] obtain rest where ns: "ns = ms_tail s # n # rest" by blast
    have "\<exists>d. ms_data s n = Some d"
      using chain_queued(2) [OF c] by (auto simp: ns map_eq_Cons_conv Cons_eq_map_conv)
    moreover have "n \<in> set (ms_alive s)" using chainD(4) [OF c] ns by auto
    ultimately show ?thesis using Some tail by (auto simp: Dequeue_def)
  qed
qed

text \<open>What \<open>Dequeue\<close> returns: the first element queued, and nothing only if its link is missing.\<close>

lemma dequeue_result:
  assumes c: "mpsc_chain s ns"
  shows "\<exists>r s'. Dequeue s = Inr (r, s') \<and> (r = None \<longleftrightarrow> ms_next s (ms_tail s) = None) \<and>
    (r \<noteq> None \<longrightarrow> queued_data s ns \<noteq> [] \<and> r = Some (hd (queued_data s ns)))"
proof -
  from chain_safe(2) [OF c] obtain r s' where deq: "Dequeue s = Inr (r, s')" by (auto simp: is_ok_iff)
  show ?thesis
  proof (cases "ms_next s (ms_tail s)")
    case None
    with deq show ?thesis by (auto simp: Dequeue_def split: if_splits)
  next
    case (Some n)
    from chain_tail_next [OF c Some] obtain rest where ns: "ns = ms_tail s # n # rest" by blast
    from deq Some obtain d where "ms_data s n = Some d" "r = Some d"
      by (auto simp: Dequeue_def split: if_splits option.splits)
    with Some deq show ?thesis
      by (simp add: queued_data_def ns)
  qed
qed

lemma chain_settled:
  assumes c: "mpsc_chain s ns" and "\<forall>q. ms_pending s q = None"
  shows "ms_next s (ms_tail s) = None \<longleftrightarrow> queued_data s ns = []"
  using linked_settled [OF chainD(1) [OF c] assms(2)] by (simp add: chainD(2) [OF c] queued_data_def)

section \<open>Properties\<close>

text \<open>
  C8: the lock-free queue is a queue and is memory safe under every interleaving of its
  producers and its consumer: what has been dequeued is a prefix of what was enqueued in
  the order of the head exchanges, no action touches a node that was deleted, and once no
  producer is between its two actions, \<open>Dequeue\<close> finds an item exactly when one is queued.
\<close>
theorem mpsc_queue_correct:
  assumes "mpsc_step\<^sup>*\<^sup>* MPSC_new s"
  shows "\<exists>rest. ms_in s = ms_out s @ rest \<and> is_ok (Enqueue_link p s) \<and>
    (\<exists>r s'. Dequeue s = Inr (r, s') \<and> (r \<noteq> None \<longrightarrow> rest \<noteq> [] \<and> r = Some (hd rest)) \<and>
      ((\<forall>q. ms_pending s q = None) \<longrightarrow> (r = None \<longleftrightarrow> rest = [])))"
proof -
  from mpsc.reachable_accounts [OF assms] obtain ns where
    c: "mpsc_chain s ns" and io: "ms_in s = ms_out s @ queued_data s ns" by blast
  from dequeue_result [OF c] chain_settled [OF c] chain_safe(1) [OF c, of p] io show ?thesis
    by blast
qed

lemma witness_mpsc_step: "mpsc_step\<^sup>*\<^sup>* MPSC_new (Enqueue_exchange 7 True MPSC_new)"
  by (rule r_into_rtranclp, rule mpsc_step.exchange) (simp add: MPSC_new_def)

theorem mpsc_queue_correct_witness:
  "is_ok (Enqueue_link 7 (Enqueue_exchange 7 True MPSC_new))"
  using mpsc_queue_correct [OF witness_mpsc_step, of 7] by blast

text \<open>Between two actions of the consumer the pending producers stay as they are.\<close>

lemma Dequeue_pending: "Dequeue s = Inr (r, s') \<Longrightarrow> ms_pending s' = ms_pending s \<and> ms_in s' = ms_in s"
  by (auto simp: Dequeue_def split: if_splits option.splits)

lemma delete_drains:
  assumes "mpsc_chain s ns" "\<forall>q. ms_pending s q = None"
  shows "\<exists>s'. MPSC_delete s = Inr (queued_data s ns, s') \<and> ms_alive s' = []"
  using assms
proof (induction s arbitrary: ns rule: MPSC_delete.induct)
  case (1 s)
  note c = 1(2) and idle = 1(3)
  from dequeue_result [OF c] chain_settled [OF c idle] obtain r s' where
    deq: "Dequeue s = Inr (r, s')" and none: "r = None \<longleftrightarrow> queued_data s ns = []" and
    some: "r \<noteq> None \<longrightarrow> r = Some (hd (queued_data s ns))" by blast
  note c' = chain_dequeue [OF c deq] and p' = Dequeue_pending [OF deq]
  show ?case
  proof (cases r)
    case None
    with deq c' have c': "mpsc_chain s' ns" by simp
    have "tl ns = []" using none None by (simp add: queued_data_def)
    with linkedD(1) [OF chainD(1) [OF c']] have "ns = [last ns]" by (cases ns) auto
    with chainD(3,4) [OF c'] have "set (ms_alive s') = {ms_head s'}" by (metis empty_set list.simps(15))
    then have "ms_head s' \<in> set (ms_alive s')" "removeAll (ms_head s') (ms_alive s') = []"
      by (auto simp: filter_empty_conv removeAll_filter_not_eq)
    with None none deq show ?thesis by (simp add: MPSC_delete.simps [of s])
  next
    case (Some d)
    with c' have c': "mpsc_chain s' (tl ns)" by simp
    from 1(1) [OF deq refl Some c'] p' idle obtain s'' where
      rec: "MPSC_delete s' = Inr (queued_data s' (tl ns), s'')" "ms_alive s'' = []" by auto
    have out: "ms_out s' = ms_out s @ [d]"
      using deq Some by (auto simp: Dequeue_def split: if_splits option.splits)
    have "queued_data s ns = d # queued_data s' (tl ns)"
      using chain_queued(1) [OF c] chain_queued(1) [OF c'] p' out by simp
    with rec Some deq show ?thesis by (simp add: MPSC_delete.simps [of s])
  qed
qed

text \<open>
  The destructor of the lock-free queue, once no producer is active, deletes each element
  that is still queued exactly once, in order, and frees every node.
\<close>
theorem mpsc_delete_frees:
  assumes "mpsc_step\<^sup>*\<^sup>* MPSC_new s" "\<forall>q. ms_pending s q = None"
  shows "\<exists>ds s'. MPSC_delete s = Inr (ds, s') \<and> ms_in s = ms_out s @ ds \<and> ms_alive s' = []"
proof -
  from mpsc.reachable_accounts [OF assms(1)] obtain ns where
    "mpsc_chain s ns" "ms_in s = ms_out s @ queued_data s ns" by blast
  with delete_drains [OF _ assms(2)] show ?thesis by blast
qed

theorem mpsc_delete_frees_witness:
  "\<exists>ds s'. MPSC_delete (MPSC_new :: bool mpsc) = Inr (ds, s') \<and> [] = [] @ ds \<and> ms_alive s' = []"
  using mpsc_delete_frees [of "MPSC_new :: bool mpsc"] by (simp add: MPSC_new_def)

end
