(* ===== verification/MPSCIntrusive.thy ===== *)
theory MPSCIntrusive
  imports LinkedChain
begin

text \<open>
  \<^verbatim>\<open>src/common/Threading/MPSCQueue.h\<close>, \<open>MPSCQueueIntrusive\<close>: the lock-free queue whose links are
  members of the elements.  It owns no nodes but one, the dummy, which the consumer puts
  back at the head whenever it takes the last element.

  \<open>Dequeue\<close> reads memory of the producers several times, so it is a sequence of atomic
  actions too: \<open>iq_pc\<close> is the place the consumer has reached in it.  The accesses in one
  action touch, apart from one, only what the consumer (or, in \<open>Enqueue\<close>, the producer)
  owns.
\<close>

section \<open>The queue and its atomic actions\<close>

text \<open>
  An element is its address; the dummy is address 0.  \<open>iq_owned\<close> are the elements given to the
  queue and not yet handed out: only these and the dummy may be touched, the rest may have
  been deleted.  The consumer takes part in \<open>iq_pending\<close> as thread 0 for its own \<open>Enqueue\<close>.
\<close>

definition dummy :: nat where
  "dummy = 0"

definition consumer :: nat where
  "consumer = 0"

datatype place =
    Idle            \<comment> \<open>outside of \<open>Dequeue\<close>\<close>
  | Skipped nat     \<comment> \<open>the dummy was skipped: before the load of \<open>next->IntrusiveLink\<close>\<close>
  | LoadHead nat    \<comment> \<open>before the load of the head\<close>
  | PutDummy nat    \<comment> \<open>before \<open>Enqueue(_dummyPtr)\<close>\<close>
  | LinkDummy nat   \<comment> \<open>between the two actions of \<open>Enqueue(_dummyPtr)\<close>\<close>
  | Reload nat      \<comment> \<open>before the last load of \<open>tail->IntrusiveLink\<close>\<close>

record intrusive =
  iq_link :: "nat \<Rightarrow> nat option"
  iq_head :: nat
  iq_tail :: nat
  iq_owned :: "nat list"
  iq_pending :: "nat \<Rightarrow> (nat \<times> nat) option"
  iq_pc :: place
  iq_result :: "nat option"
  iq_in :: "nat list"
  iq_out :: "nat list"

definition Intrusive_new :: intrusive where
  "Intrusive_new = \<lparr>iq_link = \<lambda>_. None, iq_head = dummy, iq_tail = dummy, iq_owned = [],
     iq_pending = \<lambda>_. None, iq_pc = Idle, iq_result = None, iq_in = [], iq_out = []\<rparr>"

text \<open>\<open>Enqueue\<close>: the element's link is cleared and the head exchanged, by thread \<open>p\<close> \<dots>\<close>

definition Intrusive_exchange :: "nat \<Rightarrow> nat \<Rightarrow> intrusive \<Rightarrow> intrusive" where
  "Intrusive_exchange p input s =
     s\<lparr>iq_link := (iq_link s)(input := None), iq_head := input,
       iq_pending := (iq_pending s)(p := Some (iq_head s, input))\<rparr>"

definition valid_node :: "intrusive \<Rightarrow> nat \<Rightarrow> bool" where
  "valid_node s n \<longleftrightarrow> n = dummy \<or> n \<in> set (iq_owned s)"

text \<open>\<dots> and the link of the former head is stored.\<close>

definition Intrusive_link :: "nat \<Rightarrow> intrusive \<Rightarrow> intrusive result" where
  "Intrusive_link p s =
     (case iq_pending s p of
        None \<Rightarrow> Inr s
      | Some (prevHead, input) \<Rightarrow>
          if valid_node s prevHead
          then Inr (s\<lparr>iq_link := (iq_link s)(prevHead := Some input),
                      iq_pending := (iq_pending s)(p := None)\<rparr>)
          else Inl UndefinedBehaviour)"

text \<open>A producer gives an element to the queue.\<close>

definition Producer_exchange :: "nat \<Rightarrow> nat \<Rightarrow> intrusive \<Rightarrow> intrusive" where
  "Producer_exchange p input s =
     (Intrusive_exchange p input s)\<lparr>iq_owned := input # iq_owned s, iq_in := iq_in s @ [input]\<rparr>"

definition Intrusive_Enqueue :: "nat \<Rightarrow> nat \<Rightarrow> intrusive \<Rightarrow> intrusive result" where
  "Intrusive_Enqueue p input s = Intrusive_link p (Producer_exchange p input s)"

text \<open>The ends of \<open>Dequeue\<close>: \<open>return false\<close>, and \<open>_tail.store(next); result = tail; return true\<close>.\<close>

definition return_false :: "intrusive \<Rightarrow> intrusive" where
  "return_false s = s\<lparr>iq_pc := Idle, iq_result := None\<rparr>"

definition return_tail :: "nat \<Rightarrow> nat \<Rightarrow> intrusive \<Rightarrow> intrusive" where
  "return_tail tail next s =
     s\<lparr>iq_pc := Idle, iq_result := Some tail, iq_tail := next,
       iq_owned := removeAll tail (iq_owned s), iq_out := iq_out s @ [tail]\<rparr>"

definition load_link :: "nat \<Rightarrow> intrusive \<Rightarrow> nat option result" where
  "load_link n s = (if valid_node s n then Inr (iq_link s n) else Inl UndefinedBehaviour)"

text \<open>The next action of \<open>Dequeue\<close>.\<close>

definition Dequeue_act :: "intrusive \<Rightarrow> intrusive result" where
  "Dequeue_act s =
     (case iq_pc s of
        Idle \<Rightarrow>
          (let tail = iq_tail s
           in rbind (load_link tail s) (\<lambda>next.
                if tail = dummy then
                  (case next of
                     None \<Rightarrow> Inr (return_false s)
                   | Some n \<Rightarrow> Inr (s\<lparr>iq_tail := n, iq_pc := Skipped n\<rparr>))
                else (case next of
                     None \<Rightarrow> Inr (s\<lparr>iq_pc := LoadHead tail\<rparr>)
                   | Some n \<Rightarrow> Inr (return_tail tail n s))))
      | Skipped tail \<Rightarrow>
          rbind (load_link tail s) (\<lambda>next.
            case next of
              None \<Rightarrow> Inr (s\<lparr>iq_pc := LoadHead tail\<rparr>)
            | Some n \<Rightarrow> Inr (return_tail tail n s))
      | LoadHead tail \<Rightarrow>
          Inr (if tail \<noteq> iq_head s then return_false s else s\<lparr>iq_pc := PutDummy tail\<rparr>)
      | PutDummy tail \<Rightarrow> Inr ((Intrusive_exchange consumer dummy s)\<lparr>iq_pc := LinkDummy tail\<rparr>)
      | LinkDummy tail \<Rightarrow> rbind (Intrusive_link consumer s) (\<lambda>s. Inr (s\<lparr>iq_pc := Reload tail\<rparr>))
      | Reload tail \<Rightarrow>
          rbind (load_link tail s) (\<lambda>next.
            case next of
              None \<Rightarrow> Inr (return_false s)
            | Some n \<Rightarrow> Inr (return_tail tail n s)))"

text \<open>\<open>Dequeue\<close> run to its end without interruption.\<close>

fun remaining :: "place \<Rightarrow> nat" where
  "remaining Idle = 0"
| "remaining (Reload _) = 1"
| "remaining (LinkDummy _) = 2"
| "remaining (PutDummy _) = 3"
| "remaining (LoadHead _) = 4"
| "remaining (Skipped _) = 5"

lemma Intrusive_link_frame:
  "Intrusive_link p s = Inr s' \<Longrightarrow> \<exists>l q. s' = s\<lparr>iq_link := l, iq_pending := q\<rparr>"
  by (cases s) (fastforce simp: Intrusive_link_def split: option.splits if_splits)

lemma Dequeue_act_progress:
  assumes "Dequeue_act s = Inr s'" "iq_pc s \<noteq> Idle"
  shows "remaining (iq_pc s') < remaining (iq_pc s)"
  using assms
  by (auto simp: Dequeue_act_def return_false_def return_tail_def rbind_eq_Inr Intrusive_exchange_def
      split: place.splits option.splits if_splits dest: Intrusive_link_frame)

function Dequeue_rest :: "intrusive \<Rightarrow> intrusive result" where
  "Dequeue_rest s =
     (if iq_pc s = Idle then Inr s
      else case Dequeue_act s of Inl e \<Rightarrow> Inl e | Inr s' \<Rightarrow> Dequeue_rest s')"
  by pat_completeness auto
termination
  by (relation "measure (\<lambda>s. remaining (iq_pc s))") (auto dest: Dequeue_act_progress)

declare Dequeue_rest.simps [simp del]

definition Intrusive_Dequeue :: "intrusive \<Rightarrow> intrusive result" where
  "Intrusive_Dequeue s = rbind (Dequeue_act s) Dequeue_rest"

text \<open>
  The interleavings.  A producer gives only elements that are not in the queue already and
  starts a new \<open>Enqueue\<close> after it finished its last one.
\<close>

inductive intrusive_step :: "intrusive \<Rightarrow> intrusive \<Rightarrow> bool" where
  exchange: "iq_pending s p = None \<Longrightarrow> p \<noteq> consumer \<Longrightarrow> x \<noteq> dummy \<Longrightarrow> x \<notin> set (iq_owned s)
    \<Longrightarrow> intrusive_step s (Producer_exchange p x s)"
| link: "p \<noteq> consumer \<Longrightarrow> Intrusive_link p s = Inr s' \<Longrightarrow> intrusive_step s s'"
| dequeue: "Dequeue_act s = Inr s' \<Longrightarrow> intrusive_step s s'"

text \<open>
  The destructor deletes what \<open>Dequeue\<close> still returns; it is only run when no other thread uses
  the queue.
\<close>

partial_function (option) Intrusive_delete :: "intrusive \<Rightarrow> (nat list \<times> intrusive) result option" where
  "Intrusive_delete s =
     (case Intrusive_Dequeue s of
        Inl e \<Rightarrow> Some (Inl e)
      | Inr s' \<Rightarrow>
          (case iq_result s' of
             None \<Rightarrow> Some (Inr ([], s'))
           | Some x \<Rightarrow>
               Option.bind (Intrusive_delete s') (\<lambda>r. Some (rbind r (\<lambda>(xs, s''). Inr (x # xs, s''))))))"

section \<open>The chain of elements\<close>

text \<open>
  At each place of \<open>Dequeue\<close> the local \<open>tail\<close> is \<open>_tail\<close> and an element; the dummy is out of the
  chain when it is about to be put there.
\<close>

fun place_ok :: "intrusive \<Rightarrow> nat list \<Rightarrow> place \<Rightarrow> bool" where
  "place_ok s ns Idle \<longleftrightarrow> iq_pending s consumer = None"
| "place_ok s ns (Skipped t) \<longleftrightarrow> t = iq_tail s \<and> t \<noteq> dummy \<and> iq_pending s consumer = None"
| "place_ok s ns (LoadHead t) \<longleftrightarrow> t = iq_tail s \<and> t \<noteq> dummy \<and> iq_pending s consumer = None"
| "place_ok s ns (PutDummy t) \<longleftrightarrow>
     t = iq_tail s \<and> t \<noteq> dummy \<and> iq_pending s consumer = None \<and> dummy \<notin> set ns"
| "place_ok s ns (LinkDummy t) \<longleftrightarrow> t = iq_tail s \<and> t \<noteq> dummy"
| "place_ok s ns (Reload t) \<longleftrightarrow> t = iq_tail s \<and> t \<noteq> dummy \<and> iq_pending s consumer = None"

definition elements :: "nat list \<Rightarrow> nat list" where
  "elements ns = filter (\<lambda>n. n \<noteq> dummy) ns"

definition intrusive_chain :: "intrusive \<Rightarrow> nat list \<Rightarrow> bool" where
  "intrusive_chain s ns \<longleftrightarrow> linked (iq_link s) (iq_pending s) ns \<and>
     hd ns = iq_tail s \<and> last ns = iq_head s \<and> set (iq_owned s) = set (elements ns) \<and>
     iq_in s = iq_out s @ elements ns \<and> place_ok s ns (iq_pc s)"

lemma ichainD:
  assumes "intrusive_chain s ns"
  shows "linked (iq_link s) (iq_pending s) ns" "hd ns = iq_tail s" "last ns = iq_head s"
    and "set (iq_owned s) = set (elements ns)" "iq_in s = iq_out s @ elements ns"
    and "place_ok s ns (iq_pc s)"
  using assms unfolding intrusive_chain_def by auto

lemma ichain_valid: "intrusive_chain s ns \<Longrightarrow> n \<in> set ns \<Longrightarrow> valid_node s n"
  by (auto simp: valid_node_def intrusive_chain_def elements_def)

lemma ichain_tail:
  assumes "intrusive_chain s ns"
  shows "load_link (iq_tail s) s = Inr (iq_link s (iq_tail s))"
proof -
  have "iq_tail s \<in> set ns"
    using hd_in_set [OF linkedD(1) [OF ichainD(1) [OF assms]]] ichainD(2) [OF assms] by simp
  from ichain_valid [OF assms this] show ?thesis by (simp add: load_link_def)
qed

lemma ichain_link_ok:
  assumes c: "intrusive_chain s ns"
  shows "is_ok (Intrusive_link p s)"
proof (cases "iq_pending s p")
  case (Some ab)
  then obtain a b where ab: "iq_pending s p = Some (a, b)" by (cases ab) auto
  with ichain_valid [OF c] links_mem [OF linkedD(5) [OF ichainD(1) [OF c] ab]] show ?thesis
    by (simp add: Intrusive_link_def)
qed (simp add: Intrusive_link_def)

lemma ichain_exchange:
  assumes c: "intrusive_chain s ns" and p: "iq_pending s p = None" "p \<noteq> consumer"
    and x: "x \<noteq> dummy" "x \<notin> set (iq_owned s)"
  shows "intrusive_chain (Producer_exchange p x s) (ns @ [x])"
proof -
  have "x \<notin> set ns" using x ichainD(4) [OF c] by (auto simp: elements_def)
  note l = linked_exchange [OF ichainD(1) [OF c] p(1) this]
  have "place_ok (Producer_exchange p x s) (ns @ [x]) (iq_pc s)"
    using ichainD(6) [OF c] p(2) x(1)
    by (cases "iq_pc s") (simp_all add: Producer_exchange_def Intrusive_exchange_def)
  with l ichainD(2-5) [OF c] x(1) linkedD(1) [OF ichainD(1) [OF c]] show ?thesis
    by (auto simp: intrusive_chain_def Producer_exchange_def Intrusive_exchange_def elements_def)
qed

lemma ichain_link:
  assumes c: "intrusive_chain s ns" and step: "Intrusive_link p s = Inr s'" and p: "p \<noteq> consumer"
  shows "intrusive_chain s' ns"
proof (cases "iq_pending s p")
  case None
  with assms show ?thesis by (simp add: Intrusive_link_def)
next
  case (Some ab)
  obtain a b where ab: "ab = (a, b)" by (cases ab)
  with Some step have s': "s' = s\<lparr>iq_link := (iq_link s)(a := Some b), iq_pending := (iq_pending s)(p := None)\<rparr>"
    by (auto simp: Intrusive_link_def split: if_splits)
  have "place_ok s' ns (iq_pc s)"
    using ichainD(6) [OF c] p by (cases "iq_pc s") (simp_all add: s')
  with linked_store [OF ichainD(1) [OF c], of p a b] Some ab ichainD(2-5) [OF c] show ?thesis
    by (simp add: intrusive_chain_def s')
qed

text \<open>The consumer takes its tail out of the chain: an element is handed out, the dummy skipped.\<close>

lemma ichain_return:
  assumes c: "intrusive_chain s ns" and n: "iq_link s (iq_tail s) = Some n"
    and t: "iq_tail s \<noteq> dummy" "iq_pending s consumer = None"
  shows "intrusive_chain (return_tail (iq_tail s) n s) (tl ns)"
proof -
  note l = ichainD(1) [OF c]
  from linked_hd_next [OF l] n ichainD(2) [OF c] obtain rest where ns: "ns = iq_tail s # n # rest" by auto
  have "linked (iq_link s) (iq_pending s) (n # rest)"
    using linked_advance [OF l] n ichainD(2) [OF c] by (simp add: ns)
  moreover have "set (removeAll (iq_tail s) (iq_owned s)) = set (elements (n # rest))"
    using ichainD(4) [OF c] linkedD(2) [OF l] by (auto simp: ns elements_def split: if_splits)
  ultimately show ?thesis
    using ichainD(3,5) [OF c] t by (simp add: intrusive_chain_def return_tail_def ns elements_def)
qed

lemma ichain_skip:
  assumes c: "intrusive_chain s ns" and n: "iq_link s (iq_tail s) = Some n"
    and t: "iq_tail s = dummy" "iq_pending s consumer = None"
  shows "intrusive_chain (s\<lparr>iq_tail := n, iq_pc := Skipped n\<rparr>) (tl ns)"
proof -
  note l = ichainD(1) [OF c]
  from linked_hd_next [OF l] n ichainD(2) [OF c] t obtain rest where ns: "ns = dummy # n # rest" by auto
  have "linked (iq_link s) (iq_pending s) (n # rest)"
    using linked_advance [OF l] n ichainD(2) [OF c] by (simp add: ns)
  with ichainD(3-5) [OF c] linkedD(2) [OF l] t show ?thesis
    by (auto simp: intrusive_chain_def ns elements_def)
qed

text \<open>The dummy goes back into the chain.\<close>

lemma ichain_put_dummy:
  assumes c: "intrusive_chain s ns" and pc: "iq_pc s = PutDummy t"
  shows "intrusive_chain ((Intrusive_exchange consumer dummy s)\<lparr>iq_pc := LinkDummy t\<rparr>) (ns @ [dummy])"
proof -
  from ichainD(6) [OF c] pc have t: "t = iq_tail s" "t \<noteq> dummy" "iq_pending s consumer = None" "dummy \<notin> set ns"
    by simp_all
  from linked_exchange [OF ichainD(1) [OF c] t(3,4)] ichainD(2-5) [OF c] t linkedD(1) [OF ichainD(1) [OF c]]
  show ?thesis
    by (auto simp: intrusive_chain_def Intrusive_exchange_def elements_def)
qed

lemma ichain_link_dummy:
  assumes c: "intrusive_chain s ns" and pc: "iq_pc s = LinkDummy t" and step: "Intrusive_link consumer s = Inr s'"
  shows "intrusive_chain (s'\<lparr>iq_pc := Reload t\<rparr>) ns"
proof (cases "iq_pending s consumer")
  case None
  with c pc step show ?thesis by (auto simp: Intrusive_link_def intrusive_chain_def)
next
  case (Some ab)
  obtain a b where ab: "ab = (a, b)" by (cases ab)
  with Some step have s': "s' = s\<lparr>iq_link := (iq_link s)(a := Some b), iq_pending := (iq_pending s)(consumer := None)\<rparr>"
    by (auto simp: Intrusive_link_def split: if_splits)
  with linked_store [OF ichainD(1) [OF c], of consumer a b] Some ab ichainD(2-6) [OF c] pc show ?thesis
    by (simp add: intrusive_chain_def s')
qed

lemma ichain_pc:
  assumes "intrusive_chain s ns" "place_ok s ns pc"
  shows "intrusive_chain (s\<lparr>iq_pc := pc\<rparr>) ns"
  using assms by (cases pc) (simp_all add: intrusive_chain_def)

lemma ichain_false:
  "intrusive_chain s ns \<Longrightarrow> iq_pending s consumer = None \<Longrightarrow> intrusive_chain (return_false s) ns"
  by (simp add: intrusive_chain_def return_false_def)

text \<open>A tail that is the head is the only node.\<close>

lemma ichain_only:
  assumes "intrusive_chain s ns" "iq_tail s = iq_head s"
  shows "ns = [iq_tail s]"
  using ichainD(1-3) [OF assms(1)] linkedD(1,2) [OF ichainD(1) [OF assms(1)]] assms(2)
  by (cases ns) (auto split: if_splits dest: last_in_set)

text \<open>Every action of the consumer is safe and keeps the invariant.\<close>

lemma ichain_act:
  assumes c: "intrusive_chain s ns"
  shows "\<exists>s' ns'. Dequeue_act s = Inr s' \<and> intrusive_chain s' ns'"
proof -
  note ok = ichainD(6) [OF c] and ld = ichain_tail [OF c]
  let ?next = "iq_link s (iq_tail s)"
  have load_head: "intrusive_chain (s\<lparr>iq_pc := LoadHead (iq_tail s)\<rparr>) ns"
    if "iq_tail s \<noteq> dummy" "iq_pending s consumer = None"
    using ichain_pc [OF c, of "LoadHead (iq_tail s)"] that by simp
  show ?thesis
  proof (cases "iq_pc s")
    case Idle
    with ok have p: "iq_pending s consumer = None" by simp
    from Idle ld p ichain_false [OF c] ichain_skip [OF c] ichain_return [OF c] load_head show ?thesis
      by (cases ?next; cases "iq_tail s = dummy") (auto simp: Dequeue_act_def)
  next
    case (Skipped t)
    with ok ld ichain_return [OF c] load_head show ?thesis
      by (cases ?next) (auto simp: Dequeue_act_def)
  next
    case (LoadHead t)
    with ok have t: "t = iq_tail s" "t \<noteq> dummy" "iq_pending s consumer = None" by simp_all
    have "intrusive_chain (s\<lparr>iq_pc := PutDummy t\<rparr>) ns" if "t = iq_head s"
      using ichain_only [OF c] that t by (intro ichain_pc [OF c]) auto
    with LoadHead t ichain_false [OF c] show ?thesis by (auto simp: Dequeue_act_def)
  next
    case (PutDummy t)
    with ichain_put_dummy [OF c] show ?thesis by (auto simp: Dequeue_act_def)
  next
    case (LinkDummy t)
    from ichain_link_ok [OF c, of consumer] obtain s' where "Intrusive_link consumer s = Inr s'"
      by (auto simp: is_ok_iff)
    with LinkDummy ichain_link_dummy [OF c] show ?thesis by (auto simp: Dequeue_act_def)
  next
    case (Reload t)
    with ok ld ichain_return [OF c] ichain_false [OF c] show ?thesis
      by (cases ?next) (auto simp: Dequeue_act_def)
  qed
qed

interpretation intrusive: delivers Intrusive_new intrusive_step intrusive_chain iq_in iq_out "\<lambda>_. elements"
proof
  have "intrusive_chain Intrusive_new [dummy]"
    by (simp add: intrusive_chain_def Intrusive_new_def linked_start elements_def)
  then show "\<exists>c. intrusive_chain Intrusive_new c" by blast
next
  fix s s' :: intrusive and ns
  assume c: "intrusive_chain s ns" and "intrusive_step s s'"
  from this(2) show "\<exists>c'. intrusive_chain s' c'"
  proof cases
    case dequeue
    with ichain_act [OF c] show ?thesis by auto
  next
    case (exchange p x)
    with ichain_exchange [OF c] show ?thesis by auto
  next
    case (link p)
    with ichain_link [OF c] show ?thesis by blast
  qed
qed (simp add: intrusive_chain_def)

section \<open>Dequeue when nobody interferes\<close>

text \<open>Taking the only element: the dummy goes in behind it.\<close>

lemma dequeue_last:
  assumes c: "intrusive_chain s [t]" and pc: "iq_pc s = LoadHead t" and idle: "\<forall>q. iq_pending s q = None"
  shows "\<exists>s'. Dequeue_rest s = Inr s' \<and> intrusive_chain s' [dummy] \<and> iq_pc s' = Idle \<and>
    iq_result s' = Some t \<and> iq_in s' = iq_in s \<and> iq_out s' = iq_out s @ [t] \<and> (\<forall>q. iq_pending s' q = None)"
proof -
  from ichainD(2,3,4,6) [OF c] pc have t: "t \<noteq> dummy" "t = iq_tail s" "t = iq_head s" "t \<in> set (iq_owned s)"
    by (auto simp: elements_def)
  define s1 where "s1 = s\<lparr>iq_pc := PutDummy t\<rparr>"
  define s2 where "s2 = (Intrusive_exchange consumer dummy s1)\<lparr>iq_pc := LinkDummy t\<rparr>"
  define s3 where "s3 = s2\<lparr>iq_link := (iq_link s2)(t := Some dummy), iq_pending := (iq_pending s2)(consumer := None),
    iq_pc := Reload t\<rparr>"
  have a0: "Dequeue_act s = Inr s1" using pc t by (simp add: Dequeue_act_def s1_def)
  have a1: "Dequeue_act s1 = Inr s2" by (simp add: Dequeue_act_def s1_def s2_def)
  have a2: "Dequeue_act s2 = Inr s3"
    using t by (simp add: Dequeue_act_def s1_def s2_def s3_def Intrusive_link_def Intrusive_exchange_def valid_node_def)
  have a3: "Dequeue_act s3 = Inr (return_tail t dummy s3)"
    using t by (simp add: Dequeue_act_def load_link_def valid_node_def s3_def s2_def s1_def Intrusive_exchange_def)
  have "Dequeue_rest s = Inr (return_tail t dummy s3)"
    using pc by (simp add: Dequeue_rest.simps [of s] Dequeue_rest.simps [of s1] Dequeue_rest.simps [of s2]
        Dequeue_rest.simps [of s3] Dequeue_rest.simps [of "return_tail t dummy s3"] a0 a1 a2 a3)
      (simp add: s1_def s2_def s3_def return_tail_def)
  moreover have "intrusive_chain s1 [t]"
    using ichain_pc [OF c, of "PutDummy t"] t idle by (simp add: s1_def)
  then have "intrusive_chain s2 [t, dummy]"
    using ichain_put_dummy [of s1 "[t]" t] by (simp add: s2_def) (simp add: s1_def)
  then have "intrusive_chain s3 [t, dummy]"
    using ichain_link_dummy [of s2 "[t, dummy]" t] t
    by (simp add: s3_def) (simp add: s2_def s1_def Intrusive_link_def Intrusive_exchange_def valid_node_def)
  then have "intrusive_chain (return_tail t dummy s3) [dummy]"
    using ichain_return [of s3 "[t, dummy]" dummy] t
    by (simp add: s3_def s2_def s1_def Intrusive_exchange_def)
  ultimately show ?thesis
    using idle by (simp add: return_tail_def s3_def s2_def s1_def Intrusive_exchange_def)
qed

text \<open>From the point where the tail is an element, the element is handed out.\<close>

lemma dequeue_tail:
  assumes c: "intrusive_chain s ns" and pc: "iq_pc s = Idle \<and> iq_tail s \<noteq> dummy \<or> iq_pc s = Skipped (iq_tail s)"
    and idle: "\<forall>q. iq_pending s q = None"
  shows "\<exists>s' ns'. Intrusive_Dequeue s = Inr s' \<and> intrusive_chain s' ns' \<and> iq_pc s' = Idle \<and>
    iq_result s' = Some (iq_tail s) \<and> iq_in s' = iq_in s \<and> iq_out s' = iq_out s @ [iq_tail s] \<and>
    (\<forall>q. iq_pending s' q = None)"
proof -
  let ?t = "iq_tail s"
  note l = ichainD(1) [OF c]
  have t: "?t \<noteq> dummy" using pc ichainD(6) [OF c] by auto
  show ?thesis
  proof (cases "iq_link s ?t")
    case (Some n)
    then have act: "Dequeue_act s = Inr (return_tail ?t n s)"
      using pc t ichain_tail [OF c] by (auto simp: Dequeue_act_def Let_def)
    from ichain_return [OF c Some t] idle have "intrusive_chain (return_tail ?t n s) (tl ns)" by simp
    with act idle show ?thesis
      by (auto simp: Intrusive_Dequeue_def Dequeue_rest.simps return_tail_def)
  next
    case None
    then have act: "Dequeue_act s = Inr (s\<lparr>iq_pc := LoadHead ?t\<rparr>)"
      using pc t ichain_tail [OF c] by (auto simp: Dequeue_act_def Let_def)
    have "tl ns = []" using linked_settled [OF l idle] None ichainD(2) [OF c] by simp
    with linkedD(1) [OF l] ichainD(2) [OF c] have ns: "ns = [?t]" by (cases ns) auto
    with c t idle have "intrusive_chain (s\<lparr>iq_pc := LoadHead ?t\<rparr>) [?t]" by (intro ichain_pc) auto
    from dequeue_last [OF this] idle act show ?thesis
      by (auto simp: Intrusive_Dequeue_def)
  qed
qed

lemma dequeue_settled:
  assumes c: "intrusive_chain s ns" and pc: "iq_pc s = Idle" and idle: "\<forall>q. iq_pending s q = None"
  shows "\<exists>s' ns'. Intrusive_Dequeue s = Inr s' \<and> intrusive_chain s' ns' \<and> iq_pc s' = Idle \<and>
    iq_in s' = iq_in s \<and> (\<forall>q. iq_pending s' q = None) \<and>
    (case elements ns of [] \<Rightarrow> iq_result s' = None \<and> iq_out s' = iq_out s
     | x # _ \<Rightarrow> iq_result s' = Some x \<and> iq_out s' = iq_out s @ [x])"
proof -
  note l = ichainD(1) [OF c]
  from linkedD(1) [OF l] ichainD(2) [OF c] obtain rest where ns: "ns = iq_tail s # rest" by (cases ns) auto
  show ?thesis
  proof (cases "iq_tail s = dummy")
    case False
    with dequeue_tail [OF c _ idle] pc show ?thesis by (auto simp: ns elements_def)
  next
    case True
    note d = ichain_tail [OF c]
    show ?thesis
    proof (cases "iq_link s (iq_tail s)")
      case None
      then have "rest = []" using linked_settled [OF l idle] ns by simp
      moreover have "Dequeue_act s = Inr (return_false s)"
        using True None d pc by (simp add: Dequeue_act_def)
      ultimately show ?thesis
        using ichain_false [OF c] idle True
        by (auto simp: Intrusive_Dequeue_def Dequeue_rest.simps return_false_def ns elements_def)
    next
      case (Some n)
      let ?s = "s\<lparr>iq_tail := n, iq_pc := Skipped n\<rparr>"
      have act: "Dequeue_act s = Inr ?s" using True Some d pc by (simp add: Dequeue_act_def)
      from ichain_skip [OF c Some True] idle have c': "intrusive_chain ?s rest" by (simp add: ns)
      from linked_hd_next [OF l] Some obtain rest' where "rest = n # rest'" by (auto simp: ns)
      moreover have "n \<noteq> dummy" using ichainD(6) [OF c'] by simp
      moreover have "Intrusive_Dequeue s = Intrusive_Dequeue ?s"
        using act by (simp add: Intrusive_Dequeue_def Dequeue_rest.simps [of ?s] rbind_def)
      moreover note dequeue_tail [OF c']
      ultimately show ?thesis using idle True by (auto simp: ns elements_def)
    qed
  qed
qed

lemma intrusive_delete_drains:
  assumes "intrusive_chain s ns" "iq_pc s = Idle" "\<forall>q. iq_pending s q = None"
  shows "\<exists>s'. Intrusive_delete s = Some (Inr (elements ns, s')) \<and> iq_owned s' = []"
  using assms
proof (induction "elements ns" arbitrary: s ns)
  case Nil
  from dequeue_settled [OF Nil(2-4)] Nil(1) obtain s' ns' where
    deq: "Intrusive_Dequeue s = Inr s'" "iq_result s' = None" and c': "intrusive_chain s' ns'"
    and io: "iq_in s' = iq_in s" "iq_out s' = iq_out s" by (auto split: list.splits)
  have "elements ns' = []" using ichainD(5) [OF c'] ichainD(5) [OF Nil(2)] io Nil(1) by simp
  with ichainD(4) [OF c'] have "iq_owned s' = []" by simp
  with deq Nil(1) show ?case by (subst Intrusive_delete.simps) simp
next
  case (Cons x xs)
  from dequeue_settled [OF Cons(3-5)] Cons(2) [symmetric] obtain s' ns' where
    deq: "Intrusive_Dequeue s = Inr s'" "iq_result s' = Some x" and c': "intrusive_chain s' ns'"
    and io: "iq_in s' = iq_in s" "iq_out s' = iq_out s @ [x]"
    and idle: "iq_pc s' = Idle" "\<forall>q. iq_pending s' q = None" by (auto split: list.splits)
  have xs: "xs = elements ns'" using ichainD(5) [OF c'] ichainD(5) [OF Cons(3)] io Cons(2) [symmetric] by simp
  from Cons(1) [OF xs c' idle] deq Cons(2) [symmetric] xs show ?case
    by (subst Intrusive_delete.simps) auto
qed

section \<open>Properties\<close>

text \<open>
  C12: the intrusive lock-free queue under every interleaving of its producers' and its
  consumer's actions: what was handed out is a prefix of what was enqueued, in the order of the
  head exchanges; the dummy is never handed out; no action touches an element the queue does
  not own; and when no producer is in the middle of an \<open>Enqueue\<close>, \<open>Dequeue\<close> returns the first
  element queued, or false exactly when there is none.
\<close>
theorem intrusive_queue_correct:
  assumes "intrusive_step\<^sup>*\<^sup>* Intrusive_new s"
  shows "\<exists>rest. iq_in s = iq_out s @ rest \<and> dummy \<notin> set rest \<and> set rest = set (iq_owned s) \<and> distinct rest \<and>
    is_ok (Intrusive_link p s) \<and> is_ok (Dequeue_act s) \<and>
    (iq_pc s = Idle \<and> (\<forall>q. iq_pending s q = None) \<longrightarrow>
      (\<exists>s'. Intrusive_Dequeue s = Inr s' \<and> iq_pc s' = Idle \<and>
        (case rest of [] \<Rightarrow> iq_result s' = None \<and> iq_out s' = iq_out s
         | x # _ \<Rightarrow> iq_result s' = Some x \<and> iq_out s' = iq_out s @ [x])))"
proof -
  from intrusive.reachable_accounts [OF assms] obtain ns where
    c: "intrusive_chain s ns" and io: "iq_in s = iq_out s @ elements ns" by blast
  have "dummy \<notin> set (elements ns)" "distinct (elements ns)"
    using linkedD(2) [OF ichainD(1) [OF c]] by (simp_all add: elements_def)
  moreover have "is_ok (Dequeue_act s)" using ichain_act [OF c] by (auto simp: is_ok_iff)
  ultimately show ?thesis
    using io ichainD(4) [OF c] ichain_link_ok [OF c, of p] dequeue_settled [OF c] by blast
qed

lemma witness_intrusive_step:
  "intrusive_step\<^sup>*\<^sup>* Intrusive_new (Producer_exchange 7 3 Intrusive_new)"
  by (rule r_into_rtranclp, rule intrusive_step.exchange)
    (simp_all add: Intrusive_new_def consumer_def dummy_def)

theorem intrusive_queue_correct_witness:
  "is_ok (Intrusive_link 7 (Producer_exchange 7 3 Intrusive_new)) \<and>
   is_ok (Dequeue_act (Producer_exchange 7 3 Intrusive_new))"
  using intrusive_queue_correct [OF witness_intrusive_step, of 7] by blast

text \<open>
  The destructor of the intrusive queue ends, and deletes each element the queue still owns
  exactly once, in order, when no thread uses the queue any more.
\<close>
theorem intrusive_delete_frees:
  assumes "intrusive_step\<^sup>*\<^sup>* Intrusive_new s" "iq_pc s = Idle" "\<forall>q. iq_pending s q = None"
  shows "\<exists>xs s'. Intrusive_delete s = Some (Inr (xs, s')) \<and> iq_in s = iq_out s @ xs \<and> iq_owned s' = []"
proof -
  from intrusive.reachable_accounts [OF assms(1)] obtain ns where
    "intrusive_chain s ns" "iq_in s = iq_out s @ elements ns" by blast
  with intrusive_delete_drains [OF _ assms(2,3)] show ?thesis by blast
qed

end
