(* ===== verification/DiscordDefs.thy ===== *)
theory DiscordDefs
  imports ByteBuffer
begin

text \<open>
  \<^verbatim>\<open>src/shared/DiscordSharedDefines.h\<close> with its generated tables
  (\<^verbatim>\<open>src/shared/enuminfo_DiscordSharedDefines.cpp\<close>), the enum utilities over such tables
  (\<^verbatim>\<open>src/common/EnumUtil/SmartEnum.h\<close>), the packet headers
  (\<^verbatim>\<open>src/shared/DiscordPacketHeader.h\<close>) and \<^verbatim>\<open>src/client/Packets/DiscordPacket.h\<close>.

  An enumeration with an underlying type can hold any value of that type (the code casts
  to it from the wire), so its values are words and its enumerators are constants.
\<close>

section \<open>Enumerations\<close>

type_synonym DiscordCode = uint16

definition CLIENT_SEND_HELLO :: DiscordCode where "CLIENT_SEND_HELLO = 1"
definition CLIENT_AUTH_SESSION :: DiscordCode where "CLIENT_AUTH_SESSION = 2"
definition CLIENT_SEND_MESSAGE :: DiscordCode where "CLIENT_SEND_MESSAGE = 3"
definition CLIENT_SEND_MESSAGE_EMBED :: DiscordCode where "CLIENT_SEND_MESSAGE_EMBED = 4"
definition CLIENT_SEND_PING :: DiscordCode where "CLIENT_SEND_PING = 5"
definition SERVER_SEND_AUTH_RESPONSE :: DiscordCode where "SERVER_SEND_AUTH_RESPONSE = 6"
definition SERVER_SEND_PONG :: DiscordCode where "SERVER_SEND_PONG = 7"
definition NUM_MSG_TYPES :: DiscordCode where "NUM_MSG_TYPES = 8"

definition NUM_OPCODE_HANDLERS :: uint16 where "NUM_OPCODE_HANDLERS = NUM_MSG_TYPES"
definition NULL_OPCODE :: uint16 where "NULL_OPCODE = 0"

lemmas opcode_defs = CLIENT_SEND_HELLO_def CLIENT_AUTH_SESSION_def CLIENT_SEND_MESSAGE_def
  CLIENT_SEND_MESSAGE_EMBED_def CLIENT_SEND_PING_def SERVER_SEND_AUTH_RESPONSE_def
  SERVER_SEND_PONG_def NUM_MSG_TYPES_def NUM_OPCODE_HANDLERS_def NULL_OPCODE_def

text \<open>\<open>DiscordAuthResponseCodes\<close> and \<open>AccountCreateResult\<close>, by their values.\<close>

type_synonym DiscordAuthResponseCodes = uint8
type_synonym AccountCreateResult = uint8

definition Auth_Ok :: DiscordAuthResponseCodes where "Auth_Ok = 0"

text \<open>The title of a value; the constant has the same text and the description is empty.\<close>

definition DiscordCode_ToString :: "DiscordCode \<Rightarrow> string result" where
  "DiscordCode_ToString v =
     (if v = CLIENT_SEND_HELLO then Inr ''CLIENT_SEND_HELLO''
      else if v = CLIENT_AUTH_SESSION then Inr ''CLIENT_AUTH_SESSION''
      else if v = CLIENT_SEND_MESSAGE then Inr ''CLIENT_SEND_MESSAGE''
      else if v = CLIENT_SEND_MESSAGE_EMBED then Inr ''CLIENT_SEND_MESSAGE_EMBED''
      else if v = CLIENT_SEND_PING then Inr ''CLIENT_SEND_PING''
      else if v = SERVER_SEND_AUTH_RESPONSE then Inr ''SERVER_SEND_AUTH_RESPONSE''
      else if v = SERVER_SEND_PONG then Inr ''SERVER_SEND_PONG''
      else if v = NUM_MSG_TYPES then Inr ''NUM_MSG_TYPES''
      else Inl (OutOfRange ''value''))"

definition DiscordCode_Count :: nat where
  "DiscordCode_Count = 8"

definition DiscordCode_FromIndex :: "nat \<Rightarrow> DiscordCode result" where
  "DiscordCode_FromIndex i =
     (if i = 0 then Inr CLIENT_SEND_HELLO
      else if i = 1 then Inr CLIENT_AUTH_SESSION
      else if i = 2 then Inr CLIENT_SEND_MESSAGE
      else if i = 3 then Inr CLIENT_SEND_MESSAGE_EMBED
      else if i = 4 then Inr CLIENT_SEND_PING
      else if i = 5 then Inr SERVER_SEND_AUTH_RESPONSE
      else if i = 6 then Inr SERVER_SEND_PONG
      else if i = 7 then Inr NUM_MSG_TYPES
      else Inl (OutOfRange ''index''))"

definition DiscordCode_ToIndex :: "DiscordCode \<Rightarrow> nat result" where
  "DiscordCode_ToIndex v =
     (if v = CLIENT_SEND_HELLO then Inr 0
      else if v = CLIENT_AUTH_SESSION then Inr 1
      else if v = CLIENT_SEND_MESSAGE then Inr 2
      else if v = CLIENT_SEND_MESSAGE_EMBED then Inr 3
      else if v = CLIENT_SEND_PING then Inr 4
      else if v = SERVER_SEND_AUTH_RESPONSE then Inr 5
      else if v = SERVER_SEND_PONG then Inr 6
      else if v = NUM_MSG_TYPES then Inr 7
      else Inl (OutOfRange ''value''))"

definition AuthCode_ToString :: "DiscordAuthResponseCodes \<Rightarrow> string result" where
  "AuthCode_ToString v =
     (if v = Auth_Ok then Inr ''Ok''
      else if v = 1 then Inr ''Failed''
      else if v = 2 then Inr ''IncorrectKey''
      else if v = 3 then Inr ''UnknownAccount''
      else if v = 4 then Inr ''BannedAccount''
      else if v = 5 then Inr ''BannedIP''
      else if v = 6 then Inr ''BannedPermanentlyAccount''
      else if v = 7 then Inr ''BannedPermanentlyIP''
      else if v = 8 then Inr ''ServerOffline''
      else Inl (OutOfRange ''value''))"

definition AuthCode_Count :: nat where
  "AuthCode_Count = 9"

definition AuthCode_FromIndex :: "nat \<Rightarrow> DiscordAuthResponseCodes result" where
  "AuthCode_FromIndex i =
     (if i = 0 then Inr Auth_Ok
      else if i = 1 then Inr 1
      else if i = 2 then Inr 2
      else if i = 3 then Inr 3
      else if i = 4 then Inr 4
      else if i = 5 then Inr 5
      else if i = 6 then Inr 6
      else if i = 7 then Inr 7
      else if i = 8 then Inr 8
      else Inl (OutOfRange ''index''))"

definition AuthCode_ToIndex :: "DiscordAuthResponseCodes \<Rightarrow> nat result" where
  "AuthCode_ToIndex v =
     (if v = Auth_Ok then Inr 0
      else if v = 1 then Inr 1
      else if v = 2 then Inr 2
      else if v = 3 then Inr 3
      else if v = 4 then Inr 4
      else if v = 5 then Inr 5
      else if v = 6 then Inr 6
      else if v = 7 then Inr 7
      else if v = 8 then Inr 8
      else Inl (OutOfRange ''value''))"

definition AccountCreate_ToString :: "AccountCreateResult \<Rightarrow> string result" where
  "AccountCreate_ToString v =
     (if v = 0 then Inr ''Ok''
      else if v = 1 then Inr ''LongName''
      else if v = 2 then Inr ''LongKey''
      else if v = 3 then Inr ''NameAlreadyExist''
      else if v = 4 then Inr ''NameNotExist''
      else if v = 5 then Inr ''DBError''
      else Inl (OutOfRange ''value''))"

definition AccountCreate_Count :: nat where
  "AccountCreate_Count = 6"

definition AccountCreate_FromIndex :: "nat \<Rightarrow> AccountCreateResult result" where
  "AccountCreate_FromIndex i =
     (if i = 0 then Inr 0
      else if i = 1 then Inr 1
      else if i = 2 then Inr 2
      else if i = 3 then Inr 3
      else if i = 4 then Inr 4
      else if i = 5 then Inr 5
      else Inl (OutOfRange ''index''))"

definition AccountCreate_ToIndex :: "AccountCreateResult \<Rightarrow> nat result" where
  "AccountCreate_ToIndex v =
     (if v = 0 then Inr 0
      else if v = 1 then Inr 1
      else if v = 2 then Inr 2
      else if v = 3 then Inr 3
      else if v = 4 then Inr 4
      else if v = 5 then Inr 5
      else Inl (OutOfRange ''value''))"

section \<open>The enum utilities\<close>

text \<open>\<open>EnumUtils::IsValid\<close>: \<open>ToIndex\<close> does not throw.\<close>

definition EnumUtils_IsValid :: "('v \<Rightarrow> nat result) \<Rightarrow> 'v \<Rightarrow> bool" where
  "EnumUtils_IsValid to_index v = is_ok (to_index v)"

text \<open>\<open>EnumUtils::Iterator\<close> is an index; \<open>operator[]\<close> reads at an offset from it.\<close>

definition Iterator_at :: "(nat \<Rightarrow> 'v result) \<Rightarrow> int \<Rightarrow> int \<Rightarrow> 'v result" where
  "Iterator_at from_index idx d = from_index (nat ((idx + d) mod 2 ^ 64))"

definition Iterator_add :: "int \<Rightarrow> int \<Rightarrow> int" where
  "Iterator_add idx d = idx + d"

text \<open>A loop over \<open>EnumUtils::Iterate<Enum>()\<close>, from \<open>Begin\<close> to \<open>End\<close>: the values it visits.  The loop's \<open>!=\<close> is
  \<open><\<close> here: the two agree for an iterator that has not passed the end.\<close>

function iterate_from :: "(nat \<Rightarrow> 'v result) \<Rightarrow> int \<Rightarrow> int \<Rightarrow> 'v list result" where
  "iterate_from from_index idx stop =
     (if idx < stop then
        (case Iterator_at from_index idx 0 of
           Inl err \<Rightarrow> Inl err
         | Inr v \<Rightarrow> rbind (iterate_from from_index (Iterator_add idx 1) stop) (\<lambda>vs. Inr (v # vs)))
      else Inr [])"
  by pat_completeness auto
termination
  by (relation "measure (\<lambda>(_, idx, stop). nat (stop - idx))") (auto simp: Iterator_add_def)

declare iterate_from.simps [simp del]

definition EnumUtils_Iterate :: "nat \<Rightarrow> (nat \<Rightarrow> 'v result) \<Rightarrow> 'v list result" where
  "EnumUtils_Iterate count from_index = iterate_from from_index 0 (int count)"

text \<open>What a generated table promises: a bijection between its values and the indices below the count.\<close>

locale enum_table =
  fixes count :: nat
    and from_index :: "nat \<Rightarrow> 'v result"
    and to_index :: "'v \<Rightarrow> nat result"
    and to_string :: "'v \<Rightarrow> string result"
  assumes from_to: "i < count \<Longrightarrow> \<exists>v. from_index i = Inr v \<and> to_index v = Inr i"
    and to_from: "to_index v = Inr i \<Longrightarrow> i < count \<and> from_index i = Inr v"
    and named: "is_ok (to_string v) = is_ok (to_index v)"
    and small: "count < 2 ^ 63"
begin

lemma valid_iff: "EnumUtils_IsValid to_index v \<longleftrightarrow> (\<exists>i<count. from_index i = Inr v)"
proof
  assume "EnumUtils_IsValid to_index v"
  then show "\<exists>i<count. from_index i = Inr v"
    by (auto simp: EnumUtils_IsValid_def is_ok_iff dest: to_from)
next
  assume "\<exists>i<count. from_index i = Inr v"
  then show "EnumUtils_IsValid to_index v"
    using from_to by (fastforce simp: EnumUtils_IsValid_def is_ok_iff)
qed

lemma iterate_from_values:
  "k \<le> count \<Longrightarrow> \<exists>vs. iterate_from from_index (int k) (int count) = Inr vs \<and>
     map to_index vs = map Inr [k..<count]"
proof (induction "count - k" arbitrary: k)
  case 0
  then show ?case by (subst iterate_from.simps) simp
next
  case (Suc n)
  then have k: "k < count" by simp
  from from_to [OF this] obtain v where v: "from_index k = Inr v" "to_index v = Inr k" by blast
  have at: "Iterator_at from_index (int k) 0 = Inr v"
    using k small v by (simp add: Iterator_at_def)
  have "n = count - Suc k" "Suc k \<le> count" using Suc.hyps(2) k by simp_all
  from Suc.hyps(1) [OF this] obtain vs where
    "iterate_from from_index (int (Suc k)) (int count) = Inr vs" "map to_index vs = map Inr [Suc k..<count]"
    by blast
  then have "iterate_from from_index (int k) (int count) = Inr (v # vs)"
      "map to_index (v # vs) = map Inr [k..<count]"
    using at v k by (simp_all add: iterate_from.simps [of from_index "int k"] Iterator_add_def add.commute
        upt_conv_Cons)
  then show ?case by blast
qed

lemma index_iff: "to_index v = Inr i \<longleftrightarrow> i < count \<and> from_index i = Inr v"
  using from_to [of i] to_from [of v i] by auto

text \<open>Iteration visits each valid value exactly once.\<close>

lemma iterate_values:
  "\<exists>vs. EnumUtils_Iterate count from_index = Inr vs \<and> distinct vs \<and>
     set vs = {v. EnumUtils_IsValid to_index v} \<and> length vs = count"
proof -
  from iterate_from_values [of 0] obtain vs where
    vs: "EnumUtils_Iterate count from_index = Inr vs" "map to_index vs = map Inr [0..<count]"
    by (auto simp: EnumUtils_Iterate_def)
  have "distinct (map to_index vs)" by (simp add: vs(2) distinct_map inj_on_def)
  then have dist: "distinct vs" by (simp add: distinct_map)
  have len: "length vs = count" using vs(2) map_eq_imp_length_eq by force
  have "v \<in> set vs \<longleftrightarrow> EnumUtils_IsValid to_index v" for v
  proof
    assume "v \<in> set vs"
    then have "to_index v \<in> set (map to_index vs)" by simp
    then show "EnumUtils_IsValid to_index v"
      by (auto simp: vs(2) EnumUtils_IsValid_def is_ok_iff)
  next
    assume "EnumUtils_IsValid to_index v"
    then obtain i where i: "to_index v = Inr i" by (auto simp: EnumUtils_IsValid_def is_ok_iff)
    then have ic: "i < count" "from_index i = Inr v" by (auto dest: to_from)
    have "map to_index vs ! i = Inr i" using ic(1) by (simp add: vs(2))
    then have "to_index (vs ! i) = Inr i" using ic(1) len by simp
    then have "from_index i = Inr (vs ! i)" by (auto dest: to_from)
    then show "v \<in> set vs" using ic len by auto
  qed
  then show ?thesis using vs(1) dist len by auto
qed

end

lemma less_count_cases: "(i :: nat) < 9 \<Longrightarrow> i = 0 \<or> i = 1 \<or> i = 2 \<or> i = 3 \<or> i = 4 \<or> i = 5 \<or> i = 6 \<or> i = 7 \<or> i = 8"
  by arith

interpretation discord_code: enum_table DiscordCode_Count DiscordCode_FromIndex DiscordCode_ToIndex
  DiscordCode_ToString
proof (unfold_locales, goal_cases)
  case (1 i)
  then show ?case using less_count_cases [of i]
    by (auto simp: DiscordCode_Count_def DiscordCode_FromIndex_def DiscordCode_ToIndex_def opcode_defs)
next
  case (2 v i)
  then show ?case
    by (auto simp: DiscordCode_Count_def DiscordCode_FromIndex_def DiscordCode_ToIndex_def split: if_splits)
qed (simp_all add: DiscordCode_ToString_def DiscordCode_ToIndex_def DiscordCode_Count_def)

interpretation auth_code: enum_table AuthCode_Count AuthCode_FromIndex AuthCode_ToIndex AuthCode_ToString
proof (unfold_locales, goal_cases)
  case (1 i)
  then show ?case using less_count_cases [of i]
    by (auto simp: AuthCode_Count_def AuthCode_FromIndex_def AuthCode_ToIndex_def Auth_Ok_def)
next
  case (2 v i)
  then show ?case
    by (auto simp: AuthCode_Count_def AuthCode_FromIndex_def AuthCode_ToIndex_def split: if_splits)
qed (simp_all add: AuthCode_ToString_def AuthCode_ToIndex_def AuthCode_Count_def)

interpretation account_create: enum_table AccountCreate_Count AccountCreate_FromIndex
  AccountCreate_ToIndex AccountCreate_ToString
proof (unfold_locales, goal_cases)
  case (1 i)
  then show ?case using less_count_cases [of i]
    by (auto simp: AccountCreate_Count_def AccountCreate_FromIndex_def AccountCreate_ToIndex_def)
next
  case (2 v i)
  then show ?case
    by (auto simp: AccountCreate_Count_def AccountCreate_FromIndex_def AccountCreate_ToIndex_def
        split: if_splits)
qed (simp_all add: AccountCreate_ToString_def AccountCreate_ToIndex_def AccountCreate_Count_def)

section \<open>Packet headers\<close>

text \<open>The \<open>header\<close> array that \<open>DiscordServerPktHeader(size, cmd)\<close> fills in.\<close>

definition DiscordServerPktHeader :: "uint32 \<Rightarrow> uint16 \<Rightarrow> bytes" where
  "DiscordServerPktHeader sz cmd =
     [ucast (0xFF AND drop_bit 24 sz), ucast (0xFF AND drop_bit 16 sz),
      ucast (0xFF AND drop_bit 8 sz), ucast (0xFF AND sz),
      ucast (0xFF AND cmd), ucast (0xFF AND drop_bit 8 cmd)]"

definition GetHeaderLength :: "bytes \<Rightarrow> nat" where
  "GetHeaderLength header = length header"

record DiscordClientPktHeader =
  hdr_size :: uint32
  hdr_cmd :: uint16

definition sizeof_DiscordClientPktHeader :: nat where
  "sizeof_DiscordClientPktHeader = sizeof TYPE(32) + sizeof TYPE(16)"

definition IsValidSize :: "DiscordClientPktHeader \<Rightarrow> bool" where
  "IsValidSize h \<longleftrightarrow> hdr_size h \<ge> 2 \<and> hdr_size h < 10000"

definition IsValidOpcode :: "DiscordClientPktHeader \<Rightarrow> bool" where
  "IsValidOpcode h \<longleftrightarrow> hdr_cmd h < NUM_OPCODE_HANDLERS"

text \<open>The packed header structure over six bytes of memory, as \<open>reinterpret_cast\<close> sees it.\<close>

definition header_of_memory :: "endian \<Rightarrow> bytes \<Rightarrow> DiscordClientPktHeader" where
  "header_of_memory e bs = \<lparr>hdr_size = mem_word e (slice 0 4 bs), hdr_cmd = mem_word e (slice 4 2 bs)\<rparr>"

definition memory_of_header :: "endian \<Rightarrow> DiscordClientPktHeader \<Rightarrow> bytes" where
  "memory_of_header e h = mem_bytes e (hdr_size h) @ mem_bytes e (hdr_cmd h)"

lemma header_of_memory_of_header [simp]: "header_of_memory e (memory_of_header e h) = h"
  by (simp add: header_of_memory_def memory_of_header_def slice_def mem_word_mem_bytes)

text \<open>
  The header's fields brought to host order: \<open>EndianConvertReverse(header->size)\<close> and
  \<open>EndianConvert(header->cmd)\<close> on the bytes received.
\<close>

definition convert_header :: "endian \<Rightarrow> bytes \<Rightarrow> bytes" where
  "convert_header e bs = EndianConvertReverse e (slice 0 4 bs) @ EndianConvert e (slice 4 2 bs)"

text \<open>The header a peer means by six bytes: the size big endian, the command little endian.\<close>

definition wire_header :: "bytes \<Rightarrow> DiscordClientPktHeader" where
  "wire_header bs = \<lparr>hdr_size = le_word (rev (slice 0 4 bs)), hdr_cmd = le_word (slice 4 2 bs)\<rparr>"

lemma header_convert:
  assumes "length bs = 6"
  shows "header_of_memory e (convert_header e bs) = wire_header bs"
proof -
  have l: "length (slice 0 4 bs) = 4" "length (slice 4 2 bs) = 2" using assms by simp_all
  then have "length (EndianConvertReverse e (slice 0 4 bs)) = 4"
    by (simp add: EndianConvertReverse_def)
  moreover have "length (EndianConvert e (slice 4 2 bs)) = 2"
    using l by (simp add: EndianConvert_def)
  ultimately have "slice 0 4 (convert_header e bs) = EndianConvertReverse e (slice 0 4 bs)"
    "slice 4 2 (convert_header e bs) = EndianConvert e (slice 4 2 bs)"
    by (simp_all add: convert_header_def slice_def [of 0 _ "_ @ _"] slice_def [of 4 _ "_ @ _"])
  then show ?thesis by (simp add: header_of_memory_def wire_header_def)
qed

lemma ucast_byte_digit:
  fixes w :: "'a::len word"
  assumes "8 \<le> LENGTH('a)"
  shows "ucast (0xFF AND drop_bit k w) = (word_of_nat (unat w div 2 ^ k mod 256) :: uint8)"
proof -
  have m: "(0xFF :: 'a word) = mask 8" by (simp add: mask_eq_exp_minus_1)
  have "unat (0xFF AND drop_bit k w) = unat w div 2 ^ k mod 256"
    by (simp only: unat_mask_and [OF m] unat_drop_bit) simp
  then show ?thesis
    by (intro word_unat_eq_iff [THEN iffD2]) (simp add: unat_ucast unat_of_nat)
qed

lemma DiscordServerPktHeader_bytes: "DiscordServerPktHeader sz cmd = rev (le_bytes sz) @ le_bytes cmd"
proof -
  note d = ucast_byte_digit [of 24 sz] ucast_byte_digit [of 16 sz] ucast_byte_digit [of 8 sz]
    ucast_byte_digit [of 0 sz] ucast_byte_digit [of 0 cmd] ucast_byte_digit [of 8 cmd]
  show ?thesis
    using d by (simp add: DiscordServerPktHeader_def le_bytes_def nat_le_numeral div_mult2_eq [symmetric])
qed

lemma wire_header_server: "wire_header (DiscordServerPktHeader sz cmd) = \<lparr>hdr_size = sz, hdr_cmd = cmd\<rparr>"
  by (simp add: DiscordServerPktHeader_bytes wire_header_def slice_def le_word_le_bytes)

section \<open>Packets\<close>

text \<open>\<open>m_receivedTime\<close> counts microseconds; its default is the clock's epoch.\<close>

record discord_packet =
  pk_buffer :: byte_buffer
  pk_opcode :: uint16
  pk_receivedTime :: int

definition DiscordPacket_default :: discord_packet where
  "DiscordPacket_default =
     \<lparr>pk_buffer = ByteBuffer_reserve 0, pk_opcode = NULL_OPCODE, pk_receivedTime = 0\<rparr>"

definition DiscordPacket :: "uint16 \<Rightarrow> nat \<Rightarrow> discord_packet" where
  "DiscordPacket opcode res =
     \<lparr>pk_buffer = ByteBuffer_reserve res, pk_opcode = opcode, pk_receivedTime = 0\<rparr>"

text \<open>The move constructors: the new packet and what is left of the source.\<close>

definition move_DiscordPacket :: "discord_packet \<Rightarrow> int \<Rightarrow> discord_packet \<times> discord_packet" where
  "move_DiscordPacket packet receivedTime =
     (let (b, b') = move_ByteBuffer (pk_buffer packet)
      in (\<lparr>pk_buffer = b, pk_opcode = pk_opcode packet, pk_receivedTime = receivedTime\<rparr>,
          packet\<lparr>pk_buffer := b'\<rparr>))"

definition copy_DiscordPacket :: "discord_packet \<Rightarrow> discord_packet" where
  "copy_DiscordPacket right =
     \<lparr>pk_buffer = pk_buffer right, pk_opcode = pk_opcode right, pk_receivedTime = 0\<rparr>"

text \<open>The assignments leave the time of the target as it is.\<close>

definition assign_DiscordPacket :: "discord_packet \<Rightarrow> discord_packet \<Rightarrow> discord_packet" where
  "assign_DiscordPacket right p = p\<lparr>pk_opcode := pk_opcode right, pk_buffer := pk_buffer right\<rparr>"

definition DiscordPacket_of_message :: "uint16 \<Rightarrow> message_buffer \<Rightarrow> discord_packet \<times> message_buffer" where
  "DiscordPacket_of_message opcode buffer =
     (let (b, buffer') = ByteBuffer_of_message buffer
      in (\<lparr>pk_buffer = b, pk_opcode = opcode, pk_receivedTime = 0\<rparr>, buffer'))"

definition Initialize_packet :: "uint16 \<Rightarrow> nat \<Rightarrow> discord_packet \<Rightarrow> discord_packet" where
  "Initialize_packet opcode newres p =
     p\<lparr>pk_buffer := (clear (pk_buffer p))\<lparr>bb_capacity := max (bb_capacity (pk_buffer p)) newres\<rparr>,
       pk_opcode := opcode\<rparr>"

definition SetOpcode :: "uint16 \<Rightarrow> discord_packet \<Rightarrow> discord_packet" where
  "SetOpcode opcode p = p\<lparr>pk_opcode := opcode\<rparr>"

section \<open>Properties of the enumerations\<close>

text \<open>
  The generated tables of all three enumerations are bijections between the values the
  utilities accept and the indices below their count: \<open>FromIndex\<close> and \<open>ToIndex\<close> are
  inverse, a value has a name exactly when it has an index, and iterating visits every
  valid value exactly once.
\<close>
theorem enum_tables_consistent:
  "(\<forall>v. EnumUtils_IsValid DiscordCode_ToIndex v = is_ok (DiscordCode_ToString v)) \<and>
   (\<forall>v i. DiscordCode_ToIndex v = Inr i \<longleftrightarrow> i < DiscordCode_Count \<and> DiscordCode_FromIndex i = Inr v) \<and>
   (\<exists>vs. EnumUtils_Iterate DiscordCode_Count DiscordCode_FromIndex = Inr vs \<and> distinct vs \<and>
      set vs = {v. EnumUtils_IsValid DiscordCode_ToIndex v}) \<and>
   (\<forall>v. EnumUtils_IsValid AuthCode_ToIndex v = is_ok (AuthCode_ToString v)) \<and>
   (\<forall>v i. AuthCode_ToIndex v = Inr i \<longleftrightarrow> i < AuthCode_Count \<and> AuthCode_FromIndex i = Inr v) \<and>
   (\<exists>vs. EnumUtils_Iterate AuthCode_Count AuthCode_FromIndex = Inr vs \<and> distinct vs \<and>
      set vs = {v. EnumUtils_IsValid AuthCode_ToIndex v}) \<and>
   (\<forall>v. EnumUtils_IsValid AccountCreate_ToIndex v = is_ok (AccountCreate_ToString v)) \<and>
   (\<forall>v i. AccountCreate_ToIndex v = Inr i \<longleftrightarrow>
      i < AccountCreate_Count \<and> AccountCreate_FromIndex i = Inr v) \<and>
   (\<exists>vs. EnumUtils_Iterate AccountCreate_Count AccountCreate_FromIndex = Inr vs \<and> distinct vs \<and>
      set vs = {v. EnumUtils_IsValid AccountCreate_ToIndex v})"
  using discord_code.index_iff auth_code.index_iff account_create.index_iff
    discord_code.iterate_values auth_code.iterate_values account_create.iterate_values
  by (auto simp: EnumUtils_IsValid_def discord_code.named auth_code.named account_create.named)

end
