(* ===== verification/PacketQueue.thy ===== *)
theory PacketQueue
  imports Prelude
begin

text \<open>
  The locked queues: \<^verbatim>\<open>src/common/Threading/PacketQueue.h\<close> and
  \<^verbatim>\<open>src/common/Threading/PCQueue.h\<close>.  Every operation of these classes holds the queue's
  mutex from its first to its last access, so a run of several threads is a sequence of
  whole operations; the only operation that gives the mutex up in between is
  \<open>WaitAndPop\<close>, which is modelled as a step relation with its waiting threads.
\<close>

section \<open>What a queue promises\<close>

datatype 'a queue_op = Add 'a | Next

locale fifo_queue =
  fixes items :: "'q \<Rightarrow> 'a list"
    and add :: "'a \<Rightarrow> 'q \<Rightarrow> 'q"
    and take_next :: "'q \<Rightarrow> ('a \<times> 'q) option"
  assumes items_add: "items (add x q) = items q @ [x]"
    and take_next_None: "take_next q = None \<longleftrightarrow> items q = []"
    and take_next_Some: "take_next q = Some (x, q') \<Longrightarrow> items q = x # items q'"
begin

text \<open>Any interleaving of the operations of any number of threads: what comes out, and the queue left.\<close>

fun run_ops :: "'a queue_op list \<Rightarrow> 'q \<Rightarrow> 'a list \<times> 'q" where
  "run_ops [] q = ([], q)"
| "run_ops (Add x # ops) q = run_ops ops (add x q)"
| "run_ops (Next # ops) q =
     (case take_next q of
        None \<Rightarrow> run_ops ops q
      | Some (x, q') \<Rightarrow> let (out, q'') = run_ops ops q' in (x # out, q''))"

fun added :: "'a queue_op list \<Rightarrow> 'a list" where
  "added [] = []"
| "added (Add x # ops) = x # added ops"
| "added (Next # ops) = added ops"

lemma run_ops_fifo: "run_ops ops q = (out, q') \<Longrightarrow> out @ items q' = items q @ added ops"
proof (induction ops q arbitrary: out q' rule: run_ops.induct)
  case (2 x ops q)
  then show ?case by (simp add: items_add)
next
  case (3 ops q)
  show ?case
  proof (cases "take_next q")
    case None
    with 3 show ?thesis by simp
  next
    case (Some p)
    then obtain x q1 where p: "take_next q = Some (x, q1)" by (cases p) auto
    with 3(3) obtain out' where "run_ops ops q1 = (out', q')" "out = x # out'"
      by (auto split: prod.splits)
    with 3(2) [OF p refl] take_next_Some [OF p] show ?thesis by simp
  qed
qed simp

text \<open>The loop \<open>while (queue.GetNextPacket(p)) ...\<close> hands over everything, in order.\<close>

lemma next_drain:
  assumes "take_next q = Some (x, q')"
  shows "length (items q') < length (items q)"
  using take_next_Some [OF assms] by simp

end

section \<open>The packet queues\<close>

record 'p packet_queue =
  pq_queue :: "'p list"
  pq_canceled :: bool

definition PacketQueue_new :: "'p packet_queue" where
  "PacketQueue_new = \<lparr>pq_queue = [], pq_canceled = False\<rparr>"

definition AddPacket :: "'p \<Rightarrow> 'p packet_queue \<Rightarrow> 'p packet_queue" where
  "AddPacket packet q = q\<lparr>pq_queue := pq_queue q @ [packet]\<rparr>"

text \<open>\<open>ReadContainer\<close>: the container's elements go to the front, in their order.\<close>

definition ReadContainer :: "'p list \<Rightarrow> 'p packet_queue \<Rightarrow> 'p packet_queue" where
  "ReadContainer container q = q\<lparr>pq_queue := container @ pq_queue q\<rparr>"

text \<open>\<open>GetNextPacket(result)\<close>: \<open>None\<close> is \<open>false\<close>.\<close>

definition GetNextPacket :: "'p packet_queue \<Rightarrow> ('p \<times> 'p packet_queue) option" where
  "GetNextPacket q =
     (case pq_queue q of [] \<Rightarrow> None | p # ps \<Rightarrow> Some (p, q\<lparr>pq_queue := ps\<rparr>))"

text \<open>
  \<open>GetNextPacket(result, check)\<close>: the value returned, the packet assigned to \<open>result\<close> (also
  when \<open>check\<close> then fails) and the queue.  \<open>check\<close> sees the packet through \<open>result\<close>.
\<close>

definition GetNextPacket_check ::
    "('p \<Rightarrow> bool) \<Rightarrow> 'p packet_queue \<Rightarrow> bool \<times> 'p option \<times> 'p packet_queue" where
  "GetNextPacket_check check q =
     (case pq_queue q of
        [] \<Rightarrow> (False, None, q)
      | p # ps \<Rightarrow> if \<not> check p then (False, Some p, q) else (True, Some p, q\<lparr>pq_queue := ps\<rparr>))"

definition Cancel :: "'p packet_queue \<Rightarrow> 'p packet_queue" where
  "Cancel q = q\<lparr>pq_canceled := True\<rparr>"

definition Cancelled :: "'p packet_queue \<Rightarrow> bool" where
  "Cancelled q = pq_canceled q"

definition IsEmpty :: "'p packet_queue \<Rightarrow> bool" where
  "IsEmpty q \<longleftrightarrow> pq_queue q = []"

text \<open>\<open>CheckPacketQueue\<close>: the same queue over pairs of a packet and its node id.\<close>

definition CheckPacketQueue_AddPacket ::
    "'p \<Rightarrow> 'c \<Rightarrow> ('p \<times> 'c) packet_queue \<Rightarrow> ('p \<times> 'c) packet_queue" where
  "CheckPacketQueue_AddPacket packet nodeID q = q\<lparr>pq_queue := pq_queue q @ [(packet, nodeID)]\<rparr>"

definition CheckPacketQueue_GetNextPacket ::
    "('p \<times> 'c) packet_queue \<Rightarrow> (('p \<times> 'c) \<times> ('p \<times> 'c) packet_queue) option" where
  "CheckPacketQueue_GetNextPacket q =
     (case pq_queue q of
        [] \<Rightarrow> None
      | (packet, nodeID) # es \<Rightarrow> Some ((packet, nodeID), q\<lparr>pq_queue := es\<rparr>))"

text \<open>The consumer's loop: the packets it gets, in order, and the queue afterwards.\<close>

function drain :: "'p packet_queue \<Rightarrow> 'p list \<times> 'p packet_queue" where
  "drain q =
     (case GetNextPacket q of
        None \<Rightarrow> ([], q)
      | Some (p, q') \<Rightarrow> let (ps, q'') = drain q' in (p # ps, q''))"
  by pat_completeness auto
termination
  by (relation "measure (\<lambda>q. length (pq_queue q))") (auto simp: GetNextPacket_def split: list.splits)

declare drain.simps [simp del]

interpretation packets: fifo_queue pq_queue AddPacket GetNextPacket
  by unfold_locales (auto simp: AddPacket_def GetNextPacket_def split: list.splits)

interpretation checked_packets: fifo_queue pq_queue "\<lambda>(p, c). CheckPacketQueue_AddPacket p c"
  CheckPacketQueue_GetNextPacket
  by unfold_locales
    (auto simp: CheckPacketQueue_AddPacket_def CheckPacketQueue_GetNextPacket_def split: list.splits prod.splits)

lemma drain_all: "drain q = (pq_queue q, q\<lparr>pq_queue := []\<rparr>)"
proof (induction q rule: drain.induct)
  case (1 q)
  show ?case
  proof (cases "GetNextPacket q")
    case None
    then show ?thesis by (subst drain.simps) (auto simp: GetNextPacket_def split: list.splits)
  next
    case (Some pq)
    then obtain p q' where pq: "pq = (p, q')" by (cases pq)
    from 1(1) [OF Some pq [symmetric]] have "drain q' = (pq_queue q', q'\<lparr>pq_queue := []\<rparr>)" .
    with Some pq show ?thesis
      by (subst drain.simps) (auto simp: GetNextPacket_def split: list.splits)
  qed
qed

section \<open>The producer-consumer queue\<close>

record 'v pc_queue =
  pc_queue :: "'v list"
  pc_shutdown :: bool

definition PCQueue_new :: "'v pc_queue" where
  "PCQueue_new = \<lparr>pc_queue = [], pc_shutdown = False\<rparr>"

definition PC_Push :: "'v \<Rightarrow> 'v pc_queue \<Rightarrow> 'v pc_queue" where
  "PC_Push v q = q\<lparr>pc_queue := pc_queue q @ [v]\<rparr>"

definition PC_Empty :: "'v pc_queue \<Rightarrow> bool" where
  "PC_Empty q \<longleftrightarrow> pc_queue q = []"

definition PC_Size :: "'v pc_queue \<Rightarrow> nat" where
  "PC_Size q = length (pc_queue q)"

definition PC_Pop :: "'v pc_queue \<Rightarrow> ('v \<times> 'v pc_queue) option" where
  "PC_Pop q =
     (if pc_queue q = [] \<or> pc_shutdown q then None
      else Some (hd (pc_queue q), q\<lparr>pc_queue := tl (pc_queue q)\<rparr>))"

text \<open>\<open>Cancel\<close>: every queued object is deleted (the result's first component) and the queue shut down.\<close>

fun pc_delete_all :: "'v list \<Rightarrow> 'v list" where
  "pc_delete_all [] = []"
| "pc_delete_all (v # vs) = v # pc_delete_all vs"

definition PC_Cancel :: "'v pc_queue \<Rightarrow> 'v list \<times> 'v pc_queue" where
  "PC_Cancel q = (pc_delete_all (pc_queue q), q\<lparr>pc_queue := [], pc_shutdown := True\<rparr>)"

text \<open>What \<open>WaitAndPop\<close> does once it holds the mutex: wait, give up, or take the front.\<close>

datatype 'v wait_result = Wait | GiveUp | Take 'v

definition WaitAndPop_try :: "'v pc_queue \<Rightarrow> 'v wait_result \<times> 'v pc_queue" where
  "WaitAndPop_try q =
     (if pc_queue q = [] \<and> \<not> pc_shutdown q then (Wait, q)
      else if pc_queue q = [] \<or> pc_shutdown q then (GiveUp, q)
      else (Take (hd (pc_queue q)), q\<lparr>pc_queue := tl (pc_queue q)\<rparr>))"

text \<open>
  The queue with its threads: those blocked in \<open>_condition.wait\<close> and those that have been
  woken and still have to get the mutex back, with what the threads have taken so far.
\<close>

record 'v pc_world =
  pw_q :: "'v pc_queue"
  pw_waiting :: "nat set"
  pw_ready :: "nat set"
  pw_taken :: "(nat \<times> 'v) list"
  pw_returned :: "nat set"

text \<open>A thread that has the mutex in \<open>WaitAndPop\<close>: it waits (again), or returns.\<close>

definition pc_resume :: "nat \<Rightarrow> 'v pc_world \<Rightarrow> 'v pc_world" where
  "pc_resume t w =
     (case WaitAndPop_try (pw_q w) of
        (Wait, _) \<Rightarrow> w\<lparr>pw_ready := pw_ready w - {t}, pw_waiting := insert t (pw_waiting w)\<rparr>
      | (GiveUp, _) \<Rightarrow> w\<lparr>pw_ready := pw_ready w - {t}, pw_returned := insert t (pw_returned w)\<rparr>
      | (Take v, q') \<Rightarrow> w\<lparr>pw_q := q', pw_ready := pw_ready w - {t},
          pw_taken := pw_taken w @ [(t, v)], pw_returned := insert t (pw_returned w)\<rparr>)"

text \<open>
  The steps: a push wakes one blocked thread if there is one (\<open>notify_one\<close>), a cancel wakes
  all (\<open>notify_all\<close>), a blocked thread may wake up on its own.
\<close>

inductive pc_step :: "'v pc_world \<Rightarrow> 'v pc_world \<Rightarrow> bool" where
  push_idle: "pw_waiting w = {} \<Longrightarrow> pc_step w (w\<lparr>pw_q := PC_Push v (pw_q w)\<rparr>)"
| push_notify: "t \<in> pw_waiting w \<Longrightarrow>
    pc_step w (w\<lparr>pw_q := PC_Push v (pw_q w), pw_waiting := pw_waiting w - {t},
      pw_ready := insert t (pw_ready w)\<rparr>)"
| pop: "PC_Pop (pw_q w) = Some (v, q') \<Longrightarrow> pc_step w (w\<lparr>pw_q := q'\<rparr>)"
| enter: "t \<notin> pw_waiting w \<Longrightarrow> t \<notin> pw_ready w \<Longrightarrow>
    pc_step w (pc_resume t (w\<lparr>pw_returned := pw_returned w - {t}\<rparr>))"
| resume: "t \<in> pw_ready w \<Longrightarrow> pc_step w (pc_resume t w)"
| spurious: "t \<in> pw_waiting w \<Longrightarrow>
    pc_step w (w\<lparr>pw_waiting := pw_waiting w - {t}, pw_ready := insert t (pw_ready w)\<rparr>)"
| cancel: "PC_Cancel (pw_q w) = (dels, q') \<Longrightarrow>
    pc_step w (w\<lparr>pw_q := q', pw_waiting := {}, pw_ready := pw_ready w \<union> pw_waiting w\<rparr>)"

inductive_cases pc_step_cases: "pc_step w w'"

text \<open>
  No wake-up is lost: while a thread is blocked, there are at least as many woken threads
  as queued items; and after a shutdown nothing is queued and nobody is blocked.
\<close>

definition pc_inv :: "'v pc_world \<Rightarrow> bool" where
  "pc_inv w \<longleftrightarrow> finite (pw_ready w) \<and> finite (pw_waiting w) \<and> pw_ready w \<inter> pw_waiting w = {} \<and>
     (pw_waiting w \<noteq> {} \<longrightarrow> length (pc_queue (pw_q w)) \<le> card (pw_ready w) \<and> \<not> pc_shutdown (pw_q w))"

lemma pc_inv_resume:
  assumes "pc_inv w" "t \<notin> pw_waiting w"
  shows "pc_inv (pc_resume t w)"
proof -
  let ?n = "length (pc_queue (pw_q w))"
  have fin: "finite (pw_ready w)" using assms(1) by (simp add: pc_inv_def)
  have "card (pw_ready w) \<le> Suc (card (pw_ready w - {t}))"
    using fin by (auto simp: card_Diff_singleton_if)
  then have step: "pw_waiting w \<noteq> {} \<longrightarrow> ?n - 1 \<le> card (pw_ready w - {t})"
    using assms(1) by (auto simp: pc_inv_def)
  show ?thesis
    using assms step fin by (auto simp: pc_resume_def WaitAndPop_try_def pc_inv_def)
qed

lemma pc_inv_step: "pc_step w w' \<Longrightarrow> pc_inv w \<Longrightarrow> pc_inv w'"
proof (induction rule: pc_step.induct)
  case (push_notify t w v)
  then have "t \<notin> pw_ready w" "finite (pw_ready w)" by (auto simp: pc_inv_def)
  with push_notify show ?case by (auto simp: pc_inv_def PC_Push_def)
next
  case (pop w v q')
  then have "pc_shutdown q' = pc_shutdown (pw_q w)" "length (pc_queue q') \<le> length (pc_queue (pw_q w))"
    by (auto simp: PC_Pop_def split: if_splits)
  with pop show ?case by (auto simp: pc_inv_def)
next
  case (enter t w)
  then have "pc_inv (w\<lparr>pw_returned := pw_returned w - {t}\<rparr>)" by (simp add: pc_inv_def)
  with enter show ?case by (intro pc_inv_resume) auto
next
  case (resume t w)
  then show ?case by (intro pc_inv_resume) (auto simp: pc_inv_def)
next
  case (spurious t w)
  then have "card (pw_ready w) \<le> card (insert t (pw_ready w))"
    by (intro card_mono) (auto simp: pc_inv_def)
  with spurious show ?case by (auto simp: pc_inv_def intro: le_trans)
next
  case (cancel w dels q')
  then show ?case by (auto simp: pc_inv_def)
qed (auto simp: pc_inv_def)

definition pc_world_new :: "'v pc_world" where
  "pc_world_new = \<lparr>pw_q = PCQueue_new, pw_waiting = {}, pw_ready = {}, pw_taken = [], pw_returned = {}\<rparr>"

lemma pc_reachable_inv: "pc_step\<^sup>*\<^sup>* pc_world_new w \<Longrightarrow> pc_inv w"
proof (induction rule: rtranclp_induct)
  case base
  show ?case by (simp add: pc_inv_def pc_world_new_def)
next
  case (step y z)
  then show ?case by (auto intro: pc_inv_step)
qed

section \<open>Properties of the queues\<close>

text \<open>A run of \<open>AddPacket\<close> and \<open>GetNextPacket\<close> calls in any order: the packets handed out and the queue left.\<close>

fun packet_run :: "'p queue_op list \<Rightarrow> 'p packet_queue \<Rightarrow> 'p list \<times> 'p packet_queue" where
  "packet_run [] q = ([], q)"
| "packet_run (Add p # ops) q = packet_run ops (AddPacket p q)"
| "packet_run (Next # ops) q =
     (case GetNextPacket q of
        None \<Rightarrow> packet_run ops q
      | Some (p, q') \<Rightarrow> let (out, q'') = packet_run ops q' in (p # out, q''))"

fun added_packets :: "'p queue_op list \<Rightarrow> 'p list" where
  "added_packets [] = []"
| "added_packets (Add p # ops) = p # added_packets ops"
| "added_packets (Next # ops) = added_packets ops"

lemma packet_run_eq: "packet_run ops q = packets.run_ops ops q"
  by (induction ops q rule: packet_run.induct) (auto split: option.splits)

lemma added_packets_eq: "added_packets ops = packets.added ops"
  by (induction ops rule: added_packets.induct) auto

text \<open>
  The packet queue is first in, first out under any interleaving of its operations by
  any number of threads: the packets handed out, followed by those still queued, are the
  packets that were queued followed by those added; none is lost, duplicated or reordered.
  The consumer's loop then hands over all that is left, in order, and ends.
\<close>
theorem packet_queue_fifo:
  "(case packet_run ops q of (out, q') \<Rightarrow>
      out @ pq_queue q' = pq_queue q @ added_packets ops \<and>
      drain q' = (pq_queue q', q'\<lparr>pq_queue := []\<rparr>))"
proof -
  obtain out q' where "packet_run ops q = (out, q')" by (cases "packet_run ops q")
  with packets.run_ops_fifo [of ops q out q'] show ?thesis
    by (simp add: packet_run_eq added_packets_eq drain_all)
qed

text \<open>
  C21: the producer-consumer queue loses no wake-up.  In every state that pushes, pops,
  waits, spurious wake-ups and cancellations of any number of threads can reach, if a
  thread is blocked in \<open>WaitAndPop\<close> then the queue has not been shut down, and if something
  is queued then some woken thread is on its way to take it.
\<close>
theorem pc_queue_no_lost_wakeup:
  assumes "pc_step\<^sup>*\<^sup>* pc_world_new w" "pw_waiting w \<noteq> {}"
  shows "\<not> pc_shutdown (pw_q w) \<and> (pc_queue (pw_q w) \<noteq> [] \<longrightarrow> (\<exists>t. t \<in> pw_ready w)) \<and>
    length (pc_queue (pw_q w)) \<le> card (pw_ready w)"
proof -
  from pc_reachable_inv [OF assms(1)] assms(2) have
    inv: "length (pc_queue (pw_q w)) \<le> card (pw_ready w)" "\<not> pc_shutdown (pw_q w)"
    by (auto simp: pc_inv_def)
  then have "pc_queue (pw_q w) \<noteq> [] \<longrightarrow> card (pw_ready w) \<noteq> 0"
    by (cases "pc_queue (pw_q w)") auto
  with inv show ?thesis by (auto simp: card_eq_0_iff)
qed

lemma witness_pc_blocked: "pc_step pc_world_new (pc_world_new\<lparr>pw_waiting := {1 :: nat}\<rparr>)"
  using pc_step.enter [of 1 "pc_world_new"]
  by (simp add: pc_world_new_def pc_resume_def WaitAndPop_try_def PCQueue_new_def)

theorem pc_queue_no_lost_wakeup_witness:
  "\<not> pc_shutdown (pw_q (pc_world_new\<lparr>pw_waiting := {1 :: nat}\<rparr> :: bool pc_world))"
  using pc_queue_no_lost_wakeup [of "pc_world_new\<lparr>pw_waiting := {1 :: nat}\<rparr> :: bool pc_world"]
    r_into_rtranclp [of "pc_step :: bool pc_world \<Rightarrow> _", OF witness_pc_blocked] by simp

text \<open>
  A cancelled producer-consumer queue hands out nothing: \<open>Cancel\<close> deletes exactly the
  queued objects, and afterwards, whatever is pushed, \<open>Pop\<close> fails and \<open>WaitAndPop\<close>
  returns at once without a value.
\<close>
theorem pc_queue_cancelled:
  "fst (PC_Cancel q) = pc_queue q \<and>
   PC_Pop (fold PC_Push vs (snd (PC_Cancel q))) = None \<and>
   fst (WaitAndPop_try (fold PC_Push vs (snd (PC_Cancel q)))) = GiveUp"
proof -
  have del: "pc_delete_all xs = xs" for xs :: "'a list" by (induction xs) auto
  have "pc_shutdown (fold PC_Push vs r)" if "pc_shutdown r" for r :: "'a pc_queue"
    using that by (induction vs arbitrary: r) (auto simp: PC_Push_def)
  then have "pc_shutdown (fold PC_Push vs (snd (PC_Cancel q)))" by (simp add: PC_Cancel_def)
  then show ?thesis by (simp add: PC_Pop_def WaitAndPop_try_def PC_Cancel_def del)
qed

end
