(* ===== verification/Socket.thy ===== *)
theory Socket
  imports MessageBuffer
begin

text \<open>
  \<^verbatim>\<open>src/shared/Network/Socket.h\<close>: the asynchronous socket under the client, in its build
  without I/O completion ports.  The record can be extended, as the class template is
  derived from; its operations apply to every extension.

  The operating system is a parameter: \<open>write_some\<close> maps its state and the bytes offered
  to an outcome.  The last five fields are what the world sees of the socket: the bytes the
  system took, the read it was asked for, the write notification asked for, the number of
  \<open>OnClose\<close> calls and the messages given up.
\<close>

section \<open>The socket\<close>

datatype write_result = WriteError | WouldBlock | Sent nat

record socket =
  sk_readBuffer :: message_buffer
  sk_writeQueue :: "message_buffer list"
  sk_closed :: bool
  sk_closing :: bool
  sk_isWritingAsync :: bool
  sk_sent :: bytes
  sk_pendingRead :: "(nat \<times> nat) option"
  sk_pendingWrite :: bool
  sk_onClose :: nat
  sk_dropped :: "message_buffer list"

definition READ_BLOCK_SIZE :: nat where
  "READ_BLOCK_SIZE = 4096"

definition Socket_new :: socket where
  "Socket_new = \<lparr>sk_readBuffer = Resize READ_BLOCK_SIZE MessageBuffer_default, sk_writeQueue = [],
     sk_closed = False, sk_closing = False, sk_isWritingAsync = False, sk_sent = [],
     sk_pendingRead = None, sk_pendingWrite = False, sk_onClose = 0, sk_dropped = []\<rparr>"

definition IsOpen :: "'x socket_scheme \<Rightarrow> bool" where
  "IsOpen s \<longleftrightarrow> \<not> sk_closed s \<and> \<not> sk_closing s"

text \<open>\<open>CloseSocket\<close>: the first call shuts the socket down and calls \<open>OnClose\<close>.\<close>

definition CloseSocket :: "'x socket_scheme \<Rightarrow> 'x socket_scheme" where
  "CloseSocket s =
     (if sk_closed s then s else s\<lparr>sk_closed := True, sk_onClose := Suc (sk_onClose s)\<rparr>)"

definition DelayedCloseSocket :: "'x socket_scheme \<Rightarrow> 'x socket_scheme" where
  "DelayedCloseSocket s = s\<lparr>sk_closing := True\<rparr>"

definition QueuePacket :: "message_buffer \<Rightarrow> 'x socket_scheme \<Rightarrow> 'x socket_scheme" where
  "QueuePacket buffer s = s\<lparr>sk_writeQueue := sk_writeQueue s @ [buffer]\<rparr>"

section \<open>Reading\<close>

text \<open>\<open>AsyncRead\<close>: the system is asked to read into the free space of the read buffer.\<close>

definition AsyncRead :: "'x socket_scheme \<Rightarrow> 'x socket_scheme result" where
  "AsyncRead s =
     (if \<not> IsOpen s then Inr s
      else rbind (Normalize (sk_readBuffer s)) (\<lambda>b.
        let b' = EnsureFreeSpace b
        in Inr (s\<lparr>sk_readBuffer := b',
                  sk_pendingRead := Some (GetWritePointer b', GetRemainingSpace b')\<rparr>)))"

text \<open>
  The system's side of a read: it stores the bytes received where it was told to, at most as
  many as it was told, before the handler runs.
\<close>

definition system_store :: "bytes \<Rightarrow> 'x socket_scheme \<Rightarrow> 'x socket_scheme result" where
  "system_store data s =
     (case sk_pendingRead s of
        None \<Rightarrow> Inl UndefinedBehaviour
      | Some (ptr, space) \<Rightarrow>
          if length data \<le> space
          then rbind (mem_write ptr data (sk_readBuffer s))
            (\<lambda>b. Inr (s\<lparr>sk_readBuffer := b, sk_pendingRead := None\<rparr>))
          else Inl UndefinedBehaviour)"

section \<open>Writing\<close>

definition AsyncProcessQueue :: "'x socket_scheme \<Rightarrow> bool \<times> 'x socket_scheme" where
  "AsyncProcessQueue s =
     (if sk_isWritingAsync s then (False, s)
      else (False, s\<lparr>sk_isWritingAsync := True, sk_pendingWrite := True\<rparr>))"

text \<open>\<open>_writeQueue.pop()\<close> and the delayed close that follows it.\<close>

definition pop_front :: "'x socket_scheme \<Rightarrow> 'x socket_scheme" where
  "pop_front s =
     (let s' = s\<lparr>sk_writeQueue := tl (sk_writeQueue s)\<rparr>
      in if sk_closing s' \<and> sk_writeQueue s' = [] then CloseSocket s' else s')"

definition HandleQueue ::
    "('os \<Rightarrow> bytes \<Rightarrow> write_result \<times> 'os) \<Rightarrow> 'os \<Rightarrow> 'x socket_scheme \<Rightarrow> (bool \<times> 'x socket_scheme \<times> 'os) result"
  where
  "HandleQueue write_some os s =
     (case sk_writeQueue s of
        [] \<Rightarrow> Inr (False, s, os)
      | queuedMessage # rest \<Rightarrow>
          let bytesToSend = GetActiveSize queuedMessage
          in rbind (mem_read (GetReadPointer queuedMessage) bytesToSend queuedMessage) (\<lambda>data.
               let (res, os') = write_some os data
               in case res of
                    WouldBlock \<Rightarrow> (let (r, s') = AsyncProcessQueue s in Inr (r, s', os'))
                  | WriteError \<Rightarrow>
                      Inr (False, pop_front (s\<lparr>sk_dropped := sk_dropped s @ [queuedMessage]\<rparr>), os')
                  | Sent bytesSent \<Rightarrow>
                      let s1 = s\<lparr>sk_sent := sk_sent s @ take bytesSent data\<rparr>
                      in if bytesSent = 0 then Inr (False, pop_front s1, os')
                         else if bytesSent < bytesToSend then
                           let s2 = s1\<lparr>sk_writeQueue := ReadCompleted bytesSent queuedMessage # rest\<rparr>;
                               (r, s') = AsyncProcessQueue s2
                           in Inr (r, s', os')
                         else let s' = pop_front s1 in Inr (sk_writeQueue s' \<noteq> [], s', os')))"

definition WriteHandlerWrapper ::
    "('os \<Rightarrow> bytes \<Rightarrow> write_result \<times> 'os) \<Rightarrow> 'os \<Rightarrow> 'x socket_scheme \<Rightarrow> ('x socket_scheme \<times> 'os) result" where
  "WriteHandlerWrapper write_some os s =
     rbind (HandleQueue write_some os (s\<lparr>sk_isWritingAsync := False, sk_pendingWrite := False\<rparr>))
       (\<lambda>(_, s', os'). Inr (s', os'))"

lemma sk_writeQueue_CloseSocket [simp]: "sk_writeQueue (CloseSocket s) = sk_writeQueue s"
  by (simp add: CloseSocket_def)

lemma sk_writeQueue_pop_front [simp]: "sk_writeQueue (pop_front s) = tl (sk_writeQueue s)"
  by (simp add: pop_front_def Let_def)

lemma HandleQueue_pops:
  assumes "HandleQueue write_some os s = Inr (True, s', os')"
  shows "length (sk_writeQueue s') < length (sk_writeQueue s)"
proof (cases "sk_writeQueue s")
  case (Cons m rest)
  with assms obtain data where d: "mem_read (GetReadPointer m) (GetActiveSize m) m = Inr data"
    by (cases "mem_read (GetReadPointer m) (GetActiveSize m) m") (auto simp: HandleQueue_def Let_def)
  obtain res os1 where w: "write_some os data = (res, os1)" by (cases "write_some os data")
  show ?thesis
    using assms Cons d w
    by (cases res) (auto simp: HandleQueue_def Let_def AsyncProcessQueue_def split: if_splits)
qed (use assms in \<open>simp add: HandleQueue_def\<close>)

text \<open>The loop \<open>for (; HandleQueue();)\<close> of \<open>Update\<close>.\<close>

function flush ::
    "('os \<Rightarrow> bytes \<Rightarrow> write_result \<times> 'os) \<Rightarrow> 'os \<Rightarrow> 'x socket_scheme \<Rightarrow> ('x socket_scheme \<times> 'os) result"
  where
  "flush write_some os s =
     (case HandleQueue write_some os s of
        Inl e \<Rightarrow> Inl e
      | Inr (again, s', os') \<Rightarrow> if again then flush write_some os' s' else Inr (s', os'))"
  by pat_completeness auto
termination
proof (relation "measure (\<lambda>(write_some, os, s). length (sk_writeQueue s))", goal_cases)
  case (2 write_some os s x again y s' os')
  then show ?case by (auto dest!: HandleQueue_pops)
qed simp

declare flush.simps [simp del]

text \<open>\<open>Socket::Update\<close>.\<close>

definition Socket_Update ::
    "('os \<Rightarrow> bytes \<Rightarrow> write_result \<times> 'os) \<Rightarrow> 'os \<Rightarrow> 'x socket_scheme \<Rightarrow> (bool \<times> 'x socket_scheme \<times> 'os) result"
  where
  "Socket_Update write_some os s =
     (if sk_closed s then Inr (False, s, os)
      else if sk_isWritingAsync s \<or> (sk_writeQueue s = [] \<and> \<not> sk_closing s) then Inr (True, s, os)
      else rbind (flush write_some os s) (\<lambda>(s', os'). Inr (True, s', os')))"

section \<open>What is written\<close>

text \<open>
  The byte stream of a socket: what the system took, and what is queued.  The system's
  documented behaviour: it takes no more than it is offered, and at least one byte of a
  nonempty offer; \<open>no_error\<close> adds that the connection is up.
\<close>

definition stream :: "'x socket_scheme \<Rightarrow> bytes" where
  "stream s = sk_sent s @ concat (map active (sk_writeQueue s))"

definition write_ok :: "('os \<Rightarrow> bytes \<Rightarrow> write_result \<times> 'os) \<Rightarrow> bool" where
  "write_ok write_some \<longleftrightarrow> (\<forall>os data k os'. write_some os data = (Sent k, os') \<longrightarrow>
     k \<le> length data \<and> (data \<noteq> [] \<longrightarrow> 0 < k))"

definition no_error :: "('os \<Rightarrow> bytes \<Rightarrow> write_result \<times> 'os) \<Rightarrow> bool" where
  "no_error write_some \<longleftrightarrow> (\<forall>os data os'. write_some os data \<noteq> (WriteError, os'))"

definition takes_all :: "('os \<Rightarrow> bytes \<Rightarrow> write_result \<times> 'os) \<Rightarrow> bool" where
  "takes_all write_some \<longleftrightarrow> (\<forall>os data. fst (write_some os data) = Sent (length data))"

text \<open>The queue holds well-formed messages.\<close>

definition queue_ok :: "'x socket_scheme \<Rightarrow> bool" where
  "queue_ok s \<longleftrightarrow> list_all mb_inv (sk_writeQueue s)"

lemma mem_read_active: "mb_inv m \<Longrightarrow> mem_read (GetReadPointer m) (GetActiveSize m) m = Inr (active m)"
  by (simp add: mem_read_def GetReadPointer_def buf_simps active_def) (simp add: mb_inv_def)

lemma CloseSocket_fields [simp]:
  "sk_sent (CloseSocket s) = sk_sent s" "sk_closed (CloseSocket s)" "sk_closing (CloseSocket s) = sk_closing s"
  "sk_readBuffer (CloseSocket s) = sk_readBuffer s" "sk_pendingRead (CloseSocket s) = sk_pendingRead s"
  "sk_dropped (CloseSocket s) = sk_dropped s"
  by (simp_all add: CloseSocket_def)

lemma pop_front_fields [simp]:
  "sk_sent (pop_front s) = sk_sent s" "sk_readBuffer (pop_front s) = sk_readBuffer s"
  "sk_dropped (pop_front s) = sk_dropped s"
  by (simp_all add: pop_front_def Let_def)

lemma AsyncProcessQueue_fields:
  assumes "AsyncProcessQueue s = (r, s')"
  shows "r = False" "sk_sent s' = sk_sent s" "sk_writeQueue s' = sk_writeQueue s" "sk_isWritingAsync s'"
    "sk_readBuffer s' = sk_readBuffer s" "sk_dropped s' = sk_dropped s"
  using assms by (auto simp: AsyncProcessQueue_def split: if_splits)

lemma HandleQueue_ok:
  assumes "queue_ok s" "write_ok write_some" "no_error write_some"
  shows "\<exists>r s' os'. HandleQueue write_some os s = Inr (r, s', os') \<and> queue_ok s' \<and> stream s' = stream s \<and>
    sk_dropped s' = sk_dropped s \<and> sk_readBuffer s' = sk_readBuffer s"
proof (cases "sk_writeQueue s")
  case Nil
  with assms(1) show ?thesis by (auto simp: HandleQueue_def)
next
  case (Cons m rest)
  obtain res os' where w: "write_some os (active m) = (res, os')" by (cases "write_some os (active m)")
  have m: "mb_inv m" "list_all mb_inv rest" using assms(1) Cons by (simp_all add: queue_ok_def)
  have h: "mem_read (GetReadPointer m) (GetActiveSize m) m = Inr (active m)" by (rule mem_read_active [OF m(1)])
  have size: "GetActiveSize m = length (active m)" by (rule GetActiveSize_active [OF m(1)])
  have h': "mem_read (GetReadPointer m) (length (active m)) m = Inr (active m)" using h by (simp only: size)
  have stm: "stream s = sk_sent s @ active m @ concat (map active rest)" by (simp add: stream_def Cons)
  show ?thesis
  proof (cases res)
    case WriteError
    with w assms(3) show ?thesis by (simp add: no_error_def)
  next
    case WouldBlock
    obtain r s' where a: "AsyncProcessQueue s = (r, s')" by (cases "AsyncProcessQueue s")
    with AsyncProcessQueue_fields [OF a] assms(1) show ?thesis
      by (auto simp: HandleQueue_def Cons h w WouldBlock Let_def queue_ok_def stream_def simp del: length_active)
  next
    case (Sent k)
    with w assms(2) have k: "k \<le> length (active m)" "active m \<noteq> [] \<longrightarrow> 0 < k" by (auto simp: write_ok_def)
    consider "k = 0" | "0 < k" "k < length (active m)" | "0 < k" "k = length (active m)" using k(1) by linarith
    then show ?thesis
    proof cases
      case 1
      then have "HandleQueue write_some os s = Inr (False, pop_front (s\<lparr>sk_sent := sk_sent s @ take k (active m)\<rparr>), os')"
        by (simp add: HandleQueue_def Cons h w Sent Let_def)
      with 1 k(2) m stm show ?thesis by (auto simp: Cons queue_ok_def stream_def)
    next
      case 2
      let ?s2 = "s\<lparr>sk_sent := sk_sent s @ take k (active m), sk_writeQueue := ReadCompleted k m # rest\<rparr>"
      obtain r s' where a: "AsyncProcessQueue ?s2 = (r, s')" by (cases "AsyncProcessQueue ?s2")
      have rc: "mb_inv (ReadCompleted k m)" "active (ReadCompleted k m) = drop k (active m)"
        using ReadCompleted_ok [OF m(1), of k] k(1) size by simp_all
      have "HandleQueue write_some os s = Inr (r, s', os')"
        using 2 a by (simp add: HandleQueue_def Cons h' w Sent Let_def size del: length_active)
      moreover have "stream s' = stream s"
        using AsyncProcessQueue_fields [OF a] rc(2) stm by (simp add: stream_def)
      ultimately show ?thesis
        using AsyncProcessQueue_fields [OF a] rc(1) m by (auto simp: queue_ok_def)
    next
      case 3
      with m stm show ?thesis
        by (simp add: HandleQueue_def Cons h' w Sent Let_def size queue_ok_def stream_def del: length_active)
    qed
  qed
qed

lemma flush_ok:
  assumes "write_ok write_some" "no_error write_some"
  shows "queue_ok s \<Longrightarrow> \<exists>s' os'. flush write_some os s = Inr (s', os') \<and> queue_ok s' \<and> stream s' = stream s \<and>
    sk_dropped s' = sk_dropped s \<and> sk_readBuffer s' = sk_readBuffer s"
proof (induction "length (sk_writeQueue s)" arbitrary: s os rule: less_induct)
  case less
  from HandleQueue_ok [OF less(2) assms, of os] obtain r s1 os1 where
    h: "HandleQueue write_some os s = Inr (r, s1, os1)" "queue_ok s1" "stream s1 = stream s"
      "sk_dropped s1 = sk_dropped s" "sk_readBuffer s1 = sk_readBuffer s"
    by blast
  show ?case
  proof (cases r)
    case True
    with HandleQueue_pops [of write_some os s s1 os1] h(1)
    have "length (sk_writeQueue s1) < length (sk_writeQueue s)" by simp
    from less(1) [OF this h(2), of os1] h True show ?thesis by (simp add: flush.simps [of write_some os s])
  next
    case False
    with h show ?thesis by (simp add: flush.simps [of write_some os s])
  qed
qed

text \<open>A system that takes everything it is offered empties a queue of nonempty messages.\<close>

lemma flush_drains:
  assumes "takes_all write_some"
  shows "queue_ok s \<Longrightarrow> list_all (\<lambda>m. active m \<noteq> []) (sk_writeQueue s) \<Longrightarrow>
    \<exists>s' os'. flush write_some os s = Inr (s', os') \<and> sk_writeQueue s' = [] \<and> sk_sent s' = stream s \<and>
      sk_closing s' = sk_closing s \<and>
      (sk_writeQueue s \<noteq> [] \<longrightarrow> sk_closing s \<longrightarrow> sk_closed s')"
proof (induction "sk_writeQueue s" arbitrary: s os)
  case Nil
  then show ?case by (subst flush.simps) (simp add: HandleQueue_def stream_def)
next
  case (Cons m rest)
  note q = Cons.hyps(2) [symmetric]
  have m: "mb_inv m" "active m \<noteq> []" using Cons.prems by (simp_all add: q queue_ok_def)
  obtain os1 where w: "write_some os (active m) = (Sent (length (active m)), os1)"
    using assms unfolding takes_all_def by (metis prod.collapse)
  have rd: "mem_read (GetReadPointer m) (length (active m)) m = Inr (active m)"
    using mem_read_active [OF m(1)] by (simp only: GetActiveSize_active [OF m(1)])
  let ?s1 = "pop_front (s\<lparr>sk_sent := sk_sent s @ active m\<rparr>)"
  have h: "HandleQueue write_some os s = Inr (rest \<noteq> [], ?s1, os1)"
    using m rd by (simp add: HandleQueue_def q w Let_def GetActiveSize_active del: length_active)
  have cl: "sk_closing ?s1 = sk_closing s" "rest = [] \<longrightarrow> sk_closing s \<longrightarrow> sk_closed ?s1"
    by (simp_all add: pop_front_def Let_def q)
  show ?case
  proof (cases "rest = []")
    case True
    with h cl show ?thesis by (subst flush.simps) (simp add: q stream_def)
  next
    case False
    have "rest = sk_writeQueue ?s1" by (simp add: q)
    moreover have "queue_ok ?s1" "list_all (\<lambda>m. active m \<noteq> []) (sk_writeQueue ?s1)"
      using Cons.prems by (simp_all add: queue_ok_def q)
    ultimately obtain s' os' where f: "flush write_some os1 ?s1 = Inr (s', os')" "sk_writeQueue s' = []"
        "sk_sent s' = stream ?s1" "sk_closing s' = sk_closing ?s1"
        "sk_writeQueue ?s1 \<noteq> [] \<longrightarrow> sk_closing ?s1 \<longrightarrow> sk_closed s'"
      using Cons.hyps(1) [of ?s1 os1] by blast
    have "flush write_some os s = Inr (s', os')" using h False f(1) by (subst flush.simps) simp
    moreover have "stream ?s1 = stream s" by (simp add: stream_def q)
    ultimately show ?thesis using f False cl by (simp add: q)
  qed
qed

section \<open>Properties of the socket\<close>

text \<open>
  C23: no byte is lost, duplicated or reordered on the way out.  As long as the connection
  does not fail, \<open>Update\<close> ends, and the bytes the system has taken followed by the bytes
  still queued are the same before and after, however little the system takes each time.
\<close>
theorem socket_update_stream:
  assumes "queue_ok s" "write_ok write_some" "no_error write_some"
  shows "\<exists>r s' os'. Socket_Update write_some os s = Inr (r, s', os') \<and> r = (\<not> sk_closed s) \<and> queue_ok s' \<and>
    stream s' = stream s \<and> sk_dropped s' = sk_dropped s"
  using flush_ok [OF assms(2,3,1), of os] assms(1) by (auto simp: Socket_Update_def)

definition two_bytes_at_a_time :: "nat \<Rightarrow> bytes \<Rightarrow> write_result \<times> nat" where
  "two_bytes_at_a_time n data = (if n = 0 then WouldBlock else Sent (min 2 (length data)), n - 1)"

lemma witness_write_ok: "write_ok two_bytes_at_a_time" "no_error two_bytes_at_a_time"
  by (auto simp: write_ok_def no_error_def two_bytes_at_a_time_def)

lemma witness_queue_ok: "queue_ok (QueuePacket (MessageBuffer_sized 3) Socket_new)"
  by (simp add: queue_ok_def QueuePacket_def Socket_new_def mb_inv_sized)

theorem socket_update_stream_witness:
  "\<exists>r s' os'. Socket_Update two_bytes_at_a_time 5 (QueuePacket (MessageBuffer_sized 3) Socket_new) = Inr (r, s', os') \<and>
    stream s' = stream (QueuePacket (MessageBuffer_sized 3) Socket_new)"
  using socket_update_stream [OF witness_queue_ok witness_write_ok, of 5] by blast

text \<open>
  A socket marked for a delayed close sends what is queued before it closes: with a
  system that takes all it is offered, \<open>Update\<close> writes every queued byte and then closes
  the socket.
\<close>
theorem delayed_close_flushes:
  assumes "queue_ok s" "list_all (\<lambda>m. active m \<noteq> []) (sk_writeQueue s)" "sk_writeQueue s \<noteq> []"
    and "\<not> sk_closed s" "\<not> sk_isWritingAsync s"
    and "takes_all write_some"
  shows "\<exists>s' os'. Socket_Update write_some os (DelayedCloseSocket s) = Inr (True, s', os') \<and>
    sk_writeQueue s' = [] \<and> sk_sent s' = stream s \<and> sk_closed s'"
proof -
  have "queue_ok (DelayedCloseSocket s)" "list_all (\<lambda>m. active m \<noteq> []) (sk_writeQueue (DelayedCloseSocket s))"
    using assms(1,2) by (simp_all add: DelayedCloseSocket_def queue_ok_def)
  from flush_drains [OF assms(6) this, where ?os = os] obtain s' os' where
    "flush write_some os (DelayedCloseSocket s) = Inr (s', os')" "sk_writeQueue s' = []"
    "sk_sent s' = stream (DelayedCloseSocket s)"
    "sk_writeQueue (DelayedCloseSocket s) \<noteq> [] \<longrightarrow> sk_closing (DelayedCloseSocket s) \<longrightarrow> sk_closed s'"
    by blast
  then show ?thesis
    using assms(3-5) by (auto simp: Socket_Update_def DelayedCloseSocket_def stream_def)
qed

definition greeting :: message_buffer where
  "greeting = \<lparr>mb_wpos = 2, mb_rpos = 0, mb_storage = [72, 105]\<rparr>"

theorem delayed_close_flushes_witness:
  "\<exists>s' os'. Socket_Update (\<lambda>os data. (Sent (length data), os)) () (DelayedCloseSocket (QueuePacket greeting Socket_new)) =
    Inr (True, s', os') \<and> sk_sent s' = [72, 105] \<and> sk_closed s'"
  using delayed_close_flushes [of "QueuePacket greeting Socket_new" "\<lambda>os data. (Sent (length data), os)" "()"]
  by (auto simp: QueuePacket_def Socket_new_def queue_ok_def greeting_def mb_inv_def active_def slice_def
      stream_def takes_all_def)

text \<open>
  A socket marked for closing while nothing is queued is never closed by its updates:
  \<open>HandleQueue\<close> returns on an empty queue before it looks at \<open>_closing\<close>, so \<open>Update\<close>
  leaves the socket as it is, although no more can be queued on it.
\<close>
theorem delayed_close_stuck_when_idle:
  assumes "sk_writeQueue s = []" "\<not> sk_closed s"
  shows "Socket_Update write_some os (DelayedCloseSocket s) = Inr (True, DelayedCloseSocket s, os) \<and>
    \<not> sk_closed (DelayedCloseSocket s) \<and> \<not> IsOpen (DelayedCloseSocket s)"
  using assms by (simp add: Socket_Update_def DelayedCloseSocket_def IsOpen_def flush.simps HandleQueue_def)

theorem delayed_close_stuck_when_idle_witness:
  "Socket_Update (\<lambda>os data. (Sent (length data), os)) () (DelayedCloseSocket Socket_new) =
     Inr (True, DelayedCloseSocket Socket_new, ())"
  using delayed_close_stuck_when_idle [of Socket_new "\<lambda>os data. (Sent (length data), os)" "()"]
  by (simp add: Socket_new_def)

end
