(* ===== verification/ClientSocket.thy ===== *)
theory ClientSocket
  imports DiscordDefs PacketQueue Socket
begin

text \<open>
  \<^verbatim>\<open>src/client/Client/ClientSocket.h\<close> and \<^verbatim>\<open>ClientSocket.cpp\<close>: the client's connection to the
  Discord server: framing of the incoming bytes, authentication, pings and the outgoing
  packets.

  The handlers call \<open>sClientSocketMgr->Disconnect()\<close>; \<open>conn\<close> is a socket with what it sees of
  the manager: whether the manager's \<open>_clientSocket\<close> is this socket, and its \<open>_stopped\<close>
  flag.  The steady clock is the argument \<open>now\<close>, in microseconds; the host's byte order is
  the argument \<open>e\<close>.  Logging has no effect: \<open>LOG_EXCEPTION_FREE\<close> evaluates its arguments and
  swallows what they throw.
\<close>

section \<open>The connection\<close>

record client_socket = socket +
  cs_headerBuffer :: message_buffer
  cs_packetBuffer :: message_buffer
  cs_authed :: bool
  cs_accountName :: bytes
  cs_accountKey :: bytes
  cs_serverID :: uint64
  cs_startTime :: int
  cs_latency :: int
  cs_bufferQueue :: "discord_packet packet_queue"

record conn =
  cn_socket :: client_socket
  cn_attached :: bool
  cn_stopped :: bool

definition on_socket :: "(client_socket \<Rightarrow> client_socket) \<Rightarrow> conn \<Rightarrow> conn" where
  "on_socket f c = c\<lparr>cn_socket := f (cn_socket c)\<rparr>"

definition on_socket_r :: "(client_socket \<Rightarrow> client_socket result) \<Rightarrow> conn \<Rightarrow> conn result" where
  "on_socket_r f c = rbind (f (cn_socket c)) (\<lambda>s. Inr (c\<lparr>cn_socket := s\<rparr>))"

text \<open>\<open>ClientSocketMgr::Disconnect\<close>, as a handler of this socket calls it.\<close>

definition Disconnect :: "conn \<Rightarrow> conn" where
  "Disconnect c =
     (let c1 = c\<lparr>cn_stopped := True\<rparr>;
          c2 = (if cn_attached c1 \<and> IsOpen (cn_socket c1) then on_socket CloseSocket c1 else c1)
      in c2\<lparr>cn_attached := False\<rparr>)"

text \<open>The constructor, for the values of the three configuration options.\<close>

definition ClientSocket_new :: "bytes \<Rightarrow> bytes \<Rightarrow> uint64 \<Rightarrow> conn" where
  "ClientSocket_new accountName accountKey serverID =
     (let s = socket.extend Socket_new
            \<lparr>cs_headerBuffer = MessageBuffer_default, cs_packetBuffer = MessageBuffer_default,
             cs_authed = False, cs_accountName = accountName, cs_accountKey = accountKey,
             cs_serverID = serverID, cs_startTime = 0, cs_latency = 0,
             cs_bufferQueue = PacketQueue_new\<rparr>;
          c0 = \<lparr>cn_socket = s, cn_attached = False, cn_stopped = False\<rparr>;
          c1 = (if serverID = 0 then on_socket CloseSocket (Disconnect c0) else c0);
          c2 = (if accountName = [] then on_socket CloseSocket (Disconnect c1) else c1);
          c3 = (if accountKey = [] then on_socket CloseSocket (Disconnect c2) else c2)
      in on_socket (\<lambda>s. s\<lparr>cs_headerBuffer := Resize sizeof_DiscordClientPktHeader (cs_headerBuffer s)\<rparr>) c3)"

text \<open>\<open>SetAccountName\<close> assigns the current name to itself.\<close>

definition SetAccountName :: "bytes \<Rightarrow> client_socket \<Rightarrow> client_socket" where
  "SetAccountName name s = s\<lparr>cs_accountName := cs_accountName s\<rparr>"

section \<open>Sending\<close>

text \<open>Header and contents written to a buffer, as both branches of \<open>SendPacket\<close> do.\<close>

definition fill_buffer :: "bytes \<Rightarrow> discord_packet \<Rightarrow> message_buffer \<Rightarrow> message_buffer result" where
  "fill_buffer header packet buffer =
     rbind (Write header buffer) (\<lambda>buffer.
       if \<not> bb_empty (pk_buffer packet)
       then rbind (contents (pk_buffer packet)) (\<lambda>data. Write data buffer) else Inr buffer)"

definition SendPacket :: "discord_packet \<Rightarrow> client_socket \<Rightarrow> client_socket result" where
  "SendPacket packet s =
     (if \<not> IsOpen s then Inr s
      else
        let buffer = MessageBuffer_default;
            sz = bb_size (pk_buffer packet);
            header = DiscordServerPktHeader (word_of_nat (sz_add sz 2)) (pk_opcode packet);
            (buffer, s) =
              (if GetRemainingSpace buffer < sz_add sz (GetHeaderLength header) then
                 let (moved, buffer') = move_MessageBuffer buffer in (buffer', QueuePacket moved s)
               else (buffer, s))
        in rbind
          (if GetRemainingSpace buffer \<ge> sz_add sz (GetHeaderLength header) then
             rbind (fill_buffer header packet buffer) (\<lambda>buffer. Inr (buffer, s))
           else
             rbind (fill_buffer header packet (MessageBuffer_sized (sz_add sz (GetHeaderLength header))))
               (\<lambda>packetBuffer. Inr (buffer, QueuePacket packetBuffer s)))
          (\<lambda>(buffer, s). Inr (if GetActiveSize buffer > 0 then QueuePacket buffer s else s)))"

definition ClientSocket_AddPacketToQueue :: "discord_packet \<Rightarrow> client_socket \<Rightarrow> client_socket" where
  "ClientSocket_AddPacketToQueue packet s =
     s\<lparr>cs_bufferQueue := AddPacket (copy_DiscordPacket packet) (cs_bufferQueue s)\<rparr>"

definition SendPingMessage :: "endian \<Rightarrow> int \<Rightarrow> client_socket \<Rightarrow> client_socket result" where
  "SendPingMessage e now s =
     (let packetPing = DiscordPacket CLIENT_SEND_PING 1
      in rbind (put_all (put_value e) [VI64 (word_of_int now), VI64 (word_of_int (cs_latency s))]
                  (pk_buffer packetPing))
           (\<lambda>b. SendPacket (packetPing\<lparr>pk_buffer := b\<rparr>) s))"

definition WARHEAD_DISCORD_VERSION :: nat where
  "WARHEAD_DISCORD_VERSION = 100000"

text \<open>
  \<open>SendAuthSession\<close>; the two strings of \<open>GitRevision\<close> are generated by the build and are
  arguments.
\<close>

definition SendAuthSession :: "endian \<Rightarrow> int \<Rightarrow> bytes \<Rightarrow> bytes \<Rightarrow> client_socket \<Rightarrow> client_socket result" where
  "SendAuthSession e now companyName fileVersion s =
     (let packet = DiscordPacket CLIENT_AUTH_SESSION 1
      in rbind (put_all (put_value e)
            [VString (cs_accountName s), VString (cs_accountKey s), VString companyName,
             VString fileVersion, VU32 (word_of_nat WARHEAD_DISCORD_VERSION), VI64 (cs_serverID s)]
            (pk_buffer packet))
         (\<lambda>b. rbind (SendPacket (packet\<lparr>pk_buffer := b\<rparr>) s) (\<lambda>s. AsyncRead (s\<lparr>cs_startTime := now\<rparr>))))"

definition Start :: "endian \<Rightarrow> int \<Rightarrow> bytes \<Rightarrow> bytes \<Rightarrow> client_socket \<Rightarrow> client_socket result" where
  "Start e now companyName fileVersion s = SendAuthSession e now companyName fileVersion s"

lemma SendPacket_bufferQueue:
  assumes "SendPacket packet s = Inr s'"
  shows "cs_bufferQueue s' = cs_bufferQueue s"
  using assms
  by (auto simp: SendPacket_def QueuePacket_def Let_def rbind_eq_Inr split: if_splits prod.splits)

text \<open>The loop of \<open>Update\<close> over the packets queued by other threads.\<close>

function send_queued :: "client_socket \<Rightarrow> client_socket result" where
  "send_queued s =
     (case GetNextPacket (cs_bufferQueue s) of
        None \<Rightarrow> Inr s
      | Some (queuedPacket, q) \<Rightarrow>
          (case SendPacket queuedPacket (s\<lparr>cs_bufferQueue := q\<rparr>) of
             Inl err \<Rightarrow> Inl err
           | Inr s' \<Rightarrow> send_queued s'))"
  by pat_completeness auto
termination
  by (relation "measure (\<lambda>s. length (pq_queue (cs_bufferQueue s)))")
    (auto simp: GetNextPacket_def split: list.splits dest: SendPacket_bufferQueue)

declare send_queued.simps [simp del]

definition ClientSocket_Update ::
    "('os \<Rightarrow> bytes \<Rightarrow> write_result \<times> 'os) \<Rightarrow> 'os \<Rightarrow> client_socket \<Rightarrow> (bool \<times> client_socket \<times> 'os) result" where
  "ClientSocket_Update write_some os s =
     rbind (if cs_authed s then send_queued s else Inr s) (Socket_Update write_some os)"

section \<open>Receiving\<close>

datatype ReadDataHandlerResult = ReadOk | ReadError | WaitingForQuery

text \<open>Signed 64-bit subtraction of the clock library: overflow is undefined.\<close>

definition int64_diff :: "int \<Rightarrow> int \<Rightarrow> int result" where
  "int64_diff a b = (if - (2 ^ 63) \<le> a - b \<and> a - b < 2 ^ 63 then Inr (a - b) else Inl UndefinedBehaviour)"

definition HandleAuthResponce :: "endian \<Rightarrow> int \<Rightarrow> discord_packet \<Rightarrow> conn \<Rightarrow> conn result" where
  "HandleAuthResponce e now packet c =
     rbind (read_val e (pk_buffer packet)) (\<lambda>(code, _).
       rbind (AuthCode_ToString code) (\<lambda>codeString.
         if code \<noteq> Auth_Ok then Inr (Disconnect c)
         else on_socket_r (SendPingMessage e now) (on_socket (\<lambda>s. s\<lparr>cs_authed := True\<rparr>) c)))"

definition HandlePong :: "endian \<Rightarrow> int \<Rightarrow> discord_packet \<Rightarrow> conn \<Rightarrow> conn result" where
  "HandlePong e now packet c =
     rbind (read_val e (pk_buffer packet)) (\<lambda>(timePacket :: uint64, _).
       rbind (int64_diff now (sint timePacket)) (\<lambda>d. Inr (on_socket (\<lambda>s. s\<lparr>cs_latency := d\<rparr>) c)))"

text \<open>The \<open>switch\<close> of \<open>ReadDataHandler\<close>.\<close>

definition dispatch :: "endian \<Rightarrow> int \<Rightarrow> DiscordCode \<Rightarrow> discord_packet \<Rightarrow> conn \<Rightarrow> (ReadDataHandlerResult \<times> conn) result"
  where
  "dispatch e now opcode packet c =
     (if opcode = SERVER_SEND_AUTH_RESPONSE then
        (if cs_authed (cn_socket c) then Inr (ReadError, Disconnect c)
         else rbind (HandleAuthResponce e now packet c) (\<lambda>c. Inr (ReadOk, c)))
      else if opcode = SERVER_SEND_PONG then
        (if \<not> cs_authed (cn_socket c) then Inr (ReadError, Disconnect c)
         else rbind (HandlePong e now packet c) (\<lambda>c. Inr (ReadOk, c)))
      else Inr (ReadError, c))"

definition ReadDataHandler :: "endian \<Rightarrow> int \<Rightarrow> conn \<Rightarrow> (ReadDataHandlerResult \<times> conn) result" where
  "ReadDataHandler e now c =
     (let hb = cs_headerBuffer (cn_socket c)
      in rbind (mem_read (GetReadPointer hb) sizeof_DiscordClientPktHeader hb) (\<lambda>mem.
        let opcode = hdr_cmd (header_of_memory e mem);
            (packet, pb) = DiscordPacket_of_message opcode (cs_packetBuffer (cn_socket c))
        in dispatch e now opcode packet (on_socket (\<lambda>s. s\<lparr>cs_packetBuffer := pb\<rparr>) c)))"

text \<open>\<open>ReadHeaderHandler\<close> works on the header in place, in the header buffer.\<close>

definition ReadHeaderHandler :: "endian \<Rightarrow> client_socket \<Rightarrow> (bool \<times> client_socket) result" where
  "ReadHeaderHandler e s =
     (let hb = cs_headerBuffer s
      in if GetActiveSize hb \<noteq> sizeof_DiscordClientPktHeader then Inl AssertionFailed
         else rbind (mem_read (GetReadPointer hb) sizeof_DiscordClientPktHeader hb) (\<lambda>mem.
           let converted = convert_header e mem;
               header = header_of_memory e converted
           in if \<not> IsValidSize header \<or> \<not> IsValidOpcode header then
                rbind (mem_write (GetReadPointer hb) converted hb)
                  (\<lambda>hb. Inr (False, s\<lparr>cs_headerBuffer := hb\<rparr>))
              else
                let header' = header\<lparr>hdr_size := hdr_size header - 2\<rparr>
                in rbind (mem_write (GetReadPointer hb) (memory_of_header e header') hb)
                     (\<lambda>hb. Inr (True, s\<lparr>cs_headerBuffer := hb,
                        cs_packetBuffer := Resize (unat (hdr_size header')) (cs_packetBuffer s)\<rparr>))))"

text \<open>
  The part of the loop body that moves bytes from the read buffer to the header or packet
  buffer: as many as are there and fit.
\<close>

definition take_bytes :: "message_buffer \<Rightarrow> message_buffer \<Rightarrow> (message_buffer \<times> message_buffer) result" where
  "take_bytes packet target =
     (let n = min (GetActiveSize packet) (GetRemainingSpace target)
      in rbind (if n = 0 then Inr [] else mem_read (GetReadPointer packet) n packet) (\<lambda>data.
           rbind (Write data target) (\<lambda>target. Inr (ReadCompleted n packet, target))))"

text \<open>How one iteration of the loop in \<open>ReadHandler\<close> ends.\<close>

datatype loop_step = Break conn | Return conn | Continue conn

text \<open>The end of the body: a complete packet is handled and the header buffer starts over.\<close>

definition finish_packet :: "endian \<Rightarrow> int \<Rightarrow> conn \<Rightarrow> loop_step result" where
  "finish_packet e now c =
     rbind (ReadDataHandler e now c) (\<lambda>(result, c).
       let c = on_socket (\<lambda>s. s\<lparr>cs_headerBuffer := Reset (cs_headerBuffer s)\<rparr>) c
       in if result \<noteq> ReadOk
          then Inr (Return (if result \<noteq> WaitingForQuery then on_socket CloseSocket c else c))
          else Inr (Continue c))"

text \<open>The second half of the body, once the header is complete: the payload.\<close>

definition read_payload :: "endian \<Rightarrow> int \<Rightarrow> conn \<Rightarrow> loop_step result" where
  "read_payload e now c =
     (if GetRemainingSpace (cs_packetBuffer (cn_socket c)) > 0 then
        rbind (take_bytes (sk_readBuffer (cn_socket c)) (cs_packetBuffer (cn_socket c))) (\<lambda>(rb, pb).
          let c' = on_socket (\<lambda>s. s\<lparr>sk_readBuffer := rb, cs_packetBuffer := pb\<rparr>) c
          in if GetRemainingSpace pb > 0
             then (if GetActiveSize rb = 0 then Inr (Break c') else Inl AssertionFailed)
             else finish_packet e now c')
      else finish_packet e now c)"

definition read_step :: "endian \<Rightarrow> int \<Rightarrow> conn \<Rightarrow> loop_step result" where
  "read_step e now c =
     (if GetRemainingSpace (cs_headerBuffer (cn_socket c)) > 0 then
        rbind (take_bytes (sk_readBuffer (cn_socket c)) (cs_headerBuffer (cn_socket c))) (\<lambda>(rb, hb).
          let c' = on_socket (\<lambda>s. s\<lparr>sk_readBuffer := rb, cs_headerBuffer := hb\<rparr>) c
          in if GetRemainingSpace hb > 0
             then (if GetActiveSize rb = 0 then Inr (Break c') else Inl AssertionFailed)
             else rbind (ReadHeaderHandler e (cn_socket c')) (\<lambda>(ok, s).
                    let c'' = c'\<lparr>cn_socket := s\<rparr>
                    in if \<not> ok then Inr (Return (on_socket CloseSocket c''))
                       else read_payload e now c''))
      else read_payload e now c)"

text \<open>
  The loop.  \<open>None\<close> is a loop that never ends; the first component of the result says
  whether the loop was left to the \<open>AsyncRead\<close> after it.
\<close>

partial_function (option) read_loop :: "endian \<Rightarrow> int \<Rightarrow> conn \<Rightarrow> (bool \<times> conn) result option" where
  "read_loop e now c =
     (if GetActiveSize (sk_readBuffer (cn_socket c)) > 0 then
        (case read_step e now c of
           Inl err \<Rightarrow> Some (Inl err)
         | Inr st \<Rightarrow>
             (case st of
                Break c' \<Rightarrow> Some (Inr (True, c'))
              | Return c' \<Rightarrow> Some (Inr (False, c'))
              | Continue c' \<Rightarrow> read_loop e now c'))
      else Some (Inr (True, c)))"

definition ReadHandler :: "endian \<Rightarrow> int \<Rightarrow> conn \<Rightarrow> conn result option" where
  "ReadHandler e now c =
     map_option (\<lambda>r. rbind r (\<lambda>(again, c). if again then on_socket_r AsyncRead c else Inr c))
       (read_loop e now c)"

text \<open>\<open>Socket::ReadHandlerInternal\<close>, called when a read completes.\<close>

definition ReadHandlerInternal :: "endian \<Rightarrow> int \<Rightarrow> bool \<Rightarrow> nat \<Rightarrow> conn \<Rightarrow> conn result option" where
  "ReadHandlerInternal e now error transferredBytes c =
     (if error then Some (Inr (on_socket CloseSocket c))
      else ReadHandler e now
        (on_socket (\<lambda>s. s\<lparr>sk_readBuffer := WriteCompleted transferredBytes (sk_readBuffer s)\<rparr>) c))"

text \<open>A read of \<open>data\<close> completes on the connection: the system has stored the bytes and calls back.\<close>

definition receive :: "endian \<Rightarrow> int \<Rightarrow> bytes \<Rightarrow> conn \<Rightarrow> conn result option" where
  "receive e now data c =
     (case system_store data (cn_socket c) of
        Inl err \<Rightarrow> Some (Inl err)
      | Inr s \<Rightarrow> ReadHandlerInternal e now False (length data) (c\<lparr>cn_socket := s\<rparr>))"

end
