(* ===== verification/Sending.thy ===== *)
theory Sending
  imports ClientSocket
begin

text \<open>
  What the client puts on the wire: the bytes of a packet, of the authentication request
  and of a ping, and the packets other threads queue.
\<close>

section \<open>The bytes of a packet\<close>

definition packet_bytes :: "discord_packet \<Rightarrow> bytes" where
  "packet_bytes p =
     DiscordServerPktHeader (word_of_nat (bb_size (pk_buffer p) + 2)) (pk_opcode p) @ bb_storage (pk_buffer p)"

lemma length_header [simp]: "GetHeaderLength (DiscordServerPktHeader sz cmd) = 6"
  by (simp add: GetHeaderLength_def DiscordServerPktHeader_def)

lemma length_header' [simp]: "length (DiscordServerPktHeader sz cmd) = 6"
  by (simp add: DiscordServerPktHeader_def)

lemma GetRemainingSpace_default: "GetRemainingSpace MessageBuffer_default = 4096"
  by (simp add: buf_simps mb_inv_default) (simp add: MessageBuffer_default_def)

lemma GetRemainingSpace_sized: "n < 2 ^ 63 \<Longrightarrow> GetRemainingSpace (MessageBuffer_sized n) = n"
  by (simp add: buf_simps mb_inv_sized) (simp add: MessageBuffer_sized_def)

text \<open>Two writes that fit, as \<open>SendPacket\<close> performs them.\<close>

lemma write_packet:
  assumes "mb_inv b" "active b = []" "6 + bb_size (pk_buffer p) \<le> GetRemainingSpace b"
  shows "\<exists>b'. fill_buffer (DiscordServerPktHeader sz cmd) p b = Inr b' \<and> mb_inv b' \<and>
    active b' = DiscordServerPktHeader sz cmd @ bb_storage (pk_buffer p)"
proof -
  let ?h = "DiscordServerPktHeader sz cmd" and ?buf = "pk_buffer p"
  have "length ?h \<le> GetRemainingSpace b" using assms(3) by simp
  from Write_ok [OF assms(1) this] obtain b1 where b1: "Write ?h b = Inr b1" "mb_inv b1"
    "active b1 = active b @ ?h" "mb_wpos b1 = mb_wpos b + length ?h"
    "length (mb_storage b1) = length (mb_storage b)" by blast
  have "GetRemainingSpace b1 = GetRemainingSpace b - 6"
    using b1 assms(1) by (simp add: buf_simps)
  then have "length (bb_storage ?buf) \<le> GetRemainingSpace b1" using assms(3) by (simp add: bb_size_def)
  from Write_ok [OF b1(2) this] obtain b2 where "Write (bb_storage ?buf) b1 = Inr b2" "mb_inv b2"
    "active b2 = active b1 @ bb_storage ?buf" by blast
  with b1 assms(2) show ?thesis by (auto simp: fill_buffer_def bb_empty_def contents_def)
qed

lemma SendPacket_ok:
  assumes "IsOpen s" "bb_size (pk_buffer p) < 2 ^ 62"
  shows "\<exists>msgs. SendPacket p s = Inr (s\<lparr>sk_writeQueue := sk_writeQueue s @ msgs\<rparr>) \<and>
    list_all mb_inv msgs \<and> concat (map active msgs) = packet_bytes p"
proof -
  let ?sz = "bb_size (pk_buffer p)" and ?buf = "pk_buffer p"
  let ?h = "DiscordServerPktHeader (word_of_nat (?sz + 2)) (pk_opcode p)"
  have sz: "sz_add ?sz 2 = ?sz + 2" "sz_add ?sz 6 = ?sz + 6"
    using assms(2) by (simp_all add: sz_add_def size_mod_def)
  show ?thesis
  proof (cases "?sz + 6 \<le> 4096")
    case True
    from write_packet [OF mb_inv_default, of p "word_of_nat (?sz + 2)" "pk_opcode p"] True
    obtain b' where b': "fill_buffer ?h p MessageBuffer_default = Inr b'"
      "mb_inv b'" "active b' = ?h @ bb_storage ?buf"
      by (auto simp: GetRemainingSpace_default)
    have "0 < GetActiveSize b'" using b' by (simp add: GetActiveSize_active del: length_active)
    with b' True assms(1) show ?thesis
      by (intro exI [of _ "[b']"])
        (simp add: SendPacket_def Let_def sz GetRemainingSpace_default QueuePacket_def packet_bytes_def)
  next
    case False
    let ?e = "\<lparr>mb_wpos = 0, mb_rpos = 0, mb_storage = []\<rparr>"
    have e: "mb_inv ?e" "GetRemainingSpace ?e = 0" "GetActiveSize ?e = 0"
      by (simp_all add: mb_inv_def GetRemainingSpace_def GetActiveSize_def sz_sub_def)
    have lim: "?sz + 6 < 2 ^ 63" using assms(2) by simp
    have "active (MessageBuffer_sized (?sz + 6)) = []"
      by (simp add: active_def slice_def MessageBuffer_sized_def)
    with write_packet [OF mb_inv_sized [OF lim], of p "word_of_nat (?sz + 2)" "pk_opcode p"]
    obtain b' where b': "fill_buffer ?h p (MessageBuffer_sized (?sz + 6)) = Inr b'"
      "mb_inv b'" "active b' = ?h @ bb_storage ?buf"
      by (auto simp: GetRemainingSpace_sized [OF lim])
    have m: "move_MessageBuffer MessageBuffer_default = (MessageBuffer_default, ?e)"
      by (simp add: move_MessageBuffer_def Move_def MessageBuffer_default_def)
    from b' False assms(1) e show ?thesis
      by (intro exI [of _ "[MessageBuffer_default, b']"])
        (simp add: SendPacket_def Let_def sz GetRemainingSpace_default QueuePacket_def packet_bytes_def m
          mb_inv_default)
  qed
qed

section \<open>Composed packets\<close>

text \<open>A packet composed with \<open><<\<close> from values, and sent.\<close>

lemma compose_packet:
  assumes "length (concat (map value_bytes vs)) \<le> 10000000"
  shows "\<exists>b. put_all (put_value e) vs (pk_buffer (DiscordPacket opcode res)) = Inr b \<and>
    bb_storage b = concat (map value_bytes vs)"
proof -
  have "composing (ByteBuffer_reserve res)" "bb_size (ByteBuffer_reserve res) = 0"
    by (simp_all add: ByteBuffer_reserve_def bb_size_def composing_def bb_inv_def)
  with vals.put_all_enc [of "ByteBuffer_reserve res" vs e] assms show ?thesis
    by (auto simp: DiscordPacket_def ByteBuffer_reserve_def)
qed

definition value_packet_bytes :: "uint16 \<Rightarrow> bb_value list \<Rightarrow> bytes" where
  "value_packet_bytes opcode vs =
     (let body = concat (map value_bytes vs)
      in DiscordServerPktHeader (word_of_nat (length body + 2)) opcode @ body)"

lemma send_composed:
  assumes "IsOpen s" "length (concat (map value_bytes vs)) \<le> 10000000"
  shows "\<exists>msgs. rbind (put_all (put_value e) vs (pk_buffer (DiscordPacket opcode res)))
      (\<lambda>b. SendPacket ((DiscordPacket opcode res)\<lparr>pk_buffer := b\<rparr>) s) =
      Inr (s\<lparr>sk_writeQueue := sk_writeQueue s @ msgs\<rparr>) \<and>
    list_all mb_inv msgs \<and> concat (map active msgs) = value_packet_bytes opcode vs"
proof -
  from compose_packet [OF assms(2), of e opcode res] obtain b where
    b: "put_all (put_value e) vs (pk_buffer (DiscordPacket opcode res)) = Inr b"
      "bb_storage b = concat (map value_bytes vs)" by blast
  let ?p = "(DiscordPacket opcode res)\<lparr>pk_buffer := b\<rparr>"
  have "bb_size (pk_buffer ?p) < 2 ^ 62" using b assms(2) by (simp add: bb_size_def)
  from SendPacket_ok [OF assms(1) this] obtain msgs where
    "SendPacket ?p s = Inr (s\<lparr>sk_writeQueue := sk_writeQueue s @ msgs\<rparr>)" "list_all mb_inv msgs"
    "concat (map active msgs) = packet_bytes ?p" by blast
  with b show ?thesis
    by (intro exI [of _ msgs])
      (simp add: packet_bytes_def value_packet_bytes_def bb_size_def DiscordPacket_def Let_def)
qed

lemma SendPingMessage_ok:
  assumes "IsOpen s"
  shows "\<exists>msgs. SendPingMessage e now s = Inr (s\<lparr>sk_writeQueue := sk_writeQueue s @ msgs\<rparr>) \<and>
    list_all mb_inv msgs \<and>
    concat (map active msgs) =
      value_packet_bytes CLIENT_SEND_PING [VI64 (word_of_int now), VI64 (word_of_int (cs_latency s))]"
  using send_composed [OF assms, of "[VI64 (word_of_int now), VI64 (word_of_int (cs_latency s))]" e
      CLIENT_SEND_PING 1]
  by (simp add: SendPingMessage_def Let_def del: put_all.simps)

lemma SendPacket_closed: "\<not> IsOpen s \<Longrightarrow> SendPacket p s = Inr s"
  by (simp add: SendPacket_def)

lemma SendPingMessage_closed:
  assumes "\<not> IsOpen s"
  shows "SendPingMessage e now s = Inr s"
proof -
  let ?vs = "[VI64 (word_of_int now), VI64 (word_of_int (cs_latency s))]"
  obtain b where "put_all (put_value e) ?vs (pk_buffer (DiscordPacket CLIENT_SEND_PING 1)) = Inr b"
    using compose_packet [of ?vs e CLIENT_SEND_PING 1] by auto
  with assms show ?thesis
    by (simp add: SendPingMessage_def Let_def SendPacket_closed del: put_all.simps)
qed

lemma queue_updates_commute:
  "s\<lparr>cs_bufferQueue := q, sk_writeQueue := w\<rparr> = (s\<lparr>sk_writeQueue := w, cs_bufferQueue := q\<rparr> :: client_socket)"
  by (cases s) simp

lemma send_queued_ok:
  assumes "IsOpen s" "list_all (\<lambda>p. bb_size (pk_buffer p) < 2 ^ 62) (pq_queue (cs_bufferQueue s))"
  shows "\<exists>msgs. send_queued s = Inr (s\<lparr>sk_writeQueue := sk_writeQueue s @ msgs,
      cs_bufferQueue := (cs_bufferQueue s)\<lparr>pq_queue := []\<rparr>\<rparr>) \<and>
    list_all mb_inv msgs \<and> concat (map active msgs) = concat (map packet_bytes (pq_queue (cs_bufferQueue s)))"
  using assms
proof (induction "pq_queue (cs_bufferQueue s)" arbitrary: s)
  case Nil
  then have "(cs_bufferQueue s)\<lparr>pq_queue := []\<rparr> = cs_bufferQueue s" by (cases "cs_bufferQueue s") simp
  with Nil show ?case
    by (intro exI [of _ "[]"]) (subst send_queued.simps, simp add: GetNextPacket_def)
next
  case (Cons p ps)
  note q = Cons.hyps(2) [symmetric]
  let ?q = "(cs_bufferQueue s)\<lparr>pq_queue := ps\<rparr>"
  have n: "GetNextPacket (cs_bufferQueue s) = Some (p, ?q)" by (simp add: GetNextPacket_def q)
  have "IsOpen (s\<lparr>cs_bufferQueue := ?q\<rparr>)" using Cons.prems(1) by (simp add: IsOpen_def)
  moreover have "bb_size (pk_buffer p) < 2 ^ 62" using Cons.prems(2) by (simp add: q)
  ultimately obtain ms where ms: "SendPacket p (s\<lparr>cs_bufferQueue := ?q\<rparr>) =
      Inr (s\<lparr>sk_writeQueue := sk_writeQueue s @ ms, cs_bufferQueue := ?q\<rparr>)"
    "list_all mb_inv ms" "concat (map active ms) = packet_bytes p"
    using SendPacket_ok [of "s\<lparr>cs_bufferQueue := ?q\<rparr>" p] by (auto simp: queue_updates_commute)
  let ?s = "s\<lparr>sk_writeQueue := sk_writeQueue s @ ms, cs_bufferQueue := ?q\<rparr>"
  obtain ms' where "send_queued ?s = Inr (?s\<lparr>sk_writeQueue := sk_writeQueue ?s @ ms',
      cs_bufferQueue := (cs_bufferQueue ?s)\<lparr>pq_queue := []\<rparr>\<rparr>)"
    "list_all mb_inv ms'" "concat (map active ms') = concat (map packet_bytes (pq_queue (cs_bufferQueue ?s)))"
    using Cons.hyps(1) [of ?s] Cons.prems by (auto simp: q IsOpen_def)
  with ms n show ?case
    by (intro exI [of _ "ms @ ms'"]) (simp add: send_queued.simps [of s] q queue_updates_commute)
qed

section \<open>Properties of what is sent\<close>

text \<open>
  C7: what \<open>Update\<close> sends.  On an open, authenticated connection, with a system that does not
  fail, \<open>Update\<close> extends the outgoing byte stream by exactly the framed bytes of the packets
  queued, in the order they were queued, and leaves their queue empty, however large the
  packets are and however little the system takes; before authentication it adds nothing
  to the stream and keeps the queue.
\<close>
theorem client_update_stream:
  assumes "IsOpen s" "queue_ok s" "write_ok write_some" "no_error write_some"
    and "list_all (\<lambda>p. bb_size (pk_buffer p) < 2 ^ 62) (pq_queue (cs_bufferQueue s))"
  shows "\<exists>s' os'. ClientSocket_Update write_some os s = Inr (True, s', os') \<and> queue_ok s' \<and>
    stream s' = stream s @ (if cs_authed s then concat (map packet_bytes (pq_queue (cs_bufferQueue s))) else [])"
proof -
  define s1 where "s1 = (if cs_authed s then
      (case send_queued s of Inl _ \<Rightarrow> s | Inr s' \<Rightarrow> s') else s)"
  from send_queued_ok [OF assms(1,5)] obtain msgs where
    m: "send_queued s = Inr (s\<lparr>sk_writeQueue := sk_writeQueue s @ msgs,
        cs_bufferQueue := (cs_bufferQueue s)\<lparr>pq_queue := []\<rparr>\<rparr>)" "list_all mb_inv msgs"
      "concat (map active msgs) = concat (map packet_bytes (pq_queue (cs_bufferQueue s)))" by blast
  have r: "(if cs_authed s then send_queued s else Inr s) = Inr s1" by (simp add: s1_def m)
  have s1: "queue_ok s1" "\<not> sk_closed s1" "stream s1 =
      stream s @ (if cs_authed s then concat (map packet_bytes (pq_queue (cs_bufferQueue s))) else [])"
    using assms(1,2) m by (simp_all add: s1_def queue_ok_def stream_def IsOpen_def)
  have "\<exists>s' os'. Socket_Update write_some os s1 = Inr (True, s', os') \<and> queue_ok s' \<and> stream s' = stream s1"
    using flush_ok [OF assms(3,4) s1(1), of os] s1(1,2) by (auto simp: Socket_Update_def)
  with r s1(3) show ?thesis by (simp add: ClientSocket_Update_def)
qed

definition witness_client :: client_socket where
  "witness_client = cn_socket (ClientSocket_new [97] [98] 1)"

lemma witness_client_fields:
  "sk_writeQueue witness_client = []" "\<not> sk_closed witness_client" "\<not> sk_closing witness_client"
  "pq_queue (cs_bufferQueue witness_client) = []"
  by (simp_all add: witness_client_def ClientSocket_new_def Let_def on_socket_def Socket_new_def
      PacketQueue_new_def socket.defs)

definition witness_queue :: "discord_packet packet_queue" where
  "witness_queue = AddPacket (DiscordPacket CLIENT_SEND_HELLO 1) PacketQueue_new"

theorem client_update_stream_witness:
  "\<exists>s' os'. ClientSocket_Update two_bytes_at_a_time 9
      (witness_client\<lparr>cs_authed := True, cs_bufferQueue := witness_queue\<rparr>) = Inr (True, s', os') \<and>
    stream s' = stream witness_client @ packet_bytes (DiscordPacket CLIENT_SEND_HELLO 1)"
  using client_update_stream [of "witness_client\<lparr>cs_authed := True, cs_bufferQueue := witness_queue\<rparr>"
      two_bytes_at_a_time 9, OF _ _ witness_write_ok]
  by (auto simp: IsOpen_def queue_ok_def witness_client_fields witness_queue_def AddPacket_def
      PacketQueue_new_def DiscordPacket_def ByteBuffer_reserve_def bb_size_def stream_def)

text \<open>
  The client opens with one authentication request.  On an open socket \<open>Start\<close> queues
  exactly one framed \<open>CLIENT_AUTH_SESSION\<close> packet: the length and opcode header, the account
  name and key, the two revision strings, the protocol version and the server id, in the
  wire format the receiving shift operators take back; and then it asks for the first read.
\<close>
theorem start_sends_auth_session:
  assumes "IsOpen s" "mb_inv (sk_readBuffer s)"
    and "vs = [VString (cs_accountName s), VString (cs_accountKey s), VString company, VString version,
      VU32 100000, VI64 (cs_serverID s)]"
    and "length (concat (map value_bytes vs)) \<le> 10000000"
  shows "\<exists>s'. Start e now company version s = Inr s' \<and> stream s' = stream s @ value_packet_bytes CLIENT_AUTH_SESSION vs \<and>
    sk_pendingRead s' \<noteq> None \<and> cs_authed s' = cs_authed s"
proof -
  from send_composed [OF assms(1,4), of e CLIENT_AUTH_SESSION 1] obtain msgs where
    m: "rbind (put_all (put_value e) vs (pk_buffer (DiscordPacket CLIENT_AUTH_SESSION 1)))
        (\<lambda>b. SendPacket ((DiscordPacket CLIENT_AUTH_SESSION 1)\<lparr>pk_buffer := b\<rparr>) s) =
        Inr (s\<lparr>sk_writeQueue := sk_writeQueue s @ msgs\<rparr>)"
      "concat (map active msgs) = value_packet_bytes CLIENT_AUTH_SESSION vs" by blast
  let ?s = "s\<lparr>sk_writeQueue := sk_writeQueue s @ msgs, cs_startTime := now\<rparr>"
  have st: "Start e now company version s = AsyncRead ?s"
    using m(1) unfolding Start_def SendAuthSession_def Let_def assms(3) WARHEAD_DISCORD_VERSION_def
    by (auto simp: rbind_eq_Inr simp del: put_all.simps)
  from Normalize_ok [OF assms(2)] obtain b where "Normalize (sk_readBuffer s) = Inr b" by blast
  then show ?thesis
    using assms(1) m(2) by (simp add: st AsyncRead_def IsOpen_def Let_def stream_def)
qed

lemma witness_client_strings: "cs_accountName witness_client = [97]" "cs_accountKey witness_client = [98]"
  by (simp_all add: witness_client_def ClientSocket_new_def Let_def on_socket_def socket.defs)

lemma witness_client_read: "mb_inv (sk_readBuffer witness_client)"
  by (simp add: witness_client_def ClientSocket_new_def Let_def on_socket_def Socket_new_def socket.defs
      mb_inv_Resize mb_inv_default READ_BLOCK_SIZE_def) (simp add: MessageBuffer_default_def Resize_def mb_inv_def)

theorem start_sends_auth_session_witness:
  "\<exists>s'. Start LittleEndian 5 [87] [49] witness_client = Inr s' \<and> sk_pendingRead s' \<noteq> None"
  using start_sends_auth_session [OF _ witness_client_read refl, of "[87]" "[49]" LittleEndian 5]
  by (auto simp: IsOpen_def witness_client_fields witness_client_strings)

end
