(* ===== verification/Framing.thy ===== *)
theory Framing
  imports Sending
begin

text \<open>
  What the client reads from the wire.  The abstract specification is a parser of the whole
  byte stream into packets (\<open>parse_frame\<close>, \<open>spec_run\<close>); the theory shows that the loop of
  \<open>ClientSocket::ReadHandler\<close>, with its three buffers and its state kept between calls,
  implements it however the stream is cut into reads.
\<close>

section \<open>The specification\<close>

datatype parsed = NeedMore | BadHeader | Packet DiscordCode bytes bytes

text \<open>The first packet of a byte stream: opcode, payload and the rest of the stream.\<close>

definition parse_frame :: "bytes \<Rightarrow> parsed" where
  "parse_frame bs =
     (if length bs < 6 then NeedMore
      else let h = wire_header (take 6 bs); n = unat (hdr_size h) - 2
        in if \<not> IsValidSize h \<or> \<not> IsValidOpcode h then BadHeader
           else if length bs < 6 + n then NeedMore
           else Packet (hdr_cmd h) (slice 6 n bs) (drop (6 + n) bs))"

lemma parse_frame_shorter: "parse_frame bs = Packet op body rest \<Longrightarrow> length rest < length bs"
  by (auto simp: parse_frame_def Let_def split: if_splits)

text \<open>The packet handed to the handlers for a payload.\<close>

definition wire_packet :: "DiscordCode \<Rightarrow> bytes \<Rightarrow> discord_packet" where
  "wire_packet op body =
     \<lparr>pk_buffer = \<lparr>bb_rpos = 0, bb_wpos = 0, bb_storage = body, bb_capacity = length body\<rparr>,
      pk_opcode = op, pk_receivedTime = 0\<rparr>"

text \<open>
  Handle the packets of a byte stream one after the other.  The result says whether reading
  goes on, the bytes of the incomplete packet at the end, and the connection.
\<close>

function spec_run :: "endian \<Rightarrow> int \<Rightarrow> bytes \<Rightarrow> conn \<Rightarrow> (bool \<times> bytes \<times> conn) result" where
  "spec_run e now bs c =
     (case parse_frame bs of
        NeedMore \<Rightarrow> Inr (True, bs, c)
      | BadHeader \<Rightarrow> Inr (False, [], on_socket CloseSocket c)
      | Packet op body rest \<Rightarrow>
          (case dispatch e now op (wire_packet op body) c of
             Inl err \<Rightarrow> Inl err
           | Inr (r, c') \<Rightarrow>
               if r = ReadOk then spec_run e now rest c'
               else Inr (False, [], if r \<noteq> WaitingForQuery then on_socket CloseSocket c' else c')))"
  by pat_completeness auto
termination
  by (relation "measure (\<lambda>(_, _, bs, _). length bs)") (auto dest: parse_frame_shorter)

declare spec_run.simps [simp del]

section \<open>Handlers do not touch the buffers of the reader\<close>

type_synonym reader_bufs = "message_buffer \<times> message_buffer \<times> message_buffer"

definition sock_bufs :: "reader_bufs \<Rightarrow> client_socket \<Rightarrow> client_socket" where
  "sock_bufs bs s = (case bs of (rb, hb, pb) \<Rightarrow>
     s\<lparr>sk_readBuffer := rb, cs_headerBuffer := hb, cs_packetBuffer := pb\<rparr>)"

definition set_bufs :: "reader_bufs \<Rightarrow> conn \<Rightarrow> conn" where
  "set_bufs bs c = on_socket (sock_bufs bs) c"

lemma sock_bufs_fields [simp]:
  "IsOpen (sock_bufs bs s) = IsOpen s" "cs_authed (sock_bufs bs s) = cs_authed s"
  "cs_latency (sock_bufs bs s) = cs_latency s" "sk_closed (sock_bufs bs s) = sk_closed s"
  "sk_readBuffer (sock_bufs bs s) = fst bs" "cs_headerBuffer (sock_bufs bs s) = fst (snd bs)"
  "cs_packetBuffer (sock_bufs bs s) = snd (snd bs)"
  by (simp_all add: sock_bufs_def IsOpen_def split: prod.split)

lemma sock_bufs_updates [simp]:
  "sock_bufs bs (sock_bufs bs' s) = sock_bufs bs s"
  "(sock_bufs bs s)\<lparr>cs_authed := a\<rparr> = sock_bufs bs (s\<lparr>cs_authed := a\<rparr>)"
  "(sock_bufs bs s)\<lparr>cs_latency := l\<rparr> = sock_bufs bs (s\<lparr>cs_latency := l\<rparr>)"
  "(sock_bufs bs s)\<lparr>sk_writeQueue := w\<rparr> = sock_bufs bs (s\<lparr>sk_writeQueue := w\<rparr>)"
  "(sock_bufs bs s)\<lparr>sk_closed := x, sk_onClose := y\<rparr> = sock_bufs bs (s\<lparr>sk_closed := x, sk_onClose := y\<rparr>)"
  "sk_pendingRead (sock_bufs bs s) = sk_pendingRead s"
  "sk_writeQueue (sock_bufs bs s) = sk_writeQueue s" "sk_onClose (sock_bufs bs s) = sk_onClose s"
  by (simp_all add: sock_bufs_def split: prod.split)

lemma sock_bufs_ops [simp]:
  "CloseSocket (sock_bufs bs s) = sock_bufs bs (CloseSocket s)"
  "QueuePacket m (sock_bufs bs s) = sock_bufs bs (QueuePacket m s)"
  by (simp_all add: CloseSocket_def QueuePacket_def)

lemma set_bufs_simps [simp]:
  "cn_socket (set_bufs bs c) = sock_bufs bs (cn_socket c)" "cn_attached (set_bufs bs c) = cn_attached c"
  "cn_stopped (set_bufs bs c) = cn_stopped c" "set_bufs bs (set_bufs bs' c) = set_bufs bs c"
  "on_socket CloseSocket (set_bufs bs c) = set_bufs bs (on_socket CloseSocket c)"
  "on_socket (\<lambda>s. s\<lparr>cs_authed := a\<rparr>) (set_bufs bs c) = set_bufs bs (on_socket (\<lambda>s. s\<lparr>cs_authed := a\<rparr>) c)"
  "on_socket (\<lambda>s. s\<lparr>cs_latency := l\<rparr>) (set_bufs bs c) = set_bufs bs (on_socket (\<lambda>s. s\<lparr>cs_latency := l\<rparr>) c)"
  by (simp_all add: set_bufs_def on_socket_def)

lemma Disconnect_bufs [simp]: "Disconnect (set_bufs bs c) = set_bufs bs (Disconnect c)"
  by (simp add: Disconnect_def Let_def set_bufs_def on_socket_def)

lemma SendPacket_bufs: "SendPacket p (sock_bufs bs s) = map_sum id (sock_bufs bs) (SendPacket p s)"
  by (auto simp: SendPacket_def Let_def rbind_def split: sum.splits prod.splits)

lemma SendPingMessage_bufs:
  "SendPingMessage e now (sock_bufs bs s) = map_sum id (sock_bufs bs) (SendPingMessage e now s)"
  by (auto simp: SendPingMessage_def Let_def rbind_def SendPacket_bufs simp del: put_all.simps split: sum.splits)

lemma on_socket_r_ping_bufs:
  "on_socket_r (SendPingMessage e now) (set_bufs bs c) =
     map_sum id (set_bufs bs) (on_socket_r (SendPingMessage e now) c)"
  by (cases "SendPingMessage e now (cn_socket c)")
    (auto simp: on_socket_r_def SendPingMessage_bufs set_bufs_def on_socket_def)

lemma dispatch_bufs:
  "dispatch e now op p (set_bufs bs c) = map_sum id (map_prod id (set_bufs bs)) (dispatch e now op p c)"
proof -
  have auth: "HandleAuthResponce e now p (set_bufs bs c) = map_sum id (set_bufs bs) (HandleAuthResponce e now p c)"
    by (auto simp: HandleAuthResponce_def rbind_def on_socket_r_ping_bufs split: sum.splits)
  have pong: "HandlePong e now p (set_bufs bs c) = map_sum id (set_bufs bs) (HandlePong e now p c)"
    by (auto simp: HandlePong_def rbind_def split: sum.splits)
  show ?thesis
    by (auto simp: dispatch_def rbind_def auth pong split: sum.splits)
qed

lemma spec_run_bufs:
  "spec_run e now bs (set_bufs rd c) = map_sum id (map_prod id (map_prod id (set_bufs rd))) (spec_run e now bs c)"
proof (induction e now bs c rule: spec_run.induct)
  case (1 e now bs c)
  show ?case
  proof (cases "parse_frame bs")
    case (Packet op body rest)
    show ?thesis
    proof (cases "dispatch e now op (wire_packet op body) c")
      case (Inr rc)
      obtain r c' where "rc = (r, c')" by (cases rc)
      with 1 [OF Packet Inr] Packet Inr show ?thesis
        by (subst (1 2) spec_run.simps) (simp add: dispatch_bufs id_def)
    qed (use Packet in \<open>subst (1 2) spec_run.simps, simp add: dispatch_bufs\<close>)
  qed (subst (1 2) spec_run.simps, simp)+
qed

section \<open>The reader between two calls\<close>

text \<open>
  The header buffer holds six bytes.  While it is filling, the packet buffer is empty; once
  it is full it holds the header in host order with the payload size, and the packet
  buffer, of that size, holds the payload so far.
\<close>

definition header_ok :: "message_buffer \<Rightarrow> bool" where
  "header_ok hb \<longleftrightarrow> mb_inv hb \<and> length (mb_storage hb) = 6 \<and> mb_rpos hb = 0"

definition stored_header :: "endian \<Rightarrow> message_buffer \<Rightarrow> DiscordClientPktHeader" where
  "stored_header e hb = header_of_memory e (mb_storage hb)"

definition payload_ok :: "endian \<Rightarrow> message_buffer \<Rightarrow> message_buffer \<Rightarrow> bool" where
  "payload_ok e hb pb \<longleftrightarrow> mb_inv pb \<and> mb_rpos pb = 0 \<and>
     length (mb_storage pb) = unat (hdr_size (stored_header e hb)) \<and>
     unat (hdr_size (stored_header e hb)) < 9998 \<and> IsValidOpcode (stored_header e hb)"

definition read_ok :: "message_buffer \<Rightarrow> bool" where
  "read_ok rb \<longleftrightarrow> mb_inv rb \<and> length (mb_storage rb) = READ_BLOCK_SIZE"

fun reader_ok :: "endian \<Rightarrow> reader_bufs \<Rightarrow> bool" where
  "reader_ok e (rb, hb, pb) \<longleftrightarrow> read_ok rb \<and> header_ok hb \<and>
     (if mb_wpos hb < 6 then mb_inv pb \<and> mb_rpos pb = 0 \<and> mb_wpos pb = 0
      else payload_ok e hb pb \<and> mb_wpos pb < length (mb_storage pb))"

text \<open>The bytes of the packet being read, as they came from the wire.\<close>

definition header_wire :: "endian \<Rightarrow> message_buffer \<Rightarrow> bytes" where
  "header_wire e hb =
     DiscordServerPktHeader (hdr_size (stored_header e hb) + 2) (hdr_cmd (stored_header e hb))"

fun pending :: "endian \<Rightarrow> reader_bufs \<Rightarrow> bytes" where
  "pending e (rb, hb, pb) = (if mb_wpos hb < 6 then written hb else header_wire e hb @ written pb)"

definition bufs :: "conn \<Rightarrow> reader_bufs" where
  "bufs c = (sk_readBuffer (cn_socket c), cs_headerBuffer (cn_socket c), cs_packetBuffer (cn_socket c))"

lemma bufs_set [simp]: "bufs (set_bufs rd c) = rd"
  by (simp add: bufs_def)

lemma set_bufs_same [simp]: "set_bufs (bufs c) c = c"
  by (simp add: set_bufs_def sock_bufs_def bufs_def on_socket_def)

lemma take_bytes_ok:
  assumes "mb_inv rb" "mb_inv t" "n = min (length (active rb)) (length (mb_storage t) - mb_wpos t)"
  shows "\<exists>rb' t'. take_bytes rb t = Inr (rb', t') \<and> mb_inv rb' \<and> mb_inv t' \<and>
    active rb' = drop n (active rb) \<and> written t' = written t @ take n (active rb) \<and>
    mb_rpos t' = mb_rpos t \<and> mb_wpos t' = mb_wpos t + n \<and> length (mb_storage t') = length (mb_storage t) \<and>
    length (mb_storage rb') = length (mb_storage rb)"
proof -
  have n: "min (GetActiveSize rb) (GetRemainingSpace t) = n"
    using assms by (simp add: buf_simps)
  have le: "n \<le> length (active rb)" "n \<le> GetActiveSize rb" "n \<le> GetRemainingSpace t"
    using assms by (auto simp: buf_simps)
  have "n \<le> mb_wpos rb - mb_rpos rb" using le(1) assms(1) by simp
  then have "slice (mb_rpos rb) n (mb_storage rb) = take n (active rb)"
    by (simp add: active_def slice_def min_absorb1)
  then have "(if n = 0 then Inr [] else mem_read (GetReadPointer rb) n rb) = Inr (take n (active rb))"
    using le(1) assms(1) by (auto simp: mem_read_def GetReadPointer_def mb_inv_def)
  moreover have "length (take n (active rb)) \<le> GetRemainingSpace t"
    using le(3) by simp
  note w = Write_ok [OF assms(2) this]
  moreover note ReadCompleted_ok [OF assms(1) le(2)]
  moreover have "length (take n (active rb)) = n" using le(1) by simp
  moreover have "length (mb_storage (ReadCompleted n rb)) = length (mb_storage rb)"
    by (simp add: ReadCompleted_def)
  ultimately show ?thesis
    by (auto simp: take_bytes_def n Let_def simp del: length_take length_active)
qed

text \<open>The header as it came from the wire, from the header in the buffer.\<close>

lemma server_header_of_wire:
  assumes "length bs = 6"
  shows "DiscordServerPktHeader (hdr_size (wire_header bs)) (hdr_cmd (wire_header bs)) = bs"
proof -
  have "le_bytes (le_word (rev (slice 0 4 bs)) :: uint32) = rev (slice 0 4 bs)"
    by (rule le_bytes_le_word) (use assms in simp_all)
  moreover have "le_bytes (le_word (slice 4 2 bs) :: uint16) = slice 4 2 bs"
    by (rule le_bytes_le_word) (use assms in simp_all)
  moreover have "slice 0 4 bs @ slice 4 2 bs = bs"
    using assms by (simp add: slice_def)
  ultimately show ?thesis
    by (simp add: DiscordServerPktHeader_bytes wire_header_def)
qed

lemma IsValidSize_iff: "IsValidSize h \<longleftrightarrow> 2 \<le> unat (hdr_size h) \<and> unat (hdr_size h) < 10000"
  by (simp add: IsValidSize_def word_le_nat_alt word_less_nat_alt)

section \<open>The payload\<close>

text \<open>The state in which the second half of the loop body starts: the header is complete.\<close>

definition header_read :: "endian \<Rightarrow> reader_bufs \<Rightarrow> bool" where
  "header_read e rd = (case rd of (rb, hb, pb) \<Rightarrow>
     read_ok rb \<and> header_ok hb \<and> mb_wpos hb = 6 \<and> payload_ok e hb pb)"

lemma parse_header_wire:
  assumes "payload_ok e hb pb" "n = unat (hdr_size (stored_header e hb))"
  shows "parse_frame (header_wire e hb @ bs) =
    (if length bs < n then NeedMore else Packet (hdr_cmd (stored_header e hb)) (take n bs) (drop n bs))"
proof -
  let ?h = "stored_header e hb"
  have lim: "unat (hdr_size ?h) < 9998" "IsValidOpcode ?h" using assms(1) by (simp_all add: payload_ok_def)
  have two: "unat (hdr_size ?h + 2) = unat (hdr_size ?h) + 2"
    using lim(1) by (simp add: unat_word_ariths)
  have w: "wire_header (header_wire e hb) = ?h\<lparr>hdr_size := hdr_size ?h + 2\<rparr>"
    by (simp add: header_wire_def wire_header_server)
  have "IsValidSize (?h\<lparr>hdr_size := hdr_size ?h + 2\<rparr>)" using lim(1) by (simp add: IsValidSize_iff two)
  moreover have "IsValidOpcode (?h\<lparr>hdr_size := hdr_size ?h + 2\<rparr>)" using lim(2) by (simp add: IsValidOpcode_def)
  moreover have "length (header_wire e hb) = 6" by (simp add: header_wire_def)
  ultimately show ?thesis
    using assms(2) by (simp add: parse_frame_def Let_def w two slice_def)
qed

lemma finish_packet_ok:
  assumes "header_read e (rb, hb, pb)" "mb_wpos pb = length (mb_storage pb)"
  shows "finish_packet e now (set_bufs (rb, hb, pb) c) =
    (case dispatch e now (hdr_cmd (stored_header e hb)) (wire_packet (hdr_cmd (stored_header e hb)) (written pb)) c of
       Inl err \<Rightarrow> Inl err
     | Inr (r, c') \<Rightarrow>
         let c'' = set_bufs (rb, Reset hb, \<lparr>mb_wpos = 0, mb_rpos = 0, mb_storage = []\<rparr>) c'
         in Inr (if r = ReadOk then Continue c''
                 else Return (if r \<noteq> WaitingForQuery then on_socket CloseSocket c'' else c'')))"
proof -
  let ?c = "set_bufs (rb, hb, pb) c" and ?e = "\<lparr>mb_wpos = 0, mb_rpos = 0, mb_storage = []\<rparr> :: message_buffer"
  let ?op = "hdr_cmd (stored_header e hb)"
  have rd: "mem_read (GetReadPointer hb) 6 hb = Inr (mb_storage hb)"
    using assms(1) by (simp add: header_read_def header_ok_def mem_read_def GetReadPointer_def slice_def)
  have pk: "DiscordPacket_of_message ?op pb = (wire_packet ?op (written pb), ?e)"
    using assms(2) by (simp add: DiscordPacket_of_message_def ByteBuffer_of_message_def Move_def
        wire_packet_def written_def)
  have upd: "on_socket (\<lambda>s. s\<lparr>cs_packetBuffer := ?e\<rparr>) ?c = set_bufs (rb, hb, ?e) c"
    "on_socket (\<lambda>s. s\<lparr>cs_headerBuffer := Reset (cs_headerBuffer s)\<rparr>) (set_bufs (rb, hb, ?e) c') =
      set_bufs (rb, Reset hb, ?e) c'" for c'
    by (simp_all add: set_bufs_def on_socket_def sock_bufs_def)
  have rdh: "ReadDataHandler e now ?c =
      map_sum id (map_prod id (set_bufs (rb, hb, ?e))) (dispatch e now ?op (wire_packet ?op (written pb)) c)"
    using rd pk upd(1) by (simp add: ReadDataHandler_def Let_def sizeof_DiscordClientPktHeader_def
        stored_header_def dispatch_bufs)
  show ?thesis
    by (cases "dispatch e now ?op (wire_packet ?op (written pb)) c")
      (auto simp: finish_packet_def rdh Let_def upd(2))
qed

text \<open>What one iteration owes the specification, for the bytes at hand.\<close>

definition matches :: "endian \<Rightarrow> int \<Rightarrow> bytes \<Rightarrow> conn \<Rightarrow> loop_step result \<Rightarrow> bool" where
  "matches e now input c r \<longleftrightarrow>
     (case parse_frame input of
        NeedMore \<Rightarrow> \<exists>rd. r = Inr (Break (set_bufs rd c)) \<and> reader_ok e rd \<and> pending e rd = input \<and>
          active (fst rd) = []
      | BadHeader \<Rightarrow> \<exists>rd. r = Inr (Return (set_bufs rd (on_socket CloseSocket c)))
      | Packet op body rest \<Rightarrow>
          (case dispatch e now op (wire_packet op body) c of
             Inl err \<Rightarrow> r = Inl err
           | Inr (k, c') \<Rightarrow> \<exists>rd. reader_ok e rd \<and> pending e rd = [] \<and> active (fst rd) = rest \<and>
               r = Inr (if k = ReadOk then Continue (set_bufs rd c')
                        else Return (set_bufs rd (if k \<noteq> WaitingForQuery then on_socket CloseSocket c' else c')))))"

lemma reader_ok_Reset:
  assumes "read_ok rb" "header_ok hb"
  shows "reader_ok e (rb, Reset hb, \<lparr>mb_wpos = 0, mb_rpos = 0, mb_storage = []\<rparr>)"
    and "pending e (rb, Reset hb, \<lparr>mb_wpos = 0, mb_rpos = 0, mb_storage = []\<rparr>) = []"
proof -
  have "mb_inv (Reset hb)" using assms(2) by (simp add: header_ok_def mb_inv_Reset)
  then show "reader_ok e (rb, Reset hb, \<lparr>mb_wpos = 0, mb_rpos = 0, mb_storage = []\<rparr>)"
    using assms by (simp add: header_ok_def) (simp add: Reset_def mb_inv_def)
  show "pending e (rb, Reset hb, \<lparr>mb_wpos = 0, mb_rpos = 0, mb_storage = []\<rparr>) = []"
    by (simp add: Reset_def written_def)
qed

lemma finish_packet_matches:
  assumes "header_read e (rb, hb, pb)" "mb_wpos pb = length (mb_storage pb)"
  shows "matches e now (header_wire e hb @ written pb @ active rb) c (finish_packet e now (set_bufs (rb, hb, pb) c))"
proof -
  let ?op = "hdr_cmd (stored_header e hb)" and ?n = "unat (hdr_size (stored_header e hb))"
  have p: "read_ok rb" "header_ok hb" "payload_ok e hb pb" using assms(1) by (simp_all add: header_read_def)
  have len: "length (written pb) = ?n" using p(3) assms(2) by (simp add: payload_ok_def)
  have pf: "parse_frame (header_wire e hb @ written pb @ active rb) = Packet ?op (written pb) (active rb)"
    using parse_header_wire [OF p(3) refl, of "written pb @ active rb"] len by simp
  show ?thesis
  proof (cases "dispatch e now ?op (wire_packet ?op (written pb)) c")
    case (Inl err)
    with pf show ?thesis by (simp add: matches_def finish_packet_ok [OF assms])
  next
    case (Inr kc)
    obtain k c' where kc: "kc = (k, c')" by (cases kc)
    show ?thesis
      unfolding matches_def pf
      using Inr kc reader_ok_Reset [OF p(1,2), of e]
      by (simp add: finish_packet_ok [OF assms] Let_def del: reader_ok.simps pending.simps) blast
  qed
qed

lemma read_payload_matches:
  assumes "header_read e (rb, hb, pb)"
  shows "matches e now (header_wire e hb @ written pb @ active rb) c (read_payload e now (set_bufs (rb, hb, pb) c))"
proof -
  let ?n = "unat (hdr_size (stored_header e hb))"
  have p: "mb_inv rb" "header_ok hb" "payload_ok e hb pb" "mb_wpos hb = 6"
    and len: "length (mb_storage rb) = READ_BLOCK_SIZE"
    using assms by (simp_all add: header_read_def read_ok_def)
  have pb: "mb_inv pb" "mb_rpos pb = 0" "length (mb_storage pb) = ?n" "mb_wpos pb \<le> ?n"
    using p(3) by (auto simp: payload_ok_def mb_inv_def)
  have rem: "GetRemainingSpace pb = ?n - mb_wpos pb" using pb by (simp add: buf_simps)
  show ?thesis
  proof (cases "mb_wpos pb = ?n")
    case True
    then show ?thesis
      using finish_packet_matches [OF assms] pb rem by (simp add: read_payload_def)
  next
    case False
    define k where "k = min (length (active rb)) (?n - mb_wpos pb)"
    from take_bytes_ok [OF p(1) pb(1)] pb(3) obtain rb' pb' where
      t: "take_bytes rb pb = Inr (rb', pb')" "mb_inv rb'" "mb_inv pb'" "active rb' = drop k (active rb)"
        "written pb' = written pb @ take k (active rb)" "mb_rpos pb' = 0" "mb_wpos pb' = mb_wpos pb + k"
        "length (mb_storage pb') = ?n" "read_ok rb'"
      using pb(2) len unfolding k_def read_ok_def by auto
    have pay: "payload_ok e hb pb'" using p(3) t by (simp add: payload_ok_def)
    have rem': "GetRemainingSpace pb' = ?n - (mb_wpos pb + k)" using t by (simp add: buf_simps)
    have upd: "on_socket (\<lambda>s. s\<lparr>sk_readBuffer := rb', cs_packetBuffer := pb'\<rparr>) (set_bufs (rb, hb, pb) c) =
        set_bufs (rb', hb, pb') c"
      by (simp add: set_bufs_def on_socket_def sock_bufs_def)
    have lw: "length (written pb) = mb_wpos pb" using pb(1) by simp
    show ?thesis
    proof (cases "length (active rb) < ?n - mb_wpos pb")
      case True
      then have k: "k = length (active rb)" "k < ?n - mb_wpos pb" by (simp_all add: k_def)
      have pos: "0 < GetRemainingSpace pb'" "0 < GetRemainingSpace pb" using k(2) rem rem' by simp_all
      have act: "active rb' = []" using t(4) k(1) by simp
      then have "GetActiveSize rb' = 0" using t(2) by (simp add: GetActiveSize_active del: length_active)
      then have "read_payload e now (set_bufs (rb, hb, pb) c) = Inr (Break (set_bufs (rb', hb, pb') c))"
        using pos t(1) by (simp add: read_payload_def upd Let_def)
      moreover have "parse_frame (header_wire e hb @ written pb @ active rb) = NeedMore"
        using parse_header_wire [OF p(3) refl, of "written pb @ active rb"] True lw by simp
      moreover have "reader_ok e (rb', hb, pb')" using p t pay k by simp
      moreover have "pending e (rb', hb, pb') = header_wire e hb @ written pb @ active rb"
        using p(4) t(5) k(1) by simp
      ultimately show ?thesis using act by (auto simp: matches_def simp del: reader_ok.simps pending.simps)
    next
      case nlt: False
      then have k: "k = ?n - mb_wpos pb" by (simp add: k_def)
      have full: "mb_wpos pb' = length (mb_storage pb')" using t pb(4) k by simp
      have hr: "header_read e (rb', hb, pb')" using p t pay by (simp add: header_read_def)
      have "read_payload e now (set_bufs (rb, hb, pb) c) = finish_packet e now (set_bufs (rb', hb, pb') c)"
        using False pb(4) k rem rem' t(1) by (simp add: read_payload_def upd Let_def)
      moreover have "header_wire e hb @ written pb' @ active rb' = header_wire e hb @ written pb @ active rb"
        using t by simp
      ultimately show ?thesis using finish_packet_matches [OF hr full] by simp
    qed
  qed
qed

section \<open>The header\<close>

lemma blit_whole: "length src = length dst \<Longrightarrow> blit 0 src dst = src"
  by (simp add: blit_def)

lemma length_convert_header: "length bs = 6 \<Longrightarrow> length (convert_header e bs) = 6"
  by (cases e) (simp_all add: convert_header_def EndianConvertReverse_def EndianConvert_def)

lemma length_memory_of_header: "length (memory_of_header e h) = 6"
  by (simp add: memory_of_header_def)

lemma ReadHeaderHandler_ok:
  assumes "header_ok hb" "mb_wpos hb = 6" "h = wire_header (mb_storage hb)"
  shows "ReadHeaderHandler e (sock_bufs (rb, hb, pb) s) =
    Inr (if \<not> IsValidSize h \<or> \<not> IsValidOpcode h
         then (False, sock_bufs (rb, hb\<lparr>mb_storage := convert_header e (mb_storage hb)\<rparr>, pb) s)
         else (True, sock_bufs (rb, hb\<lparr>mb_storage := memory_of_header e (h\<lparr>hdr_size := hdr_size h - 2\<rparr>)\<rparr>,
           Resize (unat (hdr_size h - 2)) pb) s))"
proof -
  have hb: "mb_inv hb" "length (mb_storage hb) = 6" "mb_rpos hb = 0"
    using assms(1) by (simp_all add: header_ok_def)
  have "GetActiveSize hb = 6" using hb assms(2) by (simp add: buf_simps)
  moreover have "mem_read (GetReadPointer hb) 6 hb = Inr (mb_storage hb)"
    using hb by (simp add: mem_read_def GetReadPointer_def slice_def)
  moreover have "mem_write (GetReadPointer hb) src hb = Inr (hb\<lparr>mb_storage := src\<rparr>)" if "length src = 6" for src
    using hb that by (simp add: mem_write_def GetReadPointer_def blit_whole)
  moreover have "header_of_memory e (convert_header e (mb_storage hb)) = h"
    using hb(2) assms(3) by (simp add: header_convert)
  ultimately show ?thesis
    by (simp add: ReadHeaderHandler_def Let_def sizeof_DiscordClientPktHeader_def
        length_convert_header [OF hb(2)] length_memory_of_header) (simp add: sock_bufs_def)
qed

text \<open>After an accepted header the reader is ready for the payload.\<close>

lemma header_read_accepted:
  assumes "read_ok rb" "header_ok hb" "mb_wpos hb = 6" "mb_inv pb" "mb_rpos pb = 0" "mb_wpos pb = 0"
    and h: "h = wire_header (mb_storage hb)" "IsValidSize h" "IsValidOpcode h"
    and hb': "hb' = hb\<lparr>mb_storage := memory_of_header e (h\<lparr>hdr_size := hdr_size h - 2\<rparr>)\<rparr>"
    and pb': "pb' = Resize (unat (hdr_size h - 2)) pb"
  shows "header_read e (rb, hb', pb')" and "header_wire e hb' = mb_storage hb" and "written pb' = []"
proof -
  have len: "length (mb_storage hb) = 6" using assms(2) by (simp add: header_ok_def)
  have sz: "unat (hdr_size h - 2) = unat (hdr_size h) - 2" "unat (hdr_size h) < 10000" "2 \<le> hdr_size h"
    using h(2) by (simp_all add: IsValidSize_iff unat_sub word_le_nat_alt)
  have st: "stored_header e hb' = h\<lparr>hdr_size := hdr_size h - 2\<rparr>"
    by (simp add: stored_header_def hb')
  have "header_ok hb'" using assms(2,3) by (simp add: header_ok_def hb' mb_inv_def length_memory_of_header)
  moreover have "mb_inv pb'"
    unfolding pb' by (rule mb_inv_Resize) (use assms sz in simp_all)
  moreover have "unat (hdr_size h) - 2 < 9998" using sz(2) h(2) by (auto simp: IsValidSize_iff)
  ultimately show "header_read e (rb, hb', pb')"
    using assms st sz by (simp add: header_read_def payload_ok_def IsValidOpcode_def)
      (simp add: hb' pb' Resize_def)
  show "header_wire e hb' = mb_storage hb"
    using server_header_of_wire [OF len] by (simp add: header_wire_def st h(1))
  show "written pb' = []" using assms(6) by (simp add: written_def pb' Resize_def)
qed

lemma read_step_matches:
  assumes "reader_ok e (rb, hb, pb)"
  shows "matches e now (pending e (rb, hb, pb) @ active rb) c (read_step e now (set_bufs (rb, hb, pb) c))"
proof (cases "mb_wpos hb < 6")
  case False
  then have "header_read e (rb, hb, pb)" and six: "mb_wpos hb = 6"
    using assms by (auto simp: header_read_def header_ok_def mb_inv_def)
  moreover have "GetRemainingSpace hb = 0" using assms six by (simp add: buf_simps header_ok_def)
  ultimately show ?thesis
    using False read_payload_matches [of e rb hb pb now c] by (simp add: read_step_def)
next
  case True
  have p: "mb_inv rb" "header_ok hb" "mb_inv pb" "mb_rpos pb = 0" "mb_wpos pb = 0"
    and len: "length (mb_storage rb) = READ_BLOCK_SIZE"
    using assms True by (simp_all add: read_ok_def)
  have hb: "mb_inv hb" "length (mb_storage hb) = 6" "mb_rpos hb = 0" using p(2) by (simp_all add: header_ok_def)
  have rem: "GetRemainingSpace hb = 6 - mb_wpos hb" using hb by (simp add: buf_simps)
  define k where "k = min (length (active rb)) (6 - mb_wpos hb)"
  from take_bytes_ok [OF p(1) hb(1)] hb(2) obtain rb' hb' where
    t: "take_bytes rb hb = Inr (rb', hb')" "mb_inv rb'" "mb_inv hb'" "active rb' = drop k (active rb)"
      "written hb' = written hb @ take k (active rb)" "mb_rpos hb' = 0" "mb_wpos hb' = mb_wpos hb + k"
      "length (mb_storage hb') = 6" "read_ok rb'"
    using hb(3) len unfolding k_def read_ok_def by auto
  have hok: "header_ok hb'" using t by (simp add: header_ok_def)
  have rem': "GetRemainingSpace hb' = 6 - (mb_wpos hb + k)" using t by (simp add: buf_simps)
  have upd: "on_socket (\<lambda>s. s\<lparr>sk_readBuffer := rb', cs_headerBuffer := hb'\<rparr>) (set_bufs (rb, hb, pb) c) =
      set_bufs (rb', hb', pb) c"
    by (simp add: set_bufs_def on_socket_def sock_bufs_def)
  have lw: "length (written hb) = mb_wpos hb" using hb(1) by simp
  have inp: "written hb @ active rb = written hb' @ active rb'" using t(4,5) by simp
  show ?thesis
  proof (cases "length (active rb) < 6 - mb_wpos hb")
    case short: True
    then have k: "k = length (active rb)" by (simp add: k_def)
    have pos: "0 < GetRemainingSpace hb'" "0 < GetRemainingSpace hb" using short k True rem rem' by simp_all
    have lt: "mb_wpos hb' < 6" using t(7) short k by simp
    have act: "active rb' = []" using t(4) k by simp
    then have "GetActiveSize rb' = 0" using t(2) by (simp add: GetActiveSize_active del: length_active)
    then have "read_step e now (set_bufs (rb, hb, pb) c) = Inr (Break (set_bufs (rb', hb', pb) c))"
      using pos t(1) by (simp add: read_step_def upd Let_def)
    moreover have "length (written hb @ active rb) < 6" using short lw by simp
    then have "parse_frame (written hb @ active rb) = NeedMore" by (simp only: parse_frame_def if_True)
    moreover have "reader_ok e (rb', hb', pb)" "pending e (rb', hb', pb) = written hb @ active rb"
      using t p hok lt k by simp_all
    moreover have "pending e (rb, hb, pb) = written hb" using True by simp
    ultimately show ?thesis
      using act by (auto simp: matches_def simp del: reader_ok.simps pending.simps)
  next
    case False
    then have k: "k = 6 - mb_wpos hb" by (simp add: k_def)
    then have full: "mb_wpos hb' = 6" using t(7) True by simp
    then have wr: "written hb' = mb_storage hb'" using t(8) by (simp add: written_def)
    let ?h = "wire_header (mb_storage hb')"
    have step: "read_step e now (set_bufs (rb, hb, pb) c) =
        rbind (ReadHeaderHandler e (sock_bufs (rb', hb', pb) (cn_socket c))) (\<lambda>(ok, s).
          let c'' = (set_bufs (rb', hb', pb) c)\<lparr>cn_socket := s\<rparr>
          in if \<not> ok then Inr (Return (on_socket CloseSocket c'')) else read_payload e now c'')"
      using True k rem rem' t(1) by (simp add: read_step_def upd Let_def)
    have sb: "(set_bufs rd c)\<lparr>cn_socket := sock_bufs rd' (cn_socket c)\<rparr> = set_bufs rd' c" for rd rd'
      by (simp add: set_bufs_def on_socket_def)
    have tk: "take 6 (written hb @ active rb) = mb_storage hb'" using t(8) by (simp add: inp wr)
    show ?thesis
    proof (cases "IsValidSize ?h \<and> IsValidOpcode ?h")
      case bad: False
      then have "parse_frame (written hb @ active rb) = BadHeader"
        using False lw True tk by (auto simp: parse_frame_def Let_def)
      with bad True show ?thesis
        by (auto simp: step ReadHeaderHandler_ok [OF hok full refl] sb Let_def matches_def)
    next
      case good: True
      define hb2 where "hb2 = hb'\<lparr>mb_storage := memory_of_header e (?h\<lparr>hdr_size := hdr_size ?h - 2\<rparr>)\<rparr>"
      define pb2 where "pb2 = Resize (unat (hdr_size ?h - 2)) pb"
      note acc = header_read_accepted [OF t(9) hok full p(3-5) refl good [THEN conjunct1]
          good [THEN conjunct2] hb2_def pb2_def]
      have "read_step e now (set_bufs (rb, hb, pb) c) = read_payload e now (set_bufs (rb', hb2, pb2) c)"
        using good by (simp add: step ReadHeaderHandler_ok [OF hok full refl] sb Let_def hb2_def pb2_def)
      moreover have "written hb @ active rb = header_wire e hb2 @ written pb2 @ active rb'"
        using acc(2,3) by (simp add: inp wr)
      ultimately show ?thesis
        using True read_payload_matches [OF acc(1), of now c] by simp
    qed
  qed
qed

section \<open>The loop\<close>

text \<open>
  The loop against the specification: it ends, and where the specification goes on reading
  it has taken all bytes and keeps those of the incomplete packet.
\<close>

definition loop_matches :: "endian \<Rightarrow> (bool \<times> bytes \<times> conn) result \<Rightarrow> (bool \<times> conn) result \<Rightarrow> bool" where
  "loop_matches e spec r \<longleftrightarrow>
     (case spec of
        Inl err \<Rightarrow> r = Inl err
      | Inr (again, rest, c') \<Rightarrow>
          \<exists>rd. r = Inr (again, set_bufs rd c') \<and>
            (again \<longrightarrow> reader_ok e rd \<and> pending e rd = rest \<and> active (fst rd) = []))"

lemma loop_matches_bufs:
  "loop_matches e (map_sum id (map_prod id (map_prod id (set_bufs rd))) spec) r = loop_matches e spec r"
  by (cases spec) (auto simp: loop_matches_def split: prod.splits)

lemma pending_incomplete:
  assumes "reader_ok e (rb, hb, pb)"
  shows "parse_frame (pending e (rb, hb, pb)) = NeedMore"
proof (cases "mb_wpos hb < 6")
  case True
  then have "length (written hb) < 6" using assms by (simp add: header_ok_def)
  then show ?thesis using True by (simp add: parse_frame_def)
next
  case False
  with assms have p: "payload_ok e hb pb" "mb_wpos pb < length (mb_storage pb)" by simp_all
  then have "length (written pb) < unat (hdr_size (stored_header e hb))"
    by (simp add: payload_ok_def)
  with False parse_header_wire [OF p(1) refl, of "written pb"] show ?thesis by simp
qed

lemma parse_frame_append:
  "parse_frame bs = NeedMore \<Longrightarrow> parse_frame (bs @ ys) = Packet op body rest \<Longrightarrow> length rest < length ys"
  by (auto simp: parse_frame_def Let_def split: if_splits)

lemma rest_shorter:
  assumes "reader_ok e (rb, hb, pb)" "parse_frame (pending e (rb, hb, pb) @ active rb) = Packet op body rest"
  shows "length rest < length (active rb)"
  by (rule parse_frame_append [OF pending_incomplete [OF assms(1)] assms(2)])

lemma read_loop_matches:
  assumes "reader_ok e (bufs c)" "n = length (active (fst (bufs c)))"
  shows "\<exists>r. read_loop e now c = Some r \<and>
    loop_matches e (spec_run e now (pending e (bufs c) @ active (fst (bufs c))) c) r"
  using assms
proof (induction n arbitrary: c rule: less_induct)
  case (less n)
  obtain rb hb pb where b: "bufs c = (rb, hb, pb)" by (cases "bufs c")
  then have c: "c = set_bufs (rb, hb, pb) c" and rb: "sk_readBuffer (cn_socket c) = rb"
    using set_bufs_same [of c] by (simp_all add: bufs_def)
  have ok: "reader_ok e (rb, hb, pb)" using less.prems(1) b by simp
  then have inv: "mb_inv rb" by (simp add: read_ok_def)
  let ?in = "pending e (rb, hb, pb) @ active rb"
  show ?case
  proof (cases "active rb = []")
    case True
    then have "GetActiveSize rb = 0" using inv by (simp add: GetActiveSize_active del: length_active)
    then have "read_loop e now c = Some (Inr (True, c))" by (simp add: read_loop.simps rb)
    moreover have "spec_run e now ?in c = Inr (True, pending e (rb, hb, pb), c)"
      using pending_incomplete [OF ok] True by (subst spec_run.simps) simp
    moreover have "loop_matches e (Inr (True, pending e (rb, hb, pb), c)) (Inr (True, c))"
      using ok c True by (auto simp: loop_matches_def simp del: reader_ok.simps pending.simps)
    ultimately show ?thesis by (simp add: b del: pending.simps)
  next
    case False
    then have pos: "0 < GetActiveSize rb" using inv by (simp add: GetActiveSize_active del: length_active)
    have m: "matches e now ?in c (read_step e now c)"
      using read_step_matches [OF ok, of now c] c by simp
    note loop = read_loop.simps [of e now c]
    show ?thesis
    proof (cases "parse_frame ?in")
      case NeedMore
      then have sp: "spec_run e now ?in c = Inr (True, ?in, c)" by (subst spec_run.simps) simp
      from m NeedMore obtain rd where "read_step e now c = Inr (Break (set_bufs rd c))" "reader_ok e rd"
        "pending e rd = ?in" "active (fst rd) = []" by (auto simp: matches_def simp del: pending.simps reader_ok.simps)
      with sp pos rb show ?thesis
        by (cases rd) (auto simp: loop b loop_matches_def simp del: pending.simps reader_ok.simps)
    next
      case BadHeader
      then have sp: "spec_run e now ?in c = Inr (False, [], on_socket CloseSocket c)" by (subst spec_run.simps) simp
      from m BadHeader obtain rd where "read_step e now c = Inr (Return (set_bufs rd (on_socket CloseSocket c)))"
        by (auto simp: matches_def)
      with sp pos rb show ?thesis
        by (cases rd) (auto simp: loop b loop_matches_def simp del: pending.simps)
    next
      case (Packet op body rest)
      show ?thesis
      proof (cases "dispatch e now op (wire_packet op body) c")
        case (Inl err)
        then have "spec_run e now ?in c = Inl err" using Packet by (subst spec_run.simps) simp
        with m Packet Inl pos rb show ?thesis
          by (auto simp: loop b loop_matches_def matches_def simp del: pending.simps)
      next
        case (Inr kc)
        obtain k c' where kc: "kc = (k, c')" by (cases kc)
        from m Packet Inr kc obtain rd where rd: "reader_ok e rd" "pending e rd = []" "active (fst rd) = rest"
          "read_step e now c = Inr (if k = ReadOk then Continue (set_bufs rd c')
             else Return (set_bufs rd (if k \<noteq> WaitingForQuery then on_socket CloseSocket c' else c')))"
          by (auto simp: matches_def simp del: pending.simps reader_ok.simps)
        show ?thesis
        proof (cases "k = ReadOk")
          case True
          have sp: "spec_run e now ?in c = spec_run e now rest c'"
            using Packet Inr kc True by (subst spec_run.simps) simp
          have "length rest < n"
            using rest_shorter [OF ok Packet] less.prems(2) b by simp
          from less.IH [OF this, of "set_bufs rd c'"] rd obtain r where
            "read_loop e now (set_bufs rd c') = Some r"
            "loop_matches e (spec_run e now rest (set_bufs rd c')) r" by auto
          then show ?thesis
            using sp pos rb rd True by (simp add: loop b spec_run_bufs loop_matches_bufs del: pending.simps)
        next
          case False
          then have "spec_run e now ?in c =
              Inr (False, [], if k \<noteq> WaitingForQuery then on_socket CloseSocket c' else c')"
            using Packet Inr kc by (subst spec_run.simps) simp
          with False pos rb rd show ?thesis
            by (cases rd) (auto simp: loop b loop_matches_def simp del: pending.simps)
        qed
      qed
    qed
  qed
qed

section \<open>Reads\<close>

text \<open>
  A connection that waits for data: open, all bytes taken, and the system asked to read into
  the whole read buffer.
\<close>

definition listening :: "endian \<Rightarrow> conn \<Rightarrow> bool" where
  "listening e c \<longleftrightarrow> IsOpen (cn_socket c) \<and> reader_ok e (bufs c) \<and>
     mb_rpos (fst (bufs c)) = 0 \<and> mb_wpos (fst (bufs c)) = 0 \<and>
     sk_pendingRead (cn_socket c) = Some (0, READ_BLOCK_SIZE)"

definition set_read :: "(nat \<times> nat) option \<Rightarrow> conn \<Rightarrow> conn" where
  "set_read r c = on_socket (\<lambda>s. s\<lparr>sk_pendingRead := r\<rparr>) c"

lemma set_read_simps [simp]:
  "bufs (set_read r c) = bufs c" "IsOpen (cn_socket (set_read r c)) = IsOpen (cn_socket c)"
  "sk_pendingRead (cn_socket (set_read r c)) = r" "set_read r (set_read r' c) = set_read r c"
  "set_read r (set_bufs rd c) = set_bufs rd (set_read r c)"
  by (simp_all add: set_read_def bufs_def IsOpen_def on_socket_def set_bufs_def sock_bufs_def split: prod.split)

lemma set_read_same: "sk_pendingRead (cn_socket c) = r \<Longrightarrow> set_read r c = c"
  by (auto simp: set_read_def on_socket_def)

lemma listening_buffer:
  assumes "listening e c"
  obtains st hb pb where "bufs c = (\<lparr>mb_wpos = 0, mb_rpos = 0, mb_storage = st\<rparr>, hb, pb)" "length st = READ_BLOCK_SIZE"
proof -
  obtain rb hb pb where b: "bufs c = (rb, hb, pb)" by (cases "bufs c")
  with assms have "rb = \<lparr>mb_wpos = 0, mb_rpos = 0, mb_storage = mb_storage rb\<rparr>"
    "length (mb_storage rb) = READ_BLOCK_SIZE"
    by (simp_all add: listening_def read_ok_def)
  with b that show thesis by metis
qed

text \<open>The bytes the system stores are then the active bytes of the read buffer.\<close>

lemma system_store_ok:
  assumes "listening e c" "length data \<le> READ_BLOCK_SIZE"
  shows "\<exists>rd s. system_store data (cn_socket c) = Inr s \<and>
    on_socket (\<lambda>s. s\<lparr>sk_readBuffer := WriteCompleted (length data) (sk_readBuffer s)\<rparr>) (c\<lparr>cn_socket := s\<rparr>) =
      set_bufs rd (set_read None c) \<and>
    reader_ok e rd \<and> pending e rd = pending e (bufs c) \<and> active (fst rd) = data"
proof -
  from listening_buffer [OF assms(1)] obtain st hb pb where
    b: "bufs c = (\<lparr>mb_wpos = 0, mb_rpos = 0, mb_storage = st\<rparr>, hb, pb)" and len: "length st = READ_BLOCK_SIZE" .
  let ?rb = "\<lparr>mb_wpos = 0, mb_rpos = 0, mb_storage = st\<rparr>"
  let ?rb1 = "\<lparr>mb_wpos = 0, mb_rpos = 0, mb_storage = blit 0 data st\<rparr>"
  let ?rb2 = "\<lparr>mb_wpos = length data, mb_rpos = 0, mb_storage = blit 0 data st\<rparr>"
  let ?s = "(cn_socket c)\<lparr>sk_readBuffer := ?rb1, sk_pendingRead := None\<rparr>"
  have rb: "sk_readBuffer (cn_socket c) = ?rb" using b by (simp add: bufs_def)
  have store: "system_store data (cn_socket c) = Inr ?s"
    using assms len by (simp add: system_store_def listening_def rb mem_write_def)
  have wc: "WriteCompleted (length data) ?rb1 = ?rb2"
    using assms(2) by (simp add: WriteCompleted_def wrap_simps READ_BLOCK_SIZE_def size_mod_def)
  have eq: "on_socket (\<lambda>s. s\<lparr>sk_readBuffer := WriteCompleted (length data) (sk_readBuffer s)\<rparr>) (c\<lparr>cn_socket := ?s\<rparr>) =
      set_bufs (?rb2, hb, pb) (set_read None c)"
    using b by (simp add: on_socket_def wc set_bufs_def set_read_def sock_bufs_def bufs_def)
  have "read_ok ?rb2"
    using assms(2) len by (simp add: read_ok_def mb_inv_def READ_BLOCK_SIZE_def)
  then have "reader_ok e (?rb2, hb, pb)" using assms(1) b by (auto simp: listening_def split: if_splits)
  moreover have "active ?rb2 = data" using assms(2) len by (simp add: active_def)
  moreover have "pending e (?rb2, hb, pb) = pending e (bufs c)" by (simp add: b)
  ultimately show ?thesis
    using store eq by (intro exI [of _ "(?rb2, hb, pb)"] exI [of _ ?s]) (simp only: fst_conv simp_thms)
qed

lemma on_socket_r_AsyncRead:
  assumes "reader_ok e (bufs c)" "active (fst (bufs c)) = []" "IsOpen (cn_socket c)"
  shows "\<exists>rd. on_socket_r AsyncRead c = Inr (set_read (Some (0, READ_BLOCK_SIZE)) (set_bufs rd c)) \<and>
    listening e (set_read (Some (0, READ_BLOCK_SIZE)) (set_bufs rd c)) \<and> pending e rd = pending e (bufs c)"
proof -
  obtain rb hb pb where b: "bufs c = (rb, hb, pb)" by (cases "bufs c")
  then have rb: "mb_inv rb" "length (mb_storage rb) = READ_BLOCK_SIZE" "active rb = []"
    "sk_readBuffer (cn_socket c) = rb"
    using assms by (auto simp: read_ok_def bufs_def)
  from Normalize_ok [OF rb(1)] obtain rb' where rb': "Normalize rb = Inr rb'" "mb_inv rb'" "active rb' = []"
    "mb_rpos rb' = 0" "length (mb_storage rb') = READ_BLOCK_SIZE" using rb by auto
  have w: "mb_wpos rb' = 0" using length_active [OF rb'(2)] rb'(3,4) by simp
  have rem: "GetRemainingSpace rb' = READ_BLOCK_SIZE" using rb'(2,5) w by (simp add: buf_simps)
  then have en: "EnsureFreeSpace rb' = rb'" by (simp add: EnsureFreeSpace_def READ_BLOCK_SIZE_def)
  have "on_socket_r AsyncRead c = Inr (set_read (Some (0, READ_BLOCK_SIZE)) (set_bufs (rb', hb, pb) c))"
    using assms(3) rb(4) rb'(1) en rem w b
    by (simp add: on_socket_r_def AsyncRead_def Let_def GetWritePointer_def set_read_def set_bufs_def
        on_socket_def sock_bufs_def bufs_def)
  moreover have "reader_ok e (rb', hb, pb)" using assms(1) b rb' by (auto simp: read_ok_def split: if_splits)
  moreover have "pending e (rb', hb, pb) = pending e (bufs c)" by (simp add: b)
  ultimately show ?thesis
    using assms(3) rb'(4) w by (intro exI [of _ "(rb', hb, pb)"]) (auto simp: listening_def simp del: reader_ok.simps)
qed

text \<open>One read: what the handler does with it, by the specification.\<close>

lemma receive_ok:
  assumes "listening e c" "length data \<le> READ_BLOCK_SIZE"
  shows "\<exists>r. receive e now data c = Some r \<and>
    (case spec_run e now (pending e (bufs c) @ data) (set_read None c) of
       Inl err \<Rightarrow> r = Inl err
     | Inr (again, rest, c') \<Rightarrow>
         \<exists>rd. (if again \<and> IsOpen (cn_socket c')
                then r = Inr (set_read (Some (0, READ_BLOCK_SIZE)) (set_bufs rd c')) \<and>
                  listening e (set_read (Some (0, READ_BLOCK_SIZE)) (set_bufs rd c')) \<and> pending e rd = rest
                else r = Inr (set_bufs rd c')))"
proof -
  from system_store_ok [OF assms] obtain rd s where
    st: "system_store data (cn_socket c) = Inr s"
      "on_socket (\<lambda>s. s\<lparr>sk_readBuffer := WriteCompleted (length data) (sk_readBuffer s)\<rparr>) (c\<lparr>cn_socket := s\<rparr>) =
        set_bufs rd (set_read None c)"
      "reader_ok e rd" "pending e rd = pending e (bufs c)" "active (fst rd) = data" by blast
  let ?c = "set_bufs rd (set_read None c)" and ?sp = "spec_run e now (pending e (bufs c) @ data) (set_read None c)"
  from read_loop_matches [of e ?c, OF _ refl, of now] st(3-5) obtain r where
    r: "read_loop e now ?c = Some r" "loop_matches e ?sp r"
    by (auto simp: spec_run_bufs loop_matches_bufs)
  have rcv: "receive e now data c =
      Some (rbind r (\<lambda>(again, c). if again then on_socket_r AsyncRead c else Inr c))"
    by (simp add: receive_def st(1,2) ReadHandlerInternal_def ReadHandler_def r(1))
  show ?thesis
  proof (cases ?sp)
    case (Inl err)
    with r(2) rcv show ?thesis by (simp add: loop_matches_def)
  next
    case (Inr t)
    obtain again rest c' where t: "t = (again, rest, c')" by (cases t)
    from r(2) Inr t obtain rd' where rd': "r = Inr (again, set_bufs rd' c')"
      "again \<longrightarrow> reader_ok e rd' \<and> pending e rd' = rest \<and> active (fst rd') = []"
      by (auto simp: loop_matches_def simp del: reader_ok.simps pending.simps)
    show ?thesis
    proof (cases "again \<and> IsOpen (cn_socket c')")
      case True
      from on_socket_r_AsyncRead [of e "set_bufs rd' c'"] True rd'(2) obtain rd2 where
        "on_socket_r AsyncRead (set_bufs rd' c') = Inr (set_read (Some (0, READ_BLOCK_SIZE)) (set_bufs rd2 c'))"
        "listening e (set_read (Some (0, READ_BLOCK_SIZE)) (set_bufs rd2 c'))" "pending e rd2 = rest"
        by (auto simp del: reader_ok.simps pending.simps)
      with True rd'(1) rcv Inr t show ?thesis
        by (cases rd2) (auto simp del: reader_ok.simps pending.simps)
    next
      case False
      then have "rbind r (\<lambda>(again, c). if again then on_socket_r AsyncRead c else Inr c) = Inr (set_bufs rd' c')"
        using rd'(1) by (auto simp: on_socket_r_def AsyncRead_def)
      with False rcv Inr t show ?thesis by (cases rd') auto
    qed
  qed
qed

section \<open>The specification composes\<close>

lemma parse_frame_append_Packet:
  "parse_frame xs = Packet op body rest \<Longrightarrow> parse_frame (xs @ ys) = Packet op body (rest @ ys)"
  by (auto simp: parse_frame_def Let_def slice_append_left split: if_splits)

lemma parse_frame_append_Bad: "parse_frame xs = BadHeader \<Longrightarrow> parse_frame (xs @ ys) = BadHeader"
  by (auto simp: parse_frame_def Let_def split: if_splits)

lemma spec_run_append:
  "spec_run e now (xs @ ys) c =
     (case spec_run e now xs c of
        Inl err \<Rightarrow> Inl err
      | Inr (again, rest, c') \<Rightarrow> if again then spec_run e now (rest @ ys) c' else Inr (False, rest, c'))"
proof (induction e now xs c rule: spec_run.induct)
  case (1 e now xs c)
  show ?case
  proof (cases "parse_frame xs")
    case NeedMore
    then have "spec_run e now xs c = Inr (True, xs, c)" by (subst spec_run.simps) simp
    then show ?thesis by simp
  next
    case BadHeader
    then show ?thesis
      using parse_frame_append_Bad [OF BadHeader, of ys] by (simp add: spec_run.simps [of e now _ c])
  next
    case (Packet op body rest)
    note app = parse_frame_append_Packet [OF Packet, of ys]
    show ?thesis
    proof (cases "dispatch e now op (wire_packet op body) c")
      case (Inl err)
      then show ?thesis using Packet app by (simp add: spec_run.simps [of e now _ c])
    next
      case (Inr kc)
      obtain k c' where kc: "kc = (k, c')" by (cases kc)
      show ?thesis
        using 1 [OF Packet Inr kc [symmetric]] Packet app Inr kc by (simp add: spec_run.simps [of e now _ c])
    qed
  qed
qed

lemma spec_run_append_True:
  assumes "spec_run e now (xs @ ys) c = Inr (True, rest, c')"
  shows "\<exists>rest1 c1. spec_run e now xs c = Inr (True, rest1, c1) \<and> spec_run e now (rest1 @ ys) c1 = Inr (True, rest, c')"
proof (cases "spec_run e now xs c")
  case (Inl err)
  with assms spec_run_append [of e now xs ys c] show ?thesis by simp
next
  case (Inr t)
  then obtain again rest1 c1 where "spec_run e now xs c = Inr (again, rest1, c1)" by (cases t) auto
  with assms spec_run_append [of e now xs ys c] show ?thesis by (cases again) simp_all
qed

text \<open>A handler does not reopen a socket and does not ask for a read.\<close>

lemma SendPingMessage_kept:
  assumes "SendPingMessage e now s = Inr s'"
  shows "sk_pendingRead s' = sk_pendingRead s" "IsOpen s' = IsOpen s" "cs_authed s' = cs_authed s"
    "sk_closed s' = sk_closed s"
proof -
  have "s' = s \<or> (\<exists>msgs. s' = s\<lparr>sk_writeQueue := sk_writeQueue s @ msgs\<rparr>)"
    using assms SendPingMessage_ok [of s e now] SendPingMessage_closed [of s e now] by (cases "IsOpen s") auto
  then show "sk_pendingRead s' = sk_pendingRead s" "IsOpen s' = IsOpen s" "cs_authed s' = cs_authed s"
    "sk_closed s' = sk_closed s"
    by (auto simp: IsOpen_def)
qed

lemma Disconnect_kept:
  "sk_pendingRead (cn_socket (Disconnect c)) = sk_pendingRead (cn_socket c)"
  "IsOpen (cn_socket (Disconnect c)) \<Longrightarrow> IsOpen (cn_socket c)"
  "cs_authed (cn_socket (Disconnect c)) = cs_authed (cn_socket c)"
  by (auto simp: Disconnect_def Let_def on_socket_def IsOpen_def CloseSocket_def)

lemma IsOpen_simps [simp]:
  "\<not> IsOpen (CloseSocket s)" "IsOpen (s\<lparr>cs_authed := a\<rparr>) = IsOpen s" "IsOpen (s\<lparr>cs_latency := l\<rparr>) = IsOpen s"
  by (simp_all add: IsOpen_def)

lemma HandleAuthResponce_cases:
  assumes "HandleAuthResponce e now p c = Inr c'"
  obtains "c' = Disconnect c"
  | s' where "SendPingMessage e now ((cn_socket c)\<lparr>cs_authed := True\<rparr>) = Inr s'" "c' = c\<lparr>cn_socket := s'\<rparr>"
  using assms
  by (auto simp: HandleAuthResponce_def rbind_eq_Inr on_socket_r_def on_socket_def split: if_splits)

lemma HandlePong_cases:
  assumes "HandlePong e now p c = Inr c'"
  obtains l where "c' = on_socket (\<lambda>s. s\<lparr>cs_latency := l\<rparr>) c"
  using assms by (auto simp: HandlePong_def rbind_eq_Inr)

lemma dispatch_cases:
  assumes "dispatch e now op p c = Inr (k, c')"
  obtains "k = ReadError" "c' = Disconnect c" | "k = ReadError" "c' = c"
  | "k = ReadOk" "op = SERVER_SEND_AUTH_RESPONSE" "\<not> cs_authed (cn_socket c)"
      "HandleAuthResponce e now p c = Inr c'"
  | "k = ReadOk" "op = SERVER_SEND_PONG" "cs_authed (cn_socket c)" "HandlePong e now p c = Inr c'"
  using assms by (auto simp: dispatch_def rbind_eq_Inr split: if_splits)

lemma dispatch_kept:
  assumes "dispatch e now op p c = Inr (k, c')"
  shows "sk_pendingRead (cn_socket c') = sk_pendingRead (cn_socket c)"
    and "IsOpen (cn_socket c') \<Longrightarrow> IsOpen (cn_socket c)"
proof -
  from assms have "sk_pendingRead (cn_socket c') = sk_pendingRead (cn_socket c) \<and>
      (IsOpen (cn_socket c') \<longrightarrow> IsOpen (cn_socket c))"
  proof (cases rule: dispatch_cases)
    case 3
    from 3(4) show ?thesis
    proof (cases rule: HandleAuthResponce_cases)
      case (2 s')
      with SendPingMessage_kept [OF 2(1)] show ?thesis by simp
    qed (auto simp: Disconnect_kept dest: Disconnect_kept(2))
  next
    case 4
    from 4(4) show ?thesis by (cases rule: HandlePong_cases) (simp add: on_socket_def)
  qed (auto simp: Disconnect_kept dest: Disconnect_kept(2))
  then show "sk_pendingRead (cn_socket c') = sk_pendingRead (cn_socket c)"
    and "IsOpen (cn_socket c') \<Longrightarrow> IsOpen (cn_socket c)" by simp_all
qed

lemma spec_run_kept:
  assumes "spec_run e now bs c = Inr (again, rest, c')"
  shows "sk_pendingRead (cn_socket c') = sk_pendingRead (cn_socket c) \<and>
    (IsOpen (cn_socket c') \<longrightarrow> IsOpen (cn_socket c))"
  using assms
proof (induction e now bs c rule: spec_run.induct)
  case (1 e now bs c)
  show ?case
  proof (cases "parse_frame bs")
    case (Packet op body rest')
    with 1(2) obtain k c1 where d: "dispatch e now op (wire_packet op body) c = Inr (k, c1)"
      by (cases "dispatch e now op (wire_packet op body) c") (auto simp: spec_run.simps [of e now bs c])
    show ?thesis
    proof (cases "k = ReadOk")
      case True
      with 1 Packet d dispatch_kept [OF d] show ?thesis by (simp add: spec_run.simps [of e now bs c])
    next
      case False
      with 1(2) Packet d dispatch_kept [OF d] show ?thesis
        by (auto simp: spec_run.simps [of e now bs c] on_socket_def split: if_splits)
    qed
  qed (use 1(2) in \<open>auto simp: spec_run.simps [of e now bs c] on_socket_def\<close>)
qed

section \<open>Any sequence of reads\<close>

text \<open>The reads of a connection; after a handler that asked for no further read there is none.\<close>

fun receive_all :: "endian \<Rightarrow> int \<Rightarrow> bytes list \<Rightarrow> conn \<Rightarrow> conn result option" where
  "receive_all e now [] c = Some (Inr c)"
| "receive_all e now (d # ds) c =
     (if sk_pendingRead (cn_socket c) = None then Some (Inr c)
      else case receive e now d c of
             None \<Rightarrow> None
           | Some (Inl err) \<Rightarrow> Some (Inl err)
           | Some (Inr c') \<Rightarrow> receive_all e now ds c')"

lemma listening_restore:
  assumes "listening e c"
  shows "set_read (Some (0, READ_BLOCK_SIZE)) (set_bufs (bufs c) (set_read None c)) = c"
proof -
  have "set_read (Some (0, READ_BLOCK_SIZE)) (set_bufs (bufs c) (set_read None c)) =
      set_bufs (bufs c) (set_read (Some (0, READ_BLOCK_SIZE)) c)" by simp
  also have "set_read (Some (0, READ_BLOCK_SIZE)) c = c"
    using assms by (intro set_read_same) (simp add: listening_def)
  finally show ?thesis by simp
qed

lemma receive_all_ok:
  assumes "listening e c" "list_all (\<lambda>d. length d \<le> READ_BLOCK_SIZE) ds"
    and "spec_run e now (pending e (bufs c) @ concat ds) (set_read None c) = Inr (True, rest, c')"
    and "IsOpen (cn_socket c')"
  shows "\<exists>rd. receive_all e now ds c = Some (Inr (set_read (Some (0, READ_BLOCK_SIZE)) (set_bufs rd c'))) \<and>
    listening e (set_read (Some (0, READ_BLOCK_SIZE)) (set_bufs rd c')) \<and> pending e rd = rest"
  using assms
proof (induction ds arbitrary: c c')
  case Nil
  obtain rb hb pb where b: "bufs c = (rb, hb, pb)" by (cases "bufs c")
  have "parse_frame (pending e (bufs c)) = NeedMore"
    using Nil.prems(1) pending_incomplete [of e rb hb pb] by (simp add: listening_def b del: reader_ok.simps pending.simps)
  then have "rest = pending e (bufs c)" "c' = set_read None c"
    using Nil.prems(3) by (simp_all add: spec_run.simps)
  then show ?case
    using Nil.prems(1) listening_restore [OF Nil.prems(1)] by (intro exI [of _ "bufs c"]) simp
next
  case (Cons d ds)
  let ?c0 = "set_read None c" and ?p = "pending e (bufs c)"
  have "spec_run e now ((?p @ d) @ concat ds) ?c0 = Inr (True, rest, c')" using Cons.prems(3) by simp
  then obtain rest1 c1 where s1: "spec_run e now (?p @ d) ?c0 = Inr (True, rest1, c1)"
    and s2: "spec_run e now (rest1 @ concat ds) c1 = Inr (True, rest, c')"
    using spec_run_append_True [of e now "?p @ d" "concat ds" ?c0] by blast
  have open1: "IsOpen (cn_socket c1)" using spec_run_kept [OF s2] Cons.prems(4) by simp
  have none: "sk_pendingRead (cn_socket c1) = None" using spec_run_kept [OF s1] by simp
  have "length d \<le> READ_BLOCK_SIZE" using Cons.prems(2) by simp
  from receive_ok [OF Cons.prems(1) this, of now, unfolded s1] open1 obtain rd where
    rc: "receive e now d c = Some (Inr (set_read (Some (0, READ_BLOCK_SIZE)) (set_bufs rd c1)))"
      "listening e (set_read (Some (0, READ_BLOCK_SIZE)) (set_bufs rd c1))" "pending e rd = rest1"
    by (simp only: sum.case prod.case simp_thms if_True) blast
  let ?c2 = "set_read (Some (0, READ_BLOCK_SIZE)) (set_bufs rd c1)"
  have "set_read None ?c2 = set_bufs rd c1" using set_read_same [OF none] by simp
  then have "spec_run e now (pending e (bufs ?c2) @ concat ds) (set_read None ?c2) = Inr (True, rest, set_bufs rd c')"
    using s2 rc(3) by (simp add: spec_run_bufs)
  moreover have "list_all (\<lambda>d. length d \<le> READ_BLOCK_SIZE) ds" "IsOpen (cn_socket (set_bufs rd c'))"
    using Cons.prems(2,4) by simp_all
  ultimately obtain rd2 where
    "receive_all e now ds ?c2 = Some (Inr (set_read (Some (0, READ_BLOCK_SIZE)) (set_bufs rd2 c')))"
    "listening e (set_read (Some (0, READ_BLOCK_SIZE)) (set_bufs rd2 c'))" "pending e rd2 = rest"
    using Cons.IH [OF rc(2), of "set_bufs rd c'"] by (simp only: set_bufs_simps) blast
  moreover have "receive_all e now (d # ds) c = receive_all e now ds ?c2"
    using Cons.prems(1) rc(1) by (simp add: listening_def)
  ultimately show ?case by (intro exI [of _ rd2]) simp
qed

end
