(* ===== verification/Protocol.thy ===== *)
theory Protocol
  imports Framing
begin

text \<open>
  The client's protocol as a whole: what arrives on the wire against what the connection
  does with it, for every way the bytes are cut into reads.  The theory holds the handlers'
  behaviour on every payload and the properties of the connection.
\<close>

section \<open>The handlers on every payload\<close>

lemma bb_inv_wire: "length body < 2 ^ 63 \<Longrightarrow> bb_inv (pk_buffer (wire_packet op body))"
  by (simp add: bb_inv_def wire_packet_def bb_size_def)

lemma HandleAuthResponce_wire:
  assumes "length body < 2 ^ 63"
  shows "HandleAuthResponce e now (wire_packet op body) c =
    (case body of
       [] \<Rightarrow> Inl (BufferPosition False 0 1 0)
     | code # _ \<Rightarrow>
         if 8 < code then Inl (OutOfRange ''value'')
         else if code \<noteq> Auth_Ok then Inr (Disconnect c)
         else on_socket_r (SendPingMessage e now) (on_socket (\<lambda>s. s\<lparr>cs_authed := True\<rparr>) c))"
proof (cases body)
  case Nil
  then show ?thesis
    using read_val_cases [where 'a = 8, OF bb_inv_wire [OF assms, of op]]
    by (simp add: HandleAuthResponce_def wire_packet_def bb_size_def)
next
  case (Cons code rest)
  have r: "read_val e (pk_buffer (wire_packet op body)) =
      Inr (code, (pk_buffer (wire_packet op body))\<lparr>bb_rpos := 1\<rparr>)"
    using read_byte [of "pk_buffer (wire_packet op body)" "[]" code rest e] assms Cons
    by (simp add: wire_packet_def bb_size_def size_mod_def)
  have k: "8 < code \<longleftrightarrow> AuthCode_ToString code = Inl (OutOfRange ''value'')"
    using auth_code.named [of code] by (auto simp: AuthCode_ToString_def Auth_Ok_def word_less_nat_alt word_unat_eq_iff)
  have err: "AuthCode_ToString code = Inl err \<Longrightarrow> err = OutOfRange ''value''" for err
    by (auto simp: AuthCode_ToString_def split: if_splits)
  have ok: "is_ok (AuthCode_ToString code)" if "\<not> 8 < code"
    using that k err by (cases "AuthCode_ToString code") auto
  show ?thesis
    using k ok by (cases "8 < code") (auto simp: HandleAuthResponce_def r [unfolded Cons] Cons is_ok_iff)
qed

lemma HandlePong_wire:
  assumes "length body < 2 ^ 63"
  shows "HandlePong e now (wire_packet op body) c =
    (if length body < 8 then Inl (BufferPosition False 0 8 (length body))
     else map_sum id (\<lambda>d. on_socket (\<lambda>s. s\<lparr>cs_latency := d\<rparr>) c)
       (int64_diff now (sint (le_word (take 8 body) :: uint64))))"
  using read_val_cases [where 'a = 64, OF bb_inv_wire [OF assms, of op], of e]
  by (auto simp: HandlePong_def wire_packet_def bb_size_def slice_def rbind_def split: sum.splits)

text \<open>The failures a handler can end in.\<close>

definition handler_error :: "cpp_error \<Rightarrow> bool" where
  "handler_error err \<longleftrightarrow> err = BufferPosition False 0 1 0 \<or> (\<exists>n<8. err = BufferPosition False 0 8 n) \<or>
     err = OutOfRange ''value'' \<or> err = UndefinedBehaviour"

lemma on_socket_r_ping_ok: "\<exists>c'. on_socket_r (SendPingMessage e now) c = Inr c'"
  using SendPingMessage_ok [of "cn_socket c" e now] SendPingMessage_closed [of "cn_socket c" e now]
  by (cases "IsOpen (cn_socket c)") (auto simp: on_socket_r_def)

lemma dispatch_error:
  assumes "dispatch e now op (wire_packet op body) c = Inl err" "length body < 2 ^ 63"
  shows "handler_error err"
proof -
  obtain c1 where ping: "on_socket_r (SendPingMessage e now) (on_socket (\<lambda>s. s\<lparr>cs_authed := True\<rparr>) c) = Inr c1"
    using on_socket_r_ping_ok by blast
  consider "HandleAuthResponce e now (wire_packet op body) c = Inl err"
    | "HandlePong e now (wire_packet op body) c = Inl err"
    using assms(1) by (auto simp: dispatch_def rbind_eq_Inl split: if_splits)
  then show ?thesis
  proof cases
    case 1
    then show ?thesis
      using ping by (auto simp: HandleAuthResponce_wire [OF assms(2)] handler_error_def split: list.splits if_splits)
  next
    case 2
    then show ?thesis
      by (auto simp: HandlePong_wire [OF assms(2)] int64_diff_def handler_error_def split: if_splits)
  qed
qed

lemma parse_frame_body:
  assumes "parse_frame bs = Packet op body rest"
  shows "length body < 9998" "op < NUM_OPCODE_HANDLERS" "bs = take 6 bs @ body @ rest"
proof -
  let ?h = "wire_header (take 6 bs)"
  from assms have v: "IsValidSize ?h" "IsValidOpcode ?h" "6 + (unat (hdr_size ?h) - 2) \<le> length bs"
    "op = hdr_cmd ?h" "body = slice 6 (unat (hdr_size ?h) - 2) bs" "rest = drop (6 + (unat (hdr_size ?h) - 2)) bs"
    by (auto simp: parse_frame_def Let_def split: if_splits)
  then show "length body < 9998" by (auto simp: IsValidSize_iff)
  show "op < NUM_OPCODE_HANDLERS" using v(2,4) by (simp add: IsValidOpcode_def)
  have "rest = drop (unat (hdr_size ?h) - 2) (drop 6 bs)" using v(6) by (simp add: add.commute)
  then have "drop 6 bs = body @ rest" using v(5) by (simp only: slice_def append_take_drop_id)
  then show "bs = take 6 bs @ body @ rest" using append_take_drop_id [of 6 bs] by simp
qed

lemma spec_run_error: "spec_run e now bs c = Inl err \<Longrightarrow> handler_error err"
proof (induction e now bs c rule: spec_run.induct)
  case (1 e now bs c)
  then obtain op body rest where p: "parse_frame bs = Packet op body rest"
    by (cases "parse_frame bs") (auto simp: spec_run.simps [of e now bs c])
  have len: "length body < 2 ^ 63" using parse_frame_body(1) [OF p] by simp
  show ?case
  proof (cases "dispatch e now op (wire_packet op body) c")
    case (Inl err')
    with 1(2) p dispatch_error [OF Inl len] show ?thesis by (simp add: spec_run.simps [of e now bs c])
  next
    case (Inr kc)
    obtain k c' where kc: "kc = (k, c')" by (cases kc)
    with 1 p Inr show ?thesis by (auto simp: spec_run.simps [of e now bs c] split: if_splits)
  qed
qed

section \<open>Authentication\<close>

text \<open>The packets of a byte stream, up to the first malformed header.\<close>

function frames :: "bytes \<Rightarrow> (DiscordCode \<times> bytes) list" where
  "frames bs = (case parse_frame bs of Packet op body rest \<Rightarrow> (op, body) # frames rest | _ \<Rightarrow> [])"
  by pat_completeness auto
termination
  by (relation "measure length") (auto dest: parse_frame_shorter)

declare frames.simps [simp del]

lemma frames_append:
  "parse_frame xs = Packet op body rest \<Longrightarrow> frames (xs @ ys) = (op, body) # frames (rest @ ys)"
  by (subst frames.simps) (simp add: parse_frame_append_Packet)

lemma frames_prefix: "set (frames xs) \<subseteq> set (frames (xs @ ys))"
proof (induction xs rule: frames.induct)
  case (1 xs)
  then show ?case
    by (cases "parse_frame xs") (auto simp: frames.simps [of xs] frames_append)
qed

lemma spec_run_frames:
  "spec_run e now xs c = Inr (True, rest, c') \<Longrightarrow> set (frames (rest @ ys)) \<subseteq> set (frames (xs @ ys))"
proof (induction e now xs c rule: spec_run.induct)
  case (1 e now xs c)
  show ?case
  proof (cases "parse_frame xs")
    case NeedMore
    with 1(2) show ?thesis by (simp add: spec_run.simps [of e now xs c])
  next
    case BadHeader
    with 1(2) show ?thesis by (simp add: spec_run.simps [of e now xs c])
  next
    case (Packet op body rest')
    with 1(2) obtain c1 where d: "dispatch e now op (wire_packet op body) c = Inr (ReadOk, c1)"
      "spec_run e now rest' c1 = Inr (True, rest, c')"
      by (cases "dispatch e now op (wire_packet op body) c")
        (auto simp: spec_run.simps [of e now xs c] split: if_splits)
    from 1(1) [OF Packet d(1) refl refl d(2)] show ?thesis using Packet by (auto simp: frames_append)
  qed
qed

lemma cs_authed_CloseSocket [simp]: "cs_authed (CloseSocket s) = cs_authed s"
  by (simp add: CloseSocket_def)

text \<open>What a successful handler leaves of the authentication state and of the output queue.\<close>

lemma dispatch_auth:
  assumes "dispatch e now op (wire_packet op body) c = Inr (k, c')" "length body < 2 ^ 63"
  shows "cs_authed (cn_socket c') = cs_authed (cn_socket c) \<and>
      sk_writeQueue (cn_socket c') = sk_writeQueue (cn_socket c) \<or>
    op = SERVER_SEND_AUTH_RESPONSE \<and> (\<exists>b. body = Auth_Ok # b) \<and> \<not> cs_authed (cn_socket c) \<and>
      cs_authed (cn_socket c')"
proof -
  have disc: "sk_writeQueue (cn_socket (Disconnect c)) = sk_writeQueue (cn_socket c)"
    by (simp add: Disconnect_def Let_def on_socket_def)
  from assms(1) show ?thesis
  proof (cases rule: dispatch_cases)
    case 3
    show ?thesis
    proof (cases "\<exists>b. body = Auth_Ok # b")
      case True
      with 3(4) obtain s' where
        s': "SendPingMessage e now ((cn_socket c)\<lparr>cs_authed := True\<rparr>) = Inr s'" "c' = c\<lparr>cn_socket := s'\<rparr>"
        by (auto simp: HandleAuthResponce_wire [OF assms(2)] on_socket_r_def on_socket_def rbind_eq_Inr Auth_Ok_def)
      with 3 True SendPingMessage_kept(3) [OF s'(1)] show ?thesis by simp
    next
      case False
      with 3(4) have "c' = Disconnect c"
        by (auto simp: HandleAuthResponce_wire [OF assms(2)] split: list.splits if_splits)
      then show ?thesis using disc by (simp add: Disconnect_kept)
    qed
  next
    case 4
    from 4(4) show ?thesis by (cases rule: HandlePong_cases) (simp add: on_socket_def)
  qed (use disc in \<open>auto simp: Disconnect_kept\<close>)
qed

lemma spec_run_auth:
  assumes "spec_run e now bs c = Inr (again, rest, c')" "\<not> cs_authed (cn_socket c)"
  shows "\<not> cs_authed (cn_socket c') \<and> sk_writeQueue (cn_socket c') = sk_writeQueue (cn_socket c) \<or>
    (\<exists>b. (SERVER_SEND_AUTH_RESPONSE, Auth_Ok # b) \<in> set (frames bs))"
  using assms
proof (induction e now bs c rule: spec_run.induct)
  case (1 e now bs c)
  show ?case
  proof (cases "parse_frame bs")
    case (Packet op body rest')
    with 1(2) obtain k c1 where d: "dispatch e now op (wire_packet op body) c = Inr (k, c1)"
      by (cases "dispatch e now op (wire_packet op body) c") (auto simp: spec_run.simps [of e now bs c])
    have len: "length body < 2 ^ 63" using parse_frame_body(1) [OF Packet] by simp
    show ?thesis
    proof (cases "\<exists>b. (op, body) = (SERVER_SEND_AUTH_RESPONSE, Auth_Ok # b)")
      case True
      then show ?thesis using Packet by (auto simp: frames.simps [of bs])
    next
      case False
      with dispatch_auth [OF d len] 1(3) have na: "\<not> cs_authed (cn_socket c1)"
        "sk_writeQueue (cn_socket c1) = sk_writeQueue (cn_socket c)" by auto
      show ?thesis
      proof (cases "k = ReadOk")
        case True
        with 1(2) Packet d have "spec_run e now rest' c1 = Inr (again, rest, c')"
          by (simp add: spec_run.simps [of e now bs c])
        from 1(1) [OF Packet d refl True this na(1)] na(2) Packet show ?thesis
          by (auto simp: frames.simps [of bs])
      next
        case False
        with 1(2) Packet d have "cn_socket c' = CloseSocket (cn_socket c1) \<or> c' = c1"
          by (auto simp: spec_run.simps [of e now bs c] on_socket_def split: if_splits)
        then show ?thesis using na by auto
      qed
    qed
  qed (use 1(2,3) in \<open>auto simp: spec_run.simps [of e now bs c] on_socket_def\<close>)
qed

text \<open>Every read of a waiting connection ends in a waiting connection, in one that reads no more, or in an exception.\<close>

lemma receive_cases:
  assumes "listening e c" "length d \<le> READ_BLOCK_SIZE"
  obtains (error) err where "receive e now d c = Some (Inl err)" "handler_error err"
  | (ok) again rest c1 c2 where
      "spec_run e now (pending e (bufs c) @ d) (set_read None c) = Inr (again, rest, c1)"
      "receive e now d c = Some (Inr c2)" "cs_authed (cn_socket c2) = cs_authed (cn_socket c1)"
      "sk_writeQueue (cn_socket c2) = sk_writeQueue (cn_socket c1)"
      "sk_pendingRead (cn_socket c2) = None \<or> again \<and> listening e c2 \<and> pending e (bufs c2) = rest"
proof (cases "spec_run e now (pending e (bufs c) @ d) (set_read None c)")
  case (Inl err)
  with receive_ok [OF assms, of now] spec_run_error [OF Inl] error show thesis by auto
next
  case (Inr t)
  then obtain again rest c1 where sp: "spec_run e now (pending e (bufs c) @ d) (set_read None c) = Inr (again, rest, c1)"
    by (cases t) auto
  have none: "sk_pendingRead (cn_socket c1) = None" using spec_run_kept [OF sp] by simp
  from receive_ok [OF assms, of now, unfolded sp sum.case prod.case] obtain r rd where
    r: "receive e now d c = Some r" "if again \<and> IsOpen (cn_socket c1)
      then r = Inr (set_read (Some (0, READ_BLOCK_SIZE)) (set_bufs rd c1)) \<and>
        listening e (set_read (Some (0, READ_BLOCK_SIZE)) (set_bufs rd c1)) \<and> pending e rd = rest
      else r = Inr (set_bufs rd c1)" by blast
  have fields: "cs_authed (cn_socket (set_read x (set_bufs rd c1))) = cs_authed (cn_socket c1)"
    "sk_writeQueue (cn_socket (set_read x (set_bufs rd c1))) = sk_writeQueue (cn_socket c1)"
    "bufs (set_read x (set_bufs rd c1)) = rd" for x
    by (simp_all add: set_read_def on_socket_def bufs_def set_bufs_def)
  show thesis
  proof (cases "again \<and> IsOpen (cn_socket c1)")
    case True
    with r have "receive e now d c = Some (Inr (set_read (Some (0, READ_BLOCK_SIZE)) (set_bufs rd c1)))"
      "listening e (set_read (Some (0, READ_BLOCK_SIZE)) (set_bufs rd c1))" "pending e rd = rest" by simp_all
    with True show thesis
      by (intro ok [OF sp, of "set_read (Some (0, READ_BLOCK_SIZE)) (set_bufs rd c1)"])
        (simp_all only: fields simp_thms)
  next
    case False
    with r have "receive e now d c = Some (Inr (set_bufs rd c1))" by simp
    with none show thesis by (intro ok [OF sp, of "set_bufs rd c1"]) simp_all
  qed
qed

lemma receive_all_stopped: "sk_pendingRead (cn_socket c) = None \<Longrightarrow> receive_all e now ds c = Some (Inr c)"
  by (cases ds) simp_all

lemma receive_all_total:
  assumes "listening e c" "list_all (\<lambda>d. length d \<le> READ_BLOCK_SIZE) ds"
  shows "\<exists>r. receive_all e now ds c = Some r \<and> (\<forall>err. r = Inl err \<longrightarrow> handler_error err) \<and>
    (\<forall>c'. r = Inr c' \<longrightarrow> listening e c' \<or> sk_pendingRead (cn_socket c') = None)"
  using assms
proof (induction ds arbitrary: c)
  case (Cons d ds)
  have pend: "sk_pendingRead (cn_socket c) = Some (0, READ_BLOCK_SIZE)" using Cons.prems(1) by (simp add: listening_def)
  have d: "length d \<le> READ_BLOCK_SIZE" using Cons.prems(2) by simp
  from Cons.prems(1) d show ?case
  proof (cases rule: receive_cases [where now = now])
    case (error err)
    then show ?thesis using pend by simp
  next
    case (ok again rest c1 c2)
    then have "receive_all e now (d # ds) c = receive_all e now ds c2" using pend by simp
    with ok(5) Cons.IH [of c2] Cons.prems(2) receive_all_stopped [of c2 e now ds] show ?thesis by auto
  qed
qed simp

lemma receive_all_auth:
  assumes "listening e c" "list_all (\<lambda>d. length d \<le> READ_BLOCK_SIZE) ds" "\<not> cs_authed (cn_socket c)"
    and "receive_all e now ds c = Some (Inr c')"
  shows "\<not> cs_authed (cn_socket c') \<and> sk_writeQueue (cn_socket c') = sk_writeQueue (cn_socket c) \<or>
    (\<exists>b. (SERVER_SEND_AUTH_RESPONSE, Auth_Ok # b) \<in> set (frames (pending e (bufs c) @ concat ds)))"
  using assms
proof (induction ds arbitrary: c)
  case (Cons d ds)
  let ?p = "pending e (bufs c)"
  have pend: "sk_pendingRead (cn_socket c) = Some (0, READ_BLOCK_SIZE)" using Cons.prems(1) by (simp add: listening_def)
  have d: "length d \<le> READ_BLOCK_SIZE" using Cons.prems(2) by simp
  from Cons.prems(1) d show ?case
  proof (cases rule: receive_cases [where now = now])
    case (error err)
    then show ?thesis using Cons.prems(4) pend by simp
  next
    case (ok again rest c1 c2)
    have na: "\<not> cs_authed (cn_socket (set_read None c))"
      and wq: "sk_writeQueue (cn_socket (set_read None c)) = sk_writeQueue (cn_socket c)"
      using Cons.prems(3) by (simp_all add: set_read_def on_socket_def)
    have next1: "receive_all e now ds c2 = Some (Inr c')" using ok(2) Cons.prems(4) pend by simp
    from spec_run_auth [OF ok(1) na] show ?thesis
    proof
      assume "\<exists>b. (SERVER_SEND_AUTH_RESPONSE, Auth_Ok # b) \<in> set (frames (?p @ d))"
      then show ?thesis using frames_prefix [of "?p @ d" "concat ds"] by auto
    next
      assume n: "\<not> cs_authed (cn_socket c1) \<and> sk_writeQueue (cn_socket c1) = sk_writeQueue (cn_socket (set_read None c))"
      from ok(5) show ?thesis
      proof
        assume "sk_pendingRead (cn_socket c2) = None"
        then have "c' = c2" using next1 receive_all_stopped [of c2 e now ds] by simp
        then show ?thesis using n ok(3,4) wq by simp
      next
        assume l: "again \<and> listening e c2 \<and> pending e (bufs c2) = rest"
        then have sub: "set (frames (rest @ concat ds)) \<subseteq> set (frames ((?p @ d) @ concat ds))"
          using spec_run_frames [of e now "?p @ d"] ok(1) by simp
        have "\<not> cs_authed (cn_socket c') \<and> sk_writeQueue (cn_socket c') = sk_writeQueue (cn_socket c2) \<or>
            (\<exists>b. (SERVER_SEND_AUTH_RESPONSE, Auth_Ok # b) \<in> set (frames (pending e (bufs c2) @ concat ds)))"
          by (rule Cons.IH) (use l Cons.prems(2) n ok(3) next1 in simp_all)
        then show ?thesis using sub l n ok(4) wq by auto
      qed
    qed
  qed
qed simp

section \<open>A new connection\<close>

text \<open>A socket with all three options set, started: it waits for the first bytes, none pending.\<close>

definition connect :: "endian \<Rightarrow> int \<Rightarrow> bytes \<Rightarrow> bytes \<Rightarrow> bytes \<Rightarrow> bytes \<Rightarrow> uint64 \<Rightarrow> conn result" where
  "connect e now company version accountName accountKey serverID =
     on_socket_r (Start e now company version) (ClientSocket_new accountName accountKey serverID)"

lemma new_bufs:
  assumes "name \<noteq> []" "key \<noteq> []" "sid \<noteq> 0"
  shows "bufs (ClientSocket_new name key sid) =
    (\<lparr>mb_wpos = 0, mb_rpos = 0, mb_storage = replicate 4096 0\<rparr>,
     \<lparr>mb_wpos = 0, mb_rpos = 0, mb_storage = replicate 6 0\<rparr>, MessageBuffer_default)"
  using assms
  by (simp add: bufs_def ClientSocket_new_def Let_def on_socket_def Socket_new_def socket.defs
      MessageBuffer_default_def Resize_def resize_list_def READ_BLOCK_SIZE_def sizeof_DiscordClientPktHeader_def)

lemma new_state:
  assumes "name \<noteq> []" "key \<noteq> []" "sid \<noteq> 0"
  shows "IsOpen (cn_socket (ClientSocket_new name key sid))" "\<not> cs_authed (cn_socket (ClientSocket_new name key sid))"
    "cs_accountName (cn_socket (ClientSocket_new name key sid)) = name"
    "cs_accountKey (cn_socket (ClientSocket_new name key sid)) = key"
  using assms
  by (simp_all add: ClientSocket_new_def Let_def on_socket_def Socket_new_def socket.defs IsOpen_def)

lemma connect_listening:
  assumes "name \<noteq> []" "key \<noteq> []" "sid \<noteq> 0"
    and "length name + length key + length company + length version \<le> 100000"
  shows "\<exists>c. connect e now company version name key sid = Inr c \<and> listening e c \<and> pending e (bufs c) = [] \<and>
    \<not> cs_authed (cn_socket c)"
proof -
  let ?c = "ClientSocket_new name key sid" let ?s = "cn_socket ?c"
  let ?vs = "[VString name, VString key, VString company, VString version, VU32 100000, VI64 (cs_serverID ?s)]"
  have len: "length (concat (map value_bytes ?vs)) \<le> 10000000"
    using assms(4) by simp
  from send_composed [OF new_state(1) [OF assms(1-3)] len, of e CLIENT_AUTH_SESSION 1] obtain msgs where
    m: "rbind (put_all (put_value e) ?vs (pk_buffer (DiscordPacket CLIENT_AUTH_SESSION 1)))
        (\<lambda>b. SendPacket ((DiscordPacket CLIENT_AUTH_SESSION 1)\<lparr>pk_buffer := b\<rparr>) ?s) =
        Inr (?s\<lparr>sk_writeQueue := sk_writeQueue ?s @ msgs\<rparr>)" by blast
  let ?c1 = "?c\<lparr>cn_socket := ?s\<lparr>sk_writeQueue := sk_writeQueue ?s @ msgs, cs_startTime := now\<rparr>\<rparr>"
  have st: "connect e now company version name key sid = on_socket_r AsyncRead ?c1"
    using m unfolding connect_def on_socket_r_def Start_def SendAuthSession_def Let_def WARHEAD_DISCORD_VERSION_def
      new_state(3,4) [OF assms(1-3)]
    by (auto simp: rbind_eq_Inr simp del: put_all.simps)
  have b: "bufs ?c1 = bufs ?c" by (simp add: bufs_def)
  have "reader_ok e (bufs ?c1)"
    by (simp add: b new_bufs [OF assms(1-3)] read_ok_def header_ok_def mb_inv_def MessageBuffer_default_def
        READ_BLOCK_SIZE_def)
  moreover have "active (fst (bufs ?c1)) = []" by (simp add: b new_bufs [OF assms(1-3)] active_def slice_def)
  moreover have "IsOpen (cn_socket ?c1)" using new_state(1) [OF assms(1-3)] by (simp add: IsOpen_def)
  ultimately obtain rd where "on_socket_r AsyncRead ?c1 = Inr (set_read (Some (0, READ_BLOCK_SIZE)) (set_bufs rd ?c1))"
    "listening e (set_read (Some (0, READ_BLOCK_SIZE)) (set_bufs rd ?c1))" "pending e rd = pending e (bufs ?c1)"
    using on_socket_r_AsyncRead [of e ?c1] by blast
  moreover have "pending e (bufs ?c1) = []"
    by (simp add: b new_bufs [OF assms(1-3)] written_def)
  moreover have "cs_authed (cn_socket (set_read x (set_bufs rd ?c1))) = cs_authed ?s" for x
    by (simp add: set_read_def on_socket_def)
  ultimately show ?thesis
    using st new_state(2) [OF assms(1-3)] by simp
qed

section \<open>Frames\<close>

lemma parse_frame_header:
  assumes "length body < 2 ^ 32 - 2"
  shows "parse_frame (DiscordServerPktHeader (word_of_nat (length body + 2)) op @ body @ rest) =
    (if length body \<le> 9997 \<and> op < NUM_OPCODE_HANDLERS then Packet op body rest else BadHeader)"
proof -
  let ?h = "DiscordServerPktHeader (word_of_nat (length body + 2)) op"
  have un: "unat (word_of_nat (length body + 2) :: uint32) = length body + 2"
    using assms unat_of_nat [of "length body + 2", where 'a = 32] by (simp del: of_nat_add)
  have d: "drop (6 + n) (?h @ xs) = drop n xs" for n xs by (simp add: drop_append)
  show ?thesis
    using un by (auto simp: parse_frame_def d wire_header_server Let_def IsValidSize_iff IsValidOpcode_def
        slice_def simp del: of_nat_add)
qed

lemma spec_run_auth_frame:
  "spec_run e now (DiscordServerPktHeader 3 SERVER_SEND_AUTH_RESPONSE @ [code] @ rest) c =
    (case dispatch e now SERVER_SEND_AUTH_RESPONSE (wire_packet SERVER_SEND_AUTH_RESPONSE [code]) c of
       Inl err \<Rightarrow> Inl err
     | Inr (r, c') \<Rightarrow> if r = ReadOk then spec_run e now rest c'
         else Inr (False, [], if r \<noteq> WaitingForQuery then on_socket CloseSocket c' else c'))"
proof -
  have "parse_frame (DiscordServerPktHeader 3 SERVER_SEND_AUTH_RESPONSE @ [code] @ rest) =
      Packet SERVER_SEND_AUTH_RESPONSE [code] rest"
    using parse_frame_header [of "[code]" SERVER_SEND_AUTH_RESPONSE rest] by (simp add: opcode_defs)
  then show ?thesis by (subst spec_run.simps) simp
qed

text \<open>Concrete connections for the instances below: a new one and its start.\<close>

lemma connect_example:
  obtains c where "connect LittleEndian 5 [87] [49] [97] [98] 1 = Inr c" "listening LittleEndian c"
    "pending LittleEndian (bufs c) = []" "\<not> cs_authed (cn_socket c)" "IsOpen (cn_socket c)"
  using connect_listening [of "[97]" "[98]" 1 "[87]" "[49]" LittleEndian 5] by (auto simp: listening_def)

lemma spec_run_accepted:
  assumes "\<not> cs_authed (cn_socket c)" "IsOpen (cn_socket c)"
  shows "\<exists>c'. spec_run e now (DiscordServerPktHeader 3 SERVER_SEND_AUTH_RESPONSE @ [Auth_Ok]) c = Inr (True, [], c') \<and>
    IsOpen (cn_socket c') \<and> cs_authed (cn_socket c')"
proof -
  let ?a = "(cn_socket c)\<lparr>cs_authed := True\<rparr>"
  have "IsOpen ?a" using assms(2) by (simp add: IsOpen_def)
  from SendPingMessage_ok [OF this, of e now] obtain msgs where
    "SendPingMessage e now ?a = Inr (?a\<lparr>sk_writeQueue := sk_writeQueue ?a @ msgs\<rparr>)" by blast
  then have "dispatch e now SERVER_SEND_AUTH_RESPONSE (wire_packet SERVER_SEND_AUTH_RESPONSE [Auth_Ok]) c =
      Inr (ReadOk, c\<lparr>cn_socket := ?a\<lparr>sk_writeQueue := sk_writeQueue ?a @ msgs\<rparr>\<rparr>)"
    using assms by (simp add: dispatch_def HandleAuthResponce_wire Auth_Ok_def on_socket_r_def on_socket_def)
  moreover have "spec_run e now [] c0 = Inr (True, [], c0)" for c0
    by (subst spec_run.simps) (simp add: parse_frame_def)
  ultimately show ?thesis
    using spec_run_auth_frame [of e now Auth_Ok "[]" c] assms(2) by (simp add: IsOpen_def)
qed

lemma new_attached_example:
  "\<not> cs_authed (cn_socket ((ClientSocket_new [97] [98] 1)\<lparr>cn_attached := True\<rparr>))"
  "IsOpen (cn_socket ((ClientSocket_new [97] [98] 1)\<lparr>cn_attached := True\<rparr>))"
  using new_state(1,2) [of "[97]" "[98]" 1] by simp_all

section \<open>Properties\<close>

text \<open>
  C1: the reader refines the frame specification, whatever way the bytes are cut.  On a
  waiting connection the bytes already pending followed by the bytes of any sequence of
  completed reads are one byte stream; when the specification, which parses whole frames of
  that stream and hands each to its handler in order, keeps the connection open, the reads
  end without an error in the specification's connection, waiting again, and with exactly
  the specification's unparsed rest pending.
\<close>
theorem reader_refines_framing:
  assumes "listening e c" "list_all (\<lambda>d. length d \<le> READ_BLOCK_SIZE) ds"
    and "spec_run e now (pending e (bufs c) @ concat ds) (set_read None c) = Inr (True, rest, c')"
    and "IsOpen (cn_socket c')"
  shows "\<exists>rd. receive_all e now ds c = Some (Inr (set_read (Some (0, READ_BLOCK_SIZE)) (set_bufs rd c'))) \<and>
    listening e (set_read (Some (0, READ_BLOCK_SIZE)) (set_bufs rd c')) \<and> pending e rd = rest"
  by (rule receive_all_ok [OF assms])

theorem reader_refines_framing_witness:
  "\<exists>c c' rd. connect LittleEndian 5 [87] [49] [97] [98] 1 = Inr c \<and>
    receive_all LittleEndian 12 [[0, 0], [0, 3, 6], [0], [0, 0, 0]] c =
      Some (Inr (set_read (Some (0, READ_BLOCK_SIZE)) (set_bufs rd c'))) \<and>
    cs_authed (cn_socket c') \<and> pending LittleEndian rd = [0, 0]"
proof (rule connect_example)
  fix c assume c: "connect LittleEndian 5 [87] [49] [97] [98] 1 = Inr c" "listening LittleEndian c"
    "pending LittleEndian (bufs c) = []" "\<not> cs_authed (cn_socket c)" "IsOpen (cn_socket c)"
  let ?ds = "[[0, 0], [0, 3, 6], [0], [0, 0, 0]] :: bytes list"
  have a: "\<not> cs_authed (cn_socket (set_read None c))" "IsOpen (cn_socket (set_read None c))"
    using c(4,5) by (simp_all add: set_read_def on_socket_def IsOpen_def)
  obtain c' where c': "spec_run LittleEndian 12 (DiscordServerPktHeader 3 SERVER_SEND_AUTH_RESPONSE @ [Auth_Ok])
      (set_read None c) = Inr (True, [], c')" "IsOpen (cn_socket c')" "cs_authed (cn_socket c')"
    using spec_run_accepted [OF a, of LittleEndian 12] by blast
  have hd: "DiscordServerPktHeader 3 SERVER_SEND_AUTH_RESPONSE @ [Auth_Ok] = [0, 0, 0, 3, 6, 0, 0]"
    by (simp add: DiscordServerPktHeader_def opcode_defs Auth_Ok_def)
  have "spec_run LittleEndian 12 ([0, 0, 0, 3, 6, 0, 0] @ [0, 0]) (set_read None c) = Inr (True, [0, 0], c')"
    using spec_run_append [of LittleEndian 12 "[0, 0, 0, 3, 6, 0, 0]" "[0, 0]" "set_read None c"] c'(1)
    by (simp add: hd spec_run.simps [of _ _ "[0, 0]"] parse_frame_def)
  then have "\<exists>rd. receive_all LittleEndian 12 ?ds c =
      Some (Inr (set_read (Some (0, READ_BLOCK_SIZE)) (set_bufs rd c'))) \<and> pending LittleEndian rd = [0, 0]"
    using reader_refines_framing [OF c(2), of ?ds 12 "[0, 0]" c'] c(3) c'(2)
    by (auto simp: READ_BLOCK_SIZE_def simp del: receive_all.simps pending.simps)
  then show ?thesis using c(1) c'(3) by blast
qed





text \<open>
  C10: the client's frames are its own reader's frames, up to the size limit.  The bytes of
  a sent packet with an opcode of the table and at most 9997 bytes of contents parse back to
  its opcode, its contents and what follows; any other packet is sent all the same and its
  header is refused by a reader with this code.
\<close>
theorem frame_round_trip:
  assumes "bb_size (pk_buffer p) < 2 ^ 32 - 2"
  shows "parse_frame (packet_bytes p @ rest) =
    (if bb_size (pk_buffer p) \<le> 9997 \<and> pk_opcode p < NUM_OPCODE_HANDLERS
     then Packet (pk_opcode p) (bb_storage (pk_buffer p)) rest else BadHeader)"
  using parse_frame_header [of "bb_storage (pk_buffer p)" "pk_opcode p" rest] assms
  by (simp add: packet_bytes_def bb_size_def)

theorem frame_round_trip_witness:
  "parse_frame (packet_bytes (DiscordPacket CLIENT_SEND_HELLO 1) @ [7]) = Packet CLIENT_SEND_HELLO [] [7]"
  using frame_round_trip [of "DiscordPacket CLIENT_SEND_HELLO 1" "[7]"]
  by (simp add: DiscordPacket_def ByteBuffer_reserve_def bb_size_def opcode_defs)

text \<open>
  C11: the handler of the authentication response on every payload of an unauthenticated
  connection.  An empty payload and an unnamed code end in an exception that nothing in the
  program catches; every named code but \<open>Ok\<close> disconnects, and the socket of the manager is
  closed; \<open>Ok\<close> authenticates the connection and queues exactly one ping, of the
  present time and the last latency.
\<close>
theorem auth_response_outcomes:
  assumes "length body < 2 ^ 63" "\<not> cs_authed (cn_socket c)" "cn_attached c" "IsOpen (cn_socket c)"
    and r: "r = dispatch e now SERVER_SEND_AUTH_RESPONSE (wire_packet SERVER_SEND_AUTH_RESPONSE body) c"
  shows "case body of
      [] \<Rightarrow> r = Inl (BufferPosition False 0 1 0)
    | code # _ \<Rightarrow>
        if 8 < code then r = Inl (OutOfRange ''value'')
        else if code = Auth_Ok then \<exists>c'. r = Inr (ReadOk, c') \<and> cs_authed (cn_socket c') \<and> IsOpen (cn_socket c') \<and>
          stream (cn_socket c') = stream (cn_socket c) @
            value_packet_bytes CLIENT_SEND_PING [VI64 (word_of_int now), VI64 (word_of_int (cs_latency (cn_socket c)))]
        else \<exists>c'. r = Inr (ReadOk, c') \<and> \<not> cs_authed (cn_socket c') \<and> \<not> IsOpen (cn_socket c') \<and>
          \<not> cn_attached c' \<and> cn_stopped c' \<and> stream (cn_socket c') = stream (cn_socket c)"
proof -
  let ?a = "(cn_socket c)\<lparr>cs_authed := True\<rparr>"
  have o: "IsOpen ?a" using assms(4) by (simp add: IsOpen_def)
  from SendPingMessage_ok [OF o, of e now] obtain msgs where
    "SendPingMessage e now ?a = Inr (?a\<lparr>sk_writeQueue := sk_writeQueue ?a @ msgs\<rparr>)"
    "concat (map active msgs) = value_packet_bytes CLIENT_SEND_PING
       [VI64 (word_of_int now), VI64 (word_of_int (cs_latency (cn_socket c)))]" by auto
  then show ?thesis
    using assms(2-4) unfolding r dispatch_def HandleAuthResponce_wire [OF assms(1)]
    by (auto simp: on_socket_r_def on_socket_def Disconnect_def CloseSocket_def IsOpen_def stream_def Let_def
        split: list.split)
qed

theorem auth_response_outcomes_witness:
  "\<exists>c'. dispatch BigEndian 7 SERVER_SEND_AUTH_RESPONSE (wire_packet SERVER_SEND_AUTH_RESPONSE [4])
      ((ClientSocket_new [97] [98] 1)\<lparr>cn_attached := True\<rparr>) = Inr (ReadOk, c') \<and> \<not> IsOpen (cn_socket c')"
  using auth_response_outcomes [OF _ new_attached_example(1) _ new_attached_example(2) refl, of "[4]" BigEndian 7]
  by (auto simp: Auth_Ok_def)

text \<open>
  A rejected connection still obeys the rest of the read.  When one read holds the
  response that rejects the client and then one that accepts it, the first closes the
  connection and the second authenticates it all the same.
\<close>
theorem rejected_then_accepted:
  assumes "\<not> cs_authed (cn_socket c)" "cn_attached c" "IsOpen (cn_socket c)" "code \<noteq> Auth_Ok" "code \<le> 8"
  shows "\<exists>c'. spec_run e now
      (DiscordServerPktHeader 3 SERVER_SEND_AUTH_RESPONSE @ [code] @
       DiscordServerPktHeader 3 SERVER_SEND_AUTH_RESPONSE @ [Auth_Ok]) c = Inr (True, [], c') \<and>
    \<not> IsOpen (cn_socket c') \<and> cs_authed (cn_socket c') \<and> stream (cn_socket c') = stream (cn_socket c)"
proof -
  let ?c1 = "Disconnect c" and ?p = "wire_packet SERVER_SEND_AUTH_RESPONSE"
  have fst: "dispatch e now SERVER_SEND_AUTH_RESPONSE (?p [code]) c = Inr (ReadOk, ?c1)"
    using assms by (simp add: dispatch_def HandleAuthResponce_wire)
  let ?c2 = "on_socket (\<lambda>s. s\<lparr>cs_authed := True\<rparr>) ?c1"
  have c1: "\<not> IsOpen (cn_socket ?c1)" "\<not> cs_authed (cn_socket ?c1)" "stream (cn_socket ?c1) = stream (cn_socket c)"
    using assms(1-3) by (simp_all add: Disconnect_def on_socket_def CloseSocket_def IsOpen_def Let_def stream_def)
  then have "on_socket_r (SendPingMessage e now) ?c2 = Inr ?c2"
    by (simp add: on_socket_r_def on_socket_def SendPingMessage_closed)
  then have snd: "dispatch e now SERVER_SEND_AUTH_RESPONSE (?p [Auth_Ok]) ?c1 = Inr (ReadOk, ?c2)"
    using c1 by (simp add: dispatch_def HandleAuthResponce_wire Auth_Ok_def)
  have "spec_run e now [] ?c2 = Inr (True, [], ?c2)" by (subst spec_run.simps) (simp add: parse_frame_def)
  then show ?thesis
    using spec_run_auth_frame [of e now code _ c] spec_run_auth_frame [of e now Auth_Ok "[]" ?c1] fst snd c1
    by (auto simp: on_socket_def stream_def)
qed

theorem rejected_then_accepted_witness:
  "\<exists>c'. spec_run LittleEndian 7 ([0, 0, 0, 3, 6, 0, 4] @ [0, 0, 0, 3, 6, 0, 0])
      ((ClientSocket_new [97] [98] 1)\<lparr>cn_attached := True\<rparr>) = Inr (True, [], c') \<and>
    \<not> IsOpen (cn_socket c') \<and> cs_authed (cn_socket c')"
  using rejected_then_accepted [OF new_attached_example(1) _ new_attached_example(2), of 4 LittleEndian 7]
  by (auto simp: Auth_Ok_def DiscordServerPktHeader_def opcode_defs)

end
