(* ===== verification/ClientSocketMgr.thy ===== *)
theory ClientSocketMgr
  imports Protocol
begin

text \<open>
  \<^verbatim>\<open>src/client/Client/ClientSocketMgr.h\<close> and \<^verbatim>\<open>ClientSocketMgr.cpp\<close>: the owner of the
  client's connection.  It connects, reconnects, moves packets queued by other parts of the
  program to the socket, and keeps itself running with a one-millisecond timer.

  The timer is Boost's: \<open>mg_waits\<close> are the handlers that wait for it, \<open>mg_ready\<close> those the I/O
  context will run next, in order.  Cancelling the timer, or giving it a new expiry, makes
  every waiting handler ready with an error code; the handlers of this class ignore the
  code.  The rest of the world is the record \<open>world\<close>: the results of \<open>connect\<close> and
  \<open>write_some\<close> on a state of the operating system, the clock, and the configuration.
\<close>

section \<open>State\<close>

datatype timer_task = RunUpdate | RunConnect nat

record 'a mgr =
  mg_stopped :: bool
  mg_timer :: bool
  mg_waits :: "timer_task list"
  mg_ready :: "timer_task list"
  mg_clientSocket :: "client_socket option"
  mg_address :: "'a option"
  mg_bufferQueue :: "discord_packet packet_queue"
  mg_slept :: nat
  mg_released :: "client_socket list"

record ('a, 'os) world =
  w_endian :: endian
  w_now :: "'os \<Rightarrow> int"
  w_connect :: "'a \<Rightarrow> 'os \<Rightarrow> bool \<times> 'os"
  w_write_some :: "'os \<Rightarrow> bytes \<Rightarrow> write_result \<times> 'os"
  w_company :: bytes
  w_version :: bytes
  w_accountName :: bytes
  w_accountKey :: bytes
  w_serverID :: uint64

definition ClientSocketMgr_new :: "'a mgr" where
  "ClientSocketMgr_new = \<lparr>mg_stopped = False, mg_timer = False, mg_waits = [], mg_ready = [],
     mg_clientSocket = None, mg_address = None, mg_bufferQueue = PacketQueue_new, mg_slept = 0,
     mg_released = []\<rparr>"

section \<open>The timer\<close>

text \<open>Through a null \<open>_updateTimer\<close> every call is undefined.\<close>

definition timer_cancel :: "'a mgr \<Rightarrow> 'a mgr result" where
  "timer_cancel m = (if \<not> mg_timer m then Inl UndefinedBehaviour
     else Inr (m\<lparr>mg_ready := mg_ready m @ mg_waits m, mg_waits := []\<rparr>))"

definition timer_expires_from_now :: "'a mgr \<Rightarrow> 'a mgr result" where
  "timer_expires_from_now m = timer_cancel m"

definition timer_async_wait :: "timer_task \<Rightarrow> 'a mgr \<Rightarrow> 'a mgr result" where
  "timer_async_wait t m = (if \<not> mg_timer m then Inl UndefinedBehaviour
     else Inr (m\<lparr>mg_waits := mg_waits m @ [t]\<rparr>))"

text \<open>Giving up the pointer to the socket.\<close>

definition release_socket :: "'a mgr \<Rightarrow> 'a mgr" where
  "release_socket m = (case mg_clientSocket m of None \<Rightarrow> m
     | Some s \<Rightarrow> m\<lparr>mg_clientSocket := None, mg_released := mg_released m @ [s]\<rparr>)"

section \<open>The operations\<close>

definition Mgr_Disconnect :: "'a mgr \<Rightarrow> 'a mgr result" where
  "Mgr_Disconnect m =
     rbind (timer_cancel (m\<lparr>mg_stopped := True\<rparr>)) (\<lambda>m.
       Inr (release_socket
         (case mg_clientSocket m of
            Some s \<Rightarrow> if IsOpen s then m\<lparr>mg_clientSocket := Some (CloseSocket s)\<rparr> else m
          | None \<Rightarrow> m)))"

definition Mgr_AddPacketToQueue :: "discord_packet \<Rightarrow> 'a mgr \<Rightarrow> 'a mgr" where
  "Mgr_AddPacketToQueue packet m =
     m\<lparr>mg_bufferQueue := AddPacket (copy_DiscordPacket packet) (mg_bufferQueue m)\<rparr>"

definition Mgr_SendPacket :: "discord_packet \<Rightarrow> 'a mgr \<Rightarrow> 'a mgr" where
  "Mgr_SendPacket packet m =
     (case mg_clientSocket m of
        None \<Rightarrow> m
      | Some s \<Rightarrow> m\<lparr>mg_clientSocket := Some (ClientSocket_AddPacketToQueue packet s)\<rparr>)"

definition ConnectToServer :: "nat \<Rightarrow> 'a mgr \<Rightarrow> 'a mgr result" where
  "ConnectToServer reconnectCount m =
     rbind (timer_cancel m) (\<lambda>m.
       rbind (timer_expires_from_now m) (timer_async_wait (RunConnect reconnectCount)))"

lemma Mgr_SendPacket_bufferQueue [simp]: "mg_bufferQueue (Mgr_SendPacket p m) = mg_bufferQueue m"
  by (simp add: Mgr_SendPacket_def split: option.split)

text \<open>The loop at the end of \<open>Update\<close>.\<close>

function deliver :: "'a mgr \<Rightarrow> 'a mgr" where
  "deliver m =
     (case GetNextPacket (mg_bufferQueue m) of
        None \<Rightarrow> m
      | Some (queuedPacket, q) \<Rightarrow> deliver (Mgr_SendPacket queuedPacket (m\<lparr>mg_bufferQueue := q\<rparr>)))"
  by pat_completeness auto
termination
  by (relation "measure (\<lambda>m. length (pq_queue (mg_bufferQueue m)))")
    (auto simp: GetNextPacket_def split: list.splits)

declare deliver.simps [simp del]

definition Mgr_Update :: "('a, 'os) world \<Rightarrow> 'os \<Rightarrow> 'a mgr \<Rightarrow> ('a mgr \<times> 'os) result" where
  "Mgr_Update w os m =
     (if mg_stopped m then Inr (m, os)
      else rbind (timer_expires_from_now m) (\<lambda>m. rbind (timer_async_wait RunUpdate m) (\<lambda>m.
        case mg_clientSocket m of
          None \<Rightarrow> Inr (m, os)
        | Some s \<Rightarrow>
            rbind (ClientSocket_Update (w_write_some w) os s) (\<lambda>(running, s, os).
              if \<not> running then
                rbind (ConnectToServer 3 (release_socket (m\<lparr>mg_clientSocket := Some (CloseSocket s)\<rparr>)))
                  (\<lambda>m. Inr (m, os))
              else
                let m = m\<lparr>mg_clientSocket := Some s\<rparr>
                in Inr (if IsEmpty (mg_bufferQueue m) then m else deliver m, os)))))"

definition Mgr_Initialize :: "bool \<Rightarrow> 'a option \<Rightarrow> 'a mgr \<Rightarrow> 'a mgr result" where
  "Mgr_Initialize enabled resolved m =
     (if \<not> enabled then Inr m
      else case resolved of
             None \<Rightarrow> Inr (m\<lparr>mg_timer := True\<rparr>)
           | Some address \<Rightarrow> ConnectToServer 1 (m\<lparr>mg_timer := True, mg_address := Some address\<rparr>))"

text \<open>
  A connection made: the constructor of \<open>ClientSocket\<close> calls \<open>Disconnect\<close> when an option is
  missing, then the new socket replaces the old, starts, and \<open>Update\<close> is scheduled.
\<close>

definition connected :: "('a, 'os) world \<Rightarrow> 'os \<Rightarrow> 'a mgr \<Rightarrow> 'a mgr result" where
  "connected w os m =
     (let c = ClientSocket_new (w_accountName w) (w_accountKey w) (w_serverID w)
      in rbind (if cn_stopped c then Mgr_Disconnect m else Inr m) (\<lambda>m.
           rbind (Start (w_endian w) (w_now w os) (w_company w) (w_version w) (cn_socket c)) (\<lambda>s.
             rbind (timer_expires_from_now ((release_socket m)\<lparr>mg_clientSocket := Some s\<rparr>))
               (timer_async_wait RunUpdate))))"

text \<open>The loop of the connect handler, by the number of attempts left.\<close>

fun try_connect :: "('a, 'os) world \<Rightarrow> 'a \<Rightarrow> nat \<Rightarrow> 'os \<Rightarrow> 'a mgr \<Rightarrow> ('a mgr \<times> 'os) result" where
  "try_connect w address 0 os m = rbind (Mgr_Disconnect m) (\<lambda>m. Inr (m, os))"
| "try_connect w address (Suc k) os m =
     (let (ok, os') = w_connect w address os
      in if ok then rbind (connected w os' m) (\<lambda>m. Inr (m, os'))
         else try_connect w address k os' (if 0 < k then m\<lparr>mg_slept := mg_slept m + 5\<rparr> else m))"

definition connect_handler :: "('a, 'os) world \<Rightarrow> nat \<Rightarrow> 'os \<Rightarrow> 'a mgr \<Rightarrow> ('a mgr \<times> 'os) result" where
  "connect_handler w reconnectCount os m =
     (if (case mg_clientSocket m of Some s \<Rightarrow> IsOpen s | None \<Rightarrow> False) then Inr (m, os)
      else case mg_address m of
             None \<Rightarrow> Inr (m, os)
           | Some address \<Rightarrow> try_connect w address reconnectCount os m)"

section \<open>Running\<close>

text \<open>The timer expires; the I/O context runs the next ready handler.\<close>

definition timer_expire :: "'a mgr \<Rightarrow> 'a mgr" where
  "timer_expire m = m\<lparr>mg_ready := mg_ready m @ mg_waits m, mg_waits := []\<rparr>"

definition run_next :: "('a, 'os) world \<Rightarrow> 'os \<Rightarrow> 'a mgr \<Rightarrow> ('a mgr \<times> 'os) result" where
  "run_next w os m =
     (case mg_ready m of
        [] \<Rightarrow> Inr (m, os)
      | RunUpdate # rest \<Rightarrow> Mgr_Update w os (m\<lparr>mg_ready := rest\<rparr>)
      | RunConnect n # rest \<Rightarrow> connect_handler w n os (m\<lparr>mg_ready := rest\<rparr>))"

fun run_n :: "('a, 'os) world \<Rightarrow> nat \<Rightarrow> 'os \<Rightarrow> 'a mgr \<Rightarrow> ('a mgr \<times> 'os) result" where
  "run_n w 0 os m = Inr (m, os)"
| "run_n w (Suc k) os m = rbind (run_next w os m) (\<lambda>(m, os). run_n w k os m)"

text \<open>A read completes on the manager's socket; its handlers may call \<open>Disconnect\<close>.\<close>

definition mgr_receive :: "('a, 'os) world \<Rightarrow> bytes \<Rightarrow> 'os \<Rightarrow> 'a mgr \<Rightarrow> 'a mgr result option" where
  "mgr_receive w data os m =
     (case mg_clientSocket m of
        None \<Rightarrow> Some (Inr m)
      | Some s \<Rightarrow>
          map_option (\<lambda>r. rbind r (\<lambda>c.
              if cn_attached c then Inr (m\<lparr>mg_clientSocket := Some (cn_socket c)\<rparr>)
              else rbind (timer_cancel (m\<lparr>mg_stopped := True\<rparr>)) (\<lambda>m.
                Inr (release_socket (m\<lparr>mg_clientSocket := Some (cn_socket c)\<rparr>)))))
            (receive (w_endian w) (w_now w os) data
               \<lparr>cn_socket = s, cn_attached = True, cn_stopped = mg_stopped m\<rparr>))"

section \<open>Lemmas\<close>

named_theorems mgr_defs

declare timer_cancel_def [mgr_defs] timer_expires_from_now_def [mgr_defs] timer_async_wait_def [mgr_defs]
  ConnectToServer_def [mgr_defs] Mgr_Disconnect_def [mgr_defs] release_socket_def [mgr_defs]

lemma Mgr_Disconnect_ok:
  assumes "mg_timer m"
  shows "\<exists>m'. Mgr_Disconnect m = Inr m' \<and> mg_stopped m' \<and> mg_clientSocket m' = None \<and> mg_timer m' \<and>
    mg_ready m' = mg_ready m @ mg_waits m \<and> mg_waits m' = [] \<and> mg_slept m' = mg_slept m \<and>
    mg_bufferQueue m' = mg_bufferQueue m \<and> mg_address m' = mg_address m"
  using assms by (auto simp: mgr_defs split: option.splits)

lemma deliver_client:
  assumes "mg_clientSocket m = Some s" "pq_queue (cs_bufferQueue s) = xs" "pq_queue (mg_bufferQueue m) = ys"
  shows "\<exists>s'. mg_clientSocket (deliver m) = Some s' \<and>
    pq_queue (cs_bufferQueue s') = xs @ map copy_DiscordPacket ys \<and>
    pq_queue (mg_bufferQueue (deliver m)) = [] \<and> mg_waits (deliver m) = mg_waits m \<and>
    mg_ready (deliver m) = mg_ready m \<and> mg_stopped (deliver m) = mg_stopped m \<and> mg_timer (deliver m) = mg_timer m \<and>
    IsOpen s' = IsOpen s \<and> sk_closed s' = sk_closed s \<and> mg_released (deliver m) = mg_released m"
  using assms
proof (induction ys arbitrary: m s xs)
  case Nil
  then have "deliver m = m" by (subst deliver.simps) (simp add: GetNextPacket_def)
  with Nil show ?case by simp
next
  case (Cons p ys)
  let ?q = "(mg_bufferQueue m)\<lparr>pq_queue := ys\<rparr>"
  let ?s = "ClientSocket_AddPacketToQueue p s"
  let ?m = "m\<lparr>mg_bufferQueue := ?q, mg_clientSocket := Some ?s\<rparr>"
  have step: "deliver m = deliver ?m"
    using Cons.prems by (subst deliver.simps) (simp add: GetNextPacket_def Mgr_SendPacket_def)
  have "pq_queue (cs_bufferQueue ?s) = xs @ [copy_DiscordPacket p]"
    using Cons.prems(2) by (simp add: ClientSocket_AddPacketToQueue_def AddPacket_def)
  from Cons.IH [OF _ this, of ?m] show ?case
    by (auto simp: step ClientSocket_AddPacketToQueue_def IsOpen_def)
qed

text \<open>A round of \<open>Update\<close> on a running manager: what is left of the timer's handlers.\<close>

lemma Mgr_Update_tasks:
  assumes "Mgr_Update w os m = Inr (m', os')" "\<not> mg_stopped m" "mg_clientSocket m' = None \<longrightarrow> mg_clientSocket m = None"
  shows "mg_ready m' = mg_ready m @ mg_waits m \<and> mg_waits m' = [RunUpdate] \<and> \<not> mg_stopped m' \<and> mg_timer m'"
proof (cases "mg_clientSocket m")
  case None
  with assms show ?thesis by (auto simp: Mgr_Update_def mgr_defs rbind_eq_Inr split: if_splits)
next
  case (Some s)
  with assms obtain s' where "mg_timer m" and
    d: "m' = m\<lparr>mg_ready := mg_ready m @ mg_waits m, mg_waits := [RunUpdate], mg_clientSocket := Some s'\<rparr> \<or>
      m' = deliver (m\<lparr>mg_ready := mg_ready m @ mg_waits m, mg_waits := [RunUpdate], mg_clientSocket := Some s'\<rparr>)"
    by (auto simp: Mgr_Update_def mgr_defs rbind_eq_Inr Let_def split: if_splits)
  then show ?thesis
    using assms(2) deliver_client [of "m\<lparr>mg_ready := mg_ready m @ mg_waits m, mg_waits := [RunUpdate],
        mg_clientSocket := Some s'\<rparr>" s', OF _ refl refl] by auto
qed

lemma try_connect_down:
  assumes "\<forall>os. \<not> fst (w_connect w a os)" "mg_timer m"
  shows "\<exists>m'. try_connect w a n os m = Inr (m', ((\<lambda>os. snd (w_connect w a os)) ^^ n) os) \<and> mg_stopped m' \<and>
    mg_clientSocket m' = None \<and> mg_slept m' = mg_slept m + 5 * (n - 1) \<and> mg_waits m' = [] \<and>
    mg_ready m' = mg_ready m @ mg_waits m"
  using assms(2)
proof (induction n arbitrary: os m)
  case 0
  from Mgr_Disconnect_ok [OF this] show ?case by auto
next
  case (Suc n)
  obtain os1 where os1: "w_connect w a os = (False, os1)" using assms(1) by (metis prod.collapse)
  have pow: "((\<lambda>os. snd (w_connect w a os)) ^^ Suc n) os = ((\<lambda>os. snd (w_connect w a os)) ^^ n) os1"
    using os1 by (simp only: funpow_Suc_right comp_def snd_conv)
  let ?m = "if 0 < n then m\<lparr>mg_slept := mg_slept m + 5\<rparr> else m"
  have "mg_timer ?m" using Suc.prems by simp
  from Suc.IH [OF this, of os1] obtain m' where
    m': "try_connect w a n os1 ?m = Inr (m', ((\<lambda>os. snd (w_connect w a os)) ^^ n) os1)" "mg_stopped m'"
      "mg_clientSocket m' = None" "mg_slept m' = mg_slept ?m + 5 * (n - 1)" "mg_waits m' = []"
      "mg_ready m' = mg_ready ?m @ mg_waits ?m" by blast
  have "mg_slept ?m + 5 * (n - 1) = mg_slept m + 5 * (Suc n - 1)" by (cases n) simp_all
  moreover have "mg_ready ?m = mg_ready m" "mg_waits ?m = mg_waits m" by simp_all
  moreover have "try_connect w a (Suc n) os m = try_connect w a n os1 ?m" using os1 by simp
  ultimately show ?case using m' unfolding pow by (intro exI [of _ m']) simp_all
qed

lemma send_queued_closed:
  "\<not> IsOpen s \<Longrightarrow> \<exists>s'. send_queued s = Inr s' \<and> sk_closed s' = sk_closed s"
proof (induction s rule: send_queued.induct)
  case (1 s)
  show ?case
  proof (cases "GetNextPacket (cs_bufferQueue s)")
    case None
    then show ?thesis by (subst send_queued.simps) simp
  next
    case (Some pq)
    obtain p q where pq: "pq = (p, q)" by (cases pq)
    have "\<not> IsOpen (s\<lparr>cs_bufferQueue := q\<rparr>)" using 1(2) by (simp add: IsOpen_def)
    with 1(1) [OF Some pq [symmetric] SendPacket_closed] Some pq show ?thesis
      by (subst send_queued.simps) (simp add: SendPacket_closed)
  qed
qed

lemma ClientSocket_Update_closed:
  assumes "sk_closed s"
  shows "\<exists>s'. ClientSocket_Update write_some os s = Inr (False, s', os)"
  using send_queued_closed [of s] assms by (auto simp: ClientSocket_Update_def Socket_Update_def IsOpen_def)

lemma connected_ok:
  assumes "w_accountName w \<noteq> []" "w_accountKey w \<noteq> []" "w_serverID w \<noteq> 0" "mg_timer m" "mg_clientSocket m = None"
    and "length (w_accountName w) + length (w_accountKey w) + length (w_company w) + length (w_version w) \<le> 100000"
  shows "\<exists>s. IsOpen s \<and> connected w os m =
    Inr (m\<lparr>mg_clientSocket := Some s, mg_ready := mg_ready m @ mg_waits m, mg_waits := [RunUpdate]\<rparr>)"
proof -
  let ?c = "ClientSocket_new (w_accountName w) (w_accountKey w) (w_serverID w)"
  have "\<not> cn_stopped ?c" using assms(1-3) by (simp add: ClientSocket_new_def Let_def on_socket_def)
  moreover obtain s where "Start (w_endian w) (w_now w os) (w_company w) (w_version w) (cn_socket ?c) = Inr s" "IsOpen s"
    using connect_listening [OF assms(1-3,6), of "w_endian w" "w_now w os"]
    by (auto simp: connect_def on_socket_r_def rbind_eq_Inr listening_def)
  ultimately show ?thesis using assms(4,5) by (auto simp: connected_def Let_def mgr_defs)
qed

text \<open>Concrete worlds and managers for the instances below: a server that is up or down, counting attempts.\<close>

definition example_world :: "bool \<Rightarrow> (unit, nat) world" where
  "example_world up = \<lparr>w_endian = LittleEndian, w_now = int, w_connect = (\<lambda>_ os. (up, Suc os)),
     w_write_some = two_bytes_at_a_time, w_company = [87], w_version = [49], w_accountName = [97],
     w_accountKey = [98], w_serverID = 1\<rparr>"

definition example_mgr :: "client_socket option \<Rightarrow> timer_task list \<Rightarrow> timer_task list \<Rightarrow> unit mgr" where
  "example_mgr s waits ready = ClientSocketMgr_new\<lparr>mg_timer := True, mg_address := Some (), mg_clientSocket := s,
     mg_waits := waits, mg_ready := ready\<rparr>"

lemma example_socket_update: "ClientSocket_Update two_bytes_at_a_time os witness_client = Inr (True, witness_client, os)"
  by (simp add: ClientSocket_Update_def Socket_Update_def witness_client_fields new_state(2) witness_client_def)
    (simp add: ClientSocket_new_def Let_def on_socket_def Socket_new_def socket.defs)

lemma example_two_chains:
  "run_n (example_world True) k os (example_mgr (Some witness_client) [RunUpdate] [RunUpdate]) =
     Inr (example_mgr (Some witness_client) [RunUpdate] [RunUpdate], os)"
proof (induction k)
  case (Suc k)
  have "run_next (example_world True) os (example_mgr (Some witness_client) [RunUpdate] [RunUpdate]) =
      Inr (example_mgr (Some witness_client) [RunUpdate] [RunUpdate], os)"
    by (simp add: run_next_def example_mgr_def example_world_def Mgr_Update_def mgr_defs ClientSocketMgr_new_def
        example_socket_update PacketQueue_new_def IsEmpty_def)
  with Suc show ?case by simp
qed simp

section \<open>Properties\<close>

text \<open>
  C19: a server that cannot be reached is given up after the attempts asked for.  The connect
  handler tries exactly \<open>reconnectCount\<close> times, sleeps five seconds between two attempts, and
  then stops the manager for good: no socket, no waiting timer handler.
\<close>
theorem reconnect_gives_up:
  assumes "mg_timer m" "mg_address m = Some a" "\<forall>os. \<not> fst (w_connect w a os)"
    and "\<forall>s. mg_clientSocket m = Some s \<longrightarrow> \<not> IsOpen s"
  shows "\<exists>m'. connect_handler w n os m = Inr (m', ((\<lambda>os. snd (w_connect w a os)) ^^ n) os) \<and> mg_stopped m' \<and>
    mg_clientSocket m' = None \<and> mg_slept m' = mg_slept m + 5 * (n - 1) \<and> mg_waits m' = []"
  using try_connect_down [OF assms(3,1), of n os] assms(2,4)
  by (auto simp: connect_handler_def split: option.split)

theorem reconnect_gives_up_witness:
  "\<exists>m'. connect_handler (example_world False) 3 0 (example_mgr None [] []) = Inr (m', 3) \<and> mg_stopped m' \<and> mg_slept m' = 10"
  using reconnect_gives_up [of "example_mgr None [] []" "()" "example_world False" 3 0]
  by (auto simp: example_mgr_def example_world_def ClientSocketMgr_new_def numeral_3_eq_3)

text \<open>
  C20: packets handed to the manager reach the socket in order.  A round of \<open>Update\<close> over a
  socket that still runs moves every queued packet, in the order it was added, behind those
  the socket has queued itself, leaves the manager's queue empty and schedules the next round.
\<close>
theorem update_delivers_in_order:
  assumes "\<not> mg_stopped m" "mg_timer m" "mg_clientSocket m = Some s"
    and "ClientSocket_Update (w_write_some w) os s = Inr (True, s1, os1)"
  shows "\<exists>m' s'. Mgr_Update w os m = Inr (m', os1) \<and> mg_clientSocket m' = Some s' \<and>
    pq_queue (cs_bufferQueue s') = pq_queue (cs_bufferQueue s1) @ map copy_DiscordPacket (pq_queue (mg_bufferQueue m)) \<and>
    pq_queue (mg_bufferQueue m') = [] \<and> mg_waits m' = [RunUpdate]"
proof -
  let ?m = "m\<lparr>mg_ready := mg_ready m @ mg_waits m, mg_waits := [RunUpdate], mg_clientSocket := Some s1\<rparr>"
  have "Mgr_Update w os m = Inr (if IsEmpty (mg_bufferQueue m) then ?m else deliver ?m, os1)"
    using assms by (simp add: Mgr_Update_def mgr_defs)
  then show ?thesis
    using deliver_client [of ?m s1, OF _ refl refl] by (auto simp: IsEmpty_def)
qed

theorem update_delivers_in_order_witness:
  "\<exists>m' s'. Mgr_Update (example_world True) 9
      ((example_mgr (Some witness_client) [] [])
         \<lparr>mg_bufferQueue := AddPacket (DiscordPacket CLIENT_SEND_HELLO 1) PacketQueue_new\<rparr>) = Inr (m', 9) \<and>
    mg_clientSocket m' = Some s' \<and> pq_queue (cs_bufferQueue s') = [copy_DiscordPacket (DiscordPacket CLIENT_SEND_HELLO 1)]"
  using update_delivers_in_order [of "(example_mgr (Some witness_client) [] [])
      \<lparr>mg_bufferQueue := AddPacket (DiscordPacket CLIENT_SEND_HELLO 1) PacketQueue_new\<rparr>" witness_client
      "example_world True" 9 witness_client 9]
  by (auto simp: example_mgr_def example_world_def ClientSocketMgr_new_def example_socket_update AddPacket_def
      PacketQueue_new_def witness_client_fields)

text \<open>
  Two chains of \<open>Update\<close> never let the I/O context rest.  With one handler the round ends
  with nothing ready until the millisecond is over.  With two, each round's new expiry
  cancels the other's wait, and the cancelled handler, which ignores the error, is ready at
  once: as long as the connection lives, after any number of rounds a handler is ready.
\<close>
theorem two_update_chains_never_wait:
  assumes "list_all (\<lambda>t. t = RunUpdate) (mg_ready m @ mg_waits m)" "2 \<le> length (mg_ready m @ mg_waits m)"
    and "mg_ready m \<noteq> []" "\<not> mg_stopped m" "run_n w k os m = Inr (m', os')"
    and "\<forall>j\<le>k. \<forall>m1 os1. run_n w j os m = Inr (m1, os1) \<longrightarrow> mg_clientSocket m1 \<noteq> None"
  shows "mg_ready m' \<noteq> [] \<and> length (mg_ready m' @ mg_waits m') = length (mg_ready m @ mg_waits m)"
  using assms
proof (induction k arbitrary: m os)
  case (Suc k)
  from Suc.prems(1,3) obtain rest where rest: "mg_ready m = RunUpdate # rest" by (cases "mg_ready m") auto
  from Suc.prems(5) obtain m1 os1 where s1: "run_next w os m = Inr (m1, os1)" "run_n w k os1 m1 = Inr (m', os')"
    by (auto simp: rbind_eq_Inr)
  have live: "mg_clientSocket m1 \<noteq> None" using Suc.prems(6) [rule_format, of 1 m1 os1] s1(1) by simp
  have u: "Mgr_Update w os (m\<lparr>mg_ready := rest\<rparr>) = Inr (m1, os1)" using s1(1) rest by (simp add: run_next_def)
  have t: "mg_ready m1 = rest @ mg_waits m" "mg_waits m1 = [RunUpdate]" "\<not> mg_stopped m1"
    using Mgr_Update_tasks [OF u] Suc.prems(4) live by simp_all
  have "\<forall>j\<le>k. \<forall>m2 os2. run_n w j os1 m1 = Inr (m2, os2) \<longrightarrow> mg_clientSocket m2 \<noteq> None"
    using Suc.prems(6) [rule_format, of "Suc _"] s1(1) by simp
  moreover have "mg_ready m1 \<noteq> []" using Suc.prems(2) rest t(1) by (cases rest) auto
  moreover have "list_all (\<lambda>t. t = RunUpdate) (mg_ready m1 @ mg_waits m1)" using Suc.prems(1) rest t(1,2) by simp
  moreover have len: "length (mg_ready m1 @ mg_waits m1) = length (mg_ready m @ mg_waits m)" using rest t(1,2) by simp
  ultimately show ?case using Suc.IH [OF _ _ _ t(3) s1(2)] Suc.prems(2) by (simp only: len simp_thms)
qed simp

theorem two_update_chains_never_wait_witness:
  "\<exists>m'. run_n (example_world True) 1000 0 (example_mgr (Some witness_client) [RunUpdate] [RunUpdate]) = Inr (m', 0) \<and>
    mg_ready m' \<noteq> []"
  using two_update_chains_never_wait [OF _ _ _ _ example_two_chains [of 1000 0]]
  by (simp add: example_two_chains) (simp add: example_mgr_def ClientSocketMgr_new_def)

text \<open>
  Every reconnect starts such a second chain.  When \<open>Update\<close> finds the socket closed it
  has already scheduled itself again; the connect handler it starts schedules \<open>Update\<close> once
  more when the connection is made.  Three rounds later one \<open>Update\<close> is ready and another waits.
\<close>
theorem reconnect_starts_second_chain:
  assumes "\<not> mg_stopped m" "mg_timer m" "mg_ready m = [RunUpdate]" "mg_waits m = []"
    and "mg_clientSocket m = Some s" "sk_closed s" "mg_address m = Some a"
    and "w_connect w a os = (True, os1)"
    and "w_accountName w \<noteq> []" "w_accountKey w \<noteq> []" "w_serverID w \<noteq> 0"
    and "length (w_accountName w) + length (w_accountKey w) + length (w_company w) + length (w_version w) \<le> 100000"
  shows "\<exists>m' s'. run_n w 3 os m = Inr (m', os1) \<and> mg_clientSocket m' = Some s' \<and> IsOpen s' \<and>
    mg_ready m' = [RunUpdate] \<and> mg_waits m' = [RunUpdate] \<and> \<not> mg_stopped m'"
proof -
  obtain s1 where s1: "ClientSocket_Update (w_write_some w) os s = Inr (False, s1, os)"
    using ClientSocket_Update_closed [OF assms(6), of "w_write_some w" os] by blast
  let ?m1 = "m\<lparr>mg_ready := [RunUpdate], mg_waits := [RunConnect 3], mg_clientSocket := None,
    mg_released := mg_released m @ [CloseSocket s1]\<rparr>"
  let ?m2 = "?m1\<lparr>mg_ready := [RunConnect 3], mg_waits := [RunUpdate]\<rparr>"
  have r1: "run_next w os m = Inr (?m1, os)"
    using assms(1-5) s1 by (simp add: run_next_def Mgr_Update_def mgr_defs)
  have r2: "run_next w os ?m1 = Inr (?m2, os)"
    using assms(1,2) by (simp add: run_next_def Mgr_Update_def mgr_defs)
  obtain s' where "IsOpen s'" "connected w os1 (?m2\<lparr>mg_ready := []\<rparr>) =
      Inr (?m2\<lparr>mg_clientSocket := Some s', mg_ready := [RunUpdate], mg_waits := [RunUpdate]\<rparr>)"
    using connected_ok [OF assms(9-11) _ _ assms(12), of "?m2\<lparr>mg_ready := []\<rparr>" os1] assms(2) by auto
  then have r3: "run_next w os ?m2 =
      Inr (?m2\<lparr>mg_clientSocket := Some s', mg_ready := [RunUpdate], mg_waits := [RunUpdate]\<rparr>, os1)"
    using assms(7,8) by (simp add: run_next_def connect_handler_def numeral_3_eq_3)
  show ?thesis using r1 r2 r3 \<open>IsOpen s'\<close> assms(1) by (simp add: numeral_3_eq_3)
qed

theorem reconnect_starts_second_chain_witness:
  "\<exists>m' s'. run_n (example_world True) 3 0 (example_mgr (Some (CloseSocket witness_client)) [] [RunUpdate]) = Inr (m', 1) \<and>
    mg_clientSocket m' = Some s' \<and> IsOpen s' \<and> mg_ready m' = [RunUpdate] \<and> mg_waits m' = [RunUpdate]"
  using reconnect_starts_second_chain [of "example_mgr (Some (CloseSocket witness_client)) [] [RunUpdate]"
      "CloseSocket witness_client" "()" "example_world True" 0 1]
  by (auto simp: example_mgr_def example_world_def ClientSocketMgr_new_def)

text \<open>
  A disabled client dereferences a null pointer when it stops.  With
  \<open>Discord.Server.Enable\<close> off \<open>Initialize\<close> returns before it makes the timer, and the
  \<open>Disconnect\<close> at the end of \<open>main\<close> cancels it; in every other case stopping succeeds and
  leaves no socket behind, open or not.
\<close>
theorem shutdown_after_initialize:
  "case rbind (Mgr_Initialize enabled resolved ClientSocketMgr_new) Mgr_Disconnect of
     Inl err \<Rightarrow> \<not> enabled \<and> err = UndefinedBehaviour
   | Inr m \<Rightarrow> enabled \<and> mg_stopped m \<and> mg_clientSocket m = None"
  by (auto simp: Mgr_Initialize_def ClientSocketMgr_new_def mgr_defs split: option.split)

end
