(* ===== verification/ClientSafety.thy ===== *)
theory ClientSafety
  imports ClientSocketMgr
begin

text \<open>
  An invariant of the client's connection and of its manager that every handler keeps, and
  under which no handler fails but by the exceptions of a packet that does not parse:
  the queued messages are well formed, the packets other threads queued are of a size that
  exists, and an open connection that has asked for a read is waiting in the sense of the
  reader's refinement.
\<close>

section \<open>The invariant\<close>

definition packets_ok :: "discord_packet packet_queue \<Rightarrow> bool" where
  "packets_ok q \<longleftrightarrow> list_all (\<lambda>p. bb_size (pk_buffer p) < 2 ^ 62) (pq_queue q)"

definition as_conn :: "client_socket \<Rightarrow> conn" where
  "as_conn s = \<lparr>cn_socket = s, cn_attached = True, cn_stopped = False\<rparr>"

definition client_ok :: "endian \<Rightarrow> client_socket \<Rightarrow> bool" where
  "client_ok e s \<longleftrightarrow> queue_ok s \<and> packets_ok (cs_bufferQueue s) \<and>
     (IsOpen s \<and> sk_pendingRead s \<noteq> None \<longrightarrow> listening e (as_conn s))"

definition mgr_ok :: "endian \<Rightarrow> 'a mgr \<Rightarrow> bool" where
  "mgr_ok e m \<longleftrightarrow> mg_timer m \<and> packets_ok (mg_bufferQueue m) \<and>
     (case mg_clientSocket m of None \<Rightarrow> True | Some s \<Rightarrow> client_ok e s)"

text \<open>Whether a connection waits depends on its socket only, and on these parts of it.\<close>

definition same_reader :: "client_socket \<Rightarrow> client_socket \<Rightarrow> bool" where
  "same_reader s s' \<longleftrightarrow> sk_readBuffer s' = sk_readBuffer s \<and> sk_pendingRead s' = sk_pendingRead s \<and>
     cs_headerBuffer s' = cs_headerBuffer s \<and> cs_packetBuffer s' = cs_packetBuffer s \<and> (IsOpen s' \<longrightarrow> IsOpen s)"

lemma listening_cong:
  assumes "listening e c" "same_reader (cn_socket c) (cn_socket c')" "IsOpen (cn_socket c')"
  shows "listening e c'"
  using assms by (simp add: listening_def same_reader_def bufs_def)

lemma same_reader_refl [simp]: "same_reader s s"
  by (simp add: same_reader_def)

lemma same_reader_trans: "same_reader s s' \<Longrightarrow> same_reader s' s'' \<Longrightarrow> same_reader s s''"
  by (simp add: same_reader_def)

lemma client_ok_same:
  assumes "client_ok e s" "same_reader s s'" "queue_ok s'" "packets_ok (cs_bufferQueue s')"
  shows "client_ok e s'"
proof -
  have "listening e (as_conn s')" if "IsOpen s'" "sk_pendingRead s' \<noteq> None"
  proof (rule listening_cong [of e "as_conn s"])
    have "IsOpen s" "sk_pendingRead s \<noteq> None" using that assms(2) by (simp_all add: same_reader_def)
    with assms(1) show "listening e (as_conn s)" by (simp add: client_ok_def)
  qed (use assms(2) that in \<open>simp_all add: as_conn_def\<close>)
  with assms(3,4) show ?thesis by (simp add: client_ok_def)
qed

lemma client_ok_close: "client_ok e s \<Longrightarrow> client_ok e (CloseSocket s)"
  by (simp add: client_ok_def queue_ok_def) (simp add: CloseSocket_def)

lemma client_ok_add:
  assumes "client_ok e s" "bb_size (pk_buffer p) < 2 ^ 62"
  shows "client_ok e (ClientSocket_AddPacketToQueue p s)"
  using assms(1)
  by (rule client_ok_same)
    (use assms in \<open>simp_all add: client_ok_def ClientSocket_AddPacketToQueue_def same_reader_def IsOpen_def queue_ok_def
      packets_ok_def AddPacket_def copy_DiscordPacket_def\<close>)

section \<open>Writing\<close>

text \<open>What the writing half of the socket leaves alone, whatever the class that extends it.\<close>

definition writes_only :: "'x socket_scheme \<Rightarrow> 'x socket_scheme \<Rightarrow> bool" where
  "writes_only s s' \<longleftrightarrow> sk_readBuffer s' = sk_readBuffer s \<and> sk_pendingRead s' = sk_pendingRead s \<and>
     socket.more s' = socket.more s \<and> sk_closing s' = sk_closing s \<and> (sk_closed s \<longrightarrow> sk_closed s')"

lemma writes_only_refl [simp]: "writes_only s s"
  by (simp add: writes_only_def)

lemma writes_only_trans: "writes_only s s' \<Longrightarrow> writes_only s' s'' \<Longrightarrow> writes_only s s''"
  by (simp add: writes_only_def)

lemma writes_only_pop: "writes_only s s' \<Longrightarrow> writes_only s (pop_front s')"
  by (simp add: writes_only_def pop_front_def CloseSocket_def Let_def)

lemma writes_only_reader:
  assumes "writes_only s s'"
  shows "same_reader s s'" "cs_bufferQueue s' = cs_bufferQueue s"
  using assms by (cases s; cases s'; auto simp: writes_only_def same_reader_def IsOpen_def)+

lemma HandleQueue_safe:
  assumes q: "queue_ok s" and w: "write_ok write_some"
  shows "\<exists>r s' os'. HandleQueue write_some os s = Inr (r, s', os') \<and> queue_ok s' \<and> writes_only s s'"
proof (cases "sk_writeQueue s")
  case Nil
  with q show ?thesis by (auto simp: HandleQueue_def)
next
  case (Cons m rest)
  have m: "mb_inv m" "list_all mb_inv rest" using q Cons by (simp_all add: queue_ok_def)
  note rd = mem_read_active [OF m(1)]
  obtain res os' where res: "write_some os (active m) = (res, os')" by (cases "write_some os (active m)")
  have pop: "queue_ok (pop_front t) \<and> writes_only s (pop_front t)"
    if "writes_only s t" "sk_writeQueue t = sk_writeQueue s" for t
    using that m Cons by (simp add: queue_ok_def writes_only_pop)
  have async: "queue_ok t' \<and> writes_only s t'"
    if "AsyncProcessQueue t = (r, t')" "queue_ok t" "writes_only s t" for t r t'
    using that by (auto simp: AsyncProcessQueue_def queue_ok_def writes_only_def split: if_splits)
  show ?thesis
  proof (cases res)
    case WriteError
    with rd res Cons pop [of "s\<lparr>sk_dropped := sk_dropped s @ [m]\<rparr>"] show ?thesis
      by (auto simp: HandleQueue_def Let_def writes_only_def)
  next
    case WouldBlock
    with rd res Cons async [of s] q show ?thesis
      by (cases "AsyncProcessQueue s") (simp add: HandleQueue_def Let_def)
  next
    case (Sent k)
    with res w have k: "k \<le> GetActiveSize m" by (auto simp: write_ok_def GetActiveSize_active [OF m(1)] simp del: length_active)
    let ?t = "s\<lparr>sk_sent := sk_sent s @ take k (active m)\<rparr>"
    let ?u = "?t\<lparr>sk_writeQueue := ReadCompleted k m # rest\<rparr>"
    have u: "queue_ok ?u" "writes_only s ?u"
      using m ReadCompleted_ok [OF m(1) k] by (simp_all add: queue_ok_def writes_only_def)
    have t: "queue_ok (pop_front ?t)" "writes_only s (pop_front ?t)"
      using pop [of ?t] by (simp_all add: writes_only_def)
    obtain r u' where a: "AsyncProcessQueue ?u = (r, u')" by (cases "AsyncProcessQueue ?u")
    have "HandleQueue write_some os s = Inr (if k = 0 then (False, pop_front ?t, os')
        else if k < GetActiveSize m then (r, u', os') else (sk_writeQueue (pop_front ?t) \<noteq> [], pop_front ?t, os'))"
      using rd res Sent Cons a by (simp add: HandleQueue_def Let_def)
    with t async [OF a u] show ?thesis by (auto split: if_splits)
  qed
qed

lemma flush_safe:
  assumes "write_ok write_some"
  shows "queue_ok s \<Longrightarrow> \<exists>s' os'. flush write_some os s = Inr (s', os') \<and> queue_ok s' \<and> writes_only s s'"
proof (induction "length (sk_writeQueue s)" arbitrary: s os rule: less_induct)
  case less
  from HandleQueue_safe [OF less(2) assms, of os] obtain r s1 os1 where
    h: "HandleQueue write_some os s = Inr (r, s1, os1)" "queue_ok s1" "writes_only s s1" by blast
  show ?case
  proof (cases r)
    case True
    with HandleQueue_pops [of write_some os s s1 os1] h(1)
    have "length (sk_writeQueue s1) < length (sk_writeQueue s)" by simp
    from less(1) [OF this h(2), of os1] h True show ?thesis
      by (auto simp: flush.simps [of write_some os s] intro: writes_only_trans)
  next
    case False
    with h show ?thesis by (simp add: flush.simps [of write_some os s])
  qed
qed

lemma Socket_Update_safe:
  assumes "queue_ok s" "write_ok write_some"
  shows "\<exists>r s' os'. Socket_Update write_some os s = Inr (r, s', os') \<and> queue_ok s' \<and> writes_only s s'"
  using flush_safe [OF assms(2,1), of os] assms(1) by (auto simp: Socket_Update_def)

lemma WriteHandlerWrapper_safe:
  assumes "client_ok e s" "write_ok write_some"
  shows "\<exists>s' os'. WriteHandlerWrapper write_some os s = Inr (s', os') \<and> client_ok e s'"
proof -
  let ?s = "s\<lparr>sk_isWritingAsync := False, sk_pendingWrite := False\<rparr>"
  have "queue_ok ?s" using assms(1) by (simp add: client_ok_def queue_ok_def)
  from HandleQueue_safe [OF this assms(2), of os] obtain r s' os' where
    h: "HandleQueue write_some os ?s = Inr (r, s', os')" "queue_ok s'" "writes_only ?s s'" by blast
  have "writes_only s s'" using h(3) by (simp add: writes_only_def)
  from client_ok_same [OF assms(1) writes_only_reader(1) [OF this] h(2)] writes_only_reader(2) [OF this] assms(1)
  have "client_ok e s'" by (simp add: client_ok_def)
  with h(1) show ?thesis by (simp add: WriteHandlerWrapper_def)
qed

lemma send_queued_safe:
  assumes "queue_ok s" "packets_ok (cs_bufferQueue s)"
  shows "\<exists>s'. send_queued s = Inr s' \<and> queue_ok s' \<and> same_reader s s' \<and> packets_ok (cs_bufferQueue s')"
proof (cases "IsOpen s")
  case True
  from send_queued_ok [OF True] assms(2) obtain msgs where
    "send_queued s = Inr (s\<lparr>sk_writeQueue := sk_writeQueue s @ msgs,
        cs_bufferQueue := (cs_bufferQueue s)\<lparr>pq_queue := []\<rparr>\<rparr>)" "list_all mb_inv msgs"
    by (auto simp: packets_ok_def)
  with assms show ?thesis by (simp add: queue_ok_def packets_ok_def same_reader_def IsOpen_def)
next
  case False
  with assms show ?thesis
  proof (induction s rule: send_queued.induct)
    case (1 s)
    show ?case
    proof (cases "GetNextPacket (cs_bufferQueue s)")
      case None
      with 1 show ?thesis by (simp add: send_queued.simps [of s])
    next
      case (Some pq)
      obtain p q where pq: "pq = (p, q)" by (cases pq)
      let ?s = "s\<lparr>cs_bufferQueue := q\<rparr>"
      have "\<not> IsOpen ?s" using 1(4) by (simp add: IsOpen_def)
      note send = SendPacket_closed [OF this, of p]
      have "packets_ok q"
        using 1(3) Some pq by (auto simp: packets_ok_def GetNextPacket_def split: list.splits)
      then obtain s' where "send_queued ?s = Inr s'" "queue_ok s'" "same_reader ?s s'" "packets_ok (cs_bufferQueue s')"
        using 1(1) [OF Some pq [symmetric] send] 1(2,4) by (auto simp: queue_ok_def IsOpen_def)
      moreover from this(3) have "same_reader s s'" by (simp add: same_reader_def IsOpen_def)
      ultimately show ?thesis using Some pq send by (simp add: send_queued.simps [of s])
    qed
  qed
qed

lemma ClientSocket_Update_safe:
  assumes "client_ok e s" "write_ok write_some"
  shows "\<exists>r s' os'. ClientSocket_Update write_some os s = Inr (r, s', os') \<and> client_ok e s'"
proof -
  have q: "queue_ok s" "packets_ok (cs_bufferQueue s)" using assms(1) by (simp_all add: client_ok_def)
  obtain s1 where s1: "(if cs_authed s then send_queued s else Inr s) = Inr s1" "queue_ok s1" "same_reader s s1"
    "packets_ok (cs_bufferQueue s1)" using send_queued_safe [OF q] q by (cases "cs_authed s") auto
  from Socket_Update_safe [OF s1(2) assms(2), of os] obtain r s2 os' where
    s2: "Socket_Update write_some os s1 = Inr (r, s2, os')" "queue_ok s2" "writes_only s1 s2" by blast
  have "same_reader s s2" using same_reader_trans [OF s1(3) writes_only_reader(1) [OF s2(3)]] .
  from client_ok_same [OF assms(1) this s2(2)] writes_only_reader(2) [OF s2(3)] s1(4)
  have "client_ok e s2" by simp
  with s1(1) s2(1) show ?thesis by (simp add: ClientSocket_Update_def)
qed

section \<open>Reading\<close>

text \<open>The handlers keep the queues.\<close>

definition queues_ok :: "conn \<Rightarrow> bool" where
  "queues_ok c \<longleftrightarrow> queue_ok (cn_socket c) \<and> packets_ok (cs_bufferQueue (cn_socket c))"

lemma queues_ok_close: "queues_ok c \<Longrightarrow> queues_ok (on_socket CloseSocket c)"
  by (simp add: queues_ok_def on_socket_def queue_ok_def) (simp add: CloseSocket_def)

lemma queues_ok_Disconnect: "queues_ok c \<Longrightarrow> queues_ok (Disconnect c)"
  by (simp add: queues_ok_def Disconnect_def Let_def on_socket_def queue_ok_def) (simp add: CloseSocket_def)

lemma dispatch_queues:
  assumes "dispatch e now op p c = Inr (k, c')" "queues_ok c"
  shows "queues_ok c'"
  using assms(1)
proof (cases rule: dispatch_cases)
  case 3
  from 3(4) show ?thesis
  proof (cases rule: HandleAuthResponce_cases)
    case (2 s')
    let ?s = "(cn_socket c)\<lparr>cs_authed := True\<rparr>"
    have "s' = ?s \<or> (\<exists>msgs. s' = ?s\<lparr>sk_writeQueue := sk_writeQueue ?s @ msgs\<rparr> \<and> list_all mb_inv msgs)"
      using 2(1) SendPingMessage_ok [of ?s e now] SendPingMessage_closed [of ?s e now] by (cases "IsOpen ?s") auto
    with 2(2) assms(2) show ?thesis by (auto simp: queues_ok_def queue_ok_def)
  qed (use assms(2) in \<open>simp add: queues_ok_Disconnect\<close>)
next
  case 4
  from 4(4) assms(2) show ?thesis
    by (cases rule: HandlePong_cases) (simp add: queues_ok_def on_socket_def queue_ok_def)
qed (use assms(2) in \<open>simp_all add: queues_ok_Disconnect\<close>)

lemma spec_run_queues:
  assumes "spec_run e now bs c = Inr (again, rest, c')" "queues_ok c"
  shows "queues_ok c'"
  using assms
proof (induction e now bs c rule: spec_run.induct)
  case (1 e now bs c)
  show ?case
  proof (cases "parse_frame bs")
    case (Packet op body rest')
    with 1(2) obtain k c1 where d: "dispatch e now op (wire_packet op body) c = Inr (k, c1)"
      by (cases "dispatch e now op (wire_packet op body) c") (auto simp: spec_run.simps [of e now bs c])
    note q = dispatch_queues [OF d 1(3)]
    show ?thesis
    proof (cases "k = ReadOk")
      case True
      with 1 Packet d q show ?thesis by (simp add: spec_run.simps [of e now bs c])
    next
      case False
      with 1(2) Packet d q queues_ok_close [OF q] show ?thesis
        by (auto simp: spec_run.simps [of e now bs c] split: if_splits)
    qed
  qed (use 1(2,3) queues_ok_close [OF 1(3)] in \<open>auto simp: spec_run.simps [of e now bs c]\<close>)
qed

text \<open>A read completes: the reader ends, with the exception of a handler or in a good state.\<close>

lemma receive_safe:
  assumes ok: "client_ok e s" and s: "IsOpen s" "sk_pendingRead s = Some x" and d: "length d \<le> READ_BLOCK_SIZE"
    and c: "cn_socket c = s"
  shows "\<exists>r. receive e now d c = Some r \<and>
    (case r of Inl err \<Rightarrow> handler_error err | Inr c' \<Rightarrow> client_ok e (cn_socket c'))"
proof -
  have "listening e (as_conn s)" using ok s unfolding client_ok_def by blast
  from listening_cong [OF this, of c] have l: "listening e c" by (simp add: as_conn_def c s(1))
  have q: "queues_ok (set_read None c)"
    using ok c by (simp add: client_ok_def queues_ok_def set_read_def on_socket_def queue_ok_def)
  from receive_ok [OF l d, of now] obtain r where r: "receive e now d c = Some r" and
    sp: "case spec_run e now (pending e (bufs c) @ d) (set_read None c) of
       Inl err \<Rightarrow> r = Inl err
     | Inr (again, rest, c') \<Rightarrow>
         \<exists>rd. (if again \<and> IsOpen (cn_socket c')
                then r = Inr (set_read (Some (0, READ_BLOCK_SIZE)) (set_bufs rd c')) \<and>
                  listening e (set_read (Some (0, READ_BLOCK_SIZE)) (set_bufs rd c')) \<and> pending e rd = rest
                else r = Inr (set_bufs rd c'))" by blast
  show ?thesis
  proof (cases "spec_run e now (pending e (bufs c) @ d) (set_read None c)")
    case (Inl err)
    with r sp spec_run_error [OF Inl] show ?thesis by simp
  next
    case (Inr t)
    obtain again rest c1 where "t = (again, rest, c1)" by (cases t) auto
    with Inr have run: "spec_run e now (pending e (bufs c) @ d) (set_read None c) = Inr (again, rest, c1)" by simp
    have q1: "queues_ok c1" and none: "sk_pendingRead (cn_socket c1) = None"
      using spec_run_queues [OF run q] spec_run_kept [OF run] by simp_all
    have fields: "queue_ok (cn_socket (set_read x (set_bufs rd c1)))"
      "packets_ok (cs_bufferQueue (cn_socket (set_read x (set_bufs rd c1))))"
      "queue_ok (cn_socket (set_bufs rd c1))" "packets_ok (cs_bufferQueue (cn_socket (set_bufs rd c1)))"
      "sk_pendingRead (cn_socket (set_bufs rd c1)) = None" for x rd
      using q1 none by (simp_all add: queues_ok_def set_read_def on_socket_def set_bufs_def sock_bufs_def queue_ok_def
          split: prod.split)
    have good: "client_ok e (cn_socket c')" if "listening e c'" "queue_ok (cn_socket c')"
      "packets_ok (cs_bufferQueue (cn_socket c'))" for c'
    proof -
      have "IsOpen (cn_socket c')" using that(1) by (simp add: listening_def)
      with that listening_cong [OF that(1), of "as_conn (cn_socket c')"] show ?thesis
        by (simp add: client_ok_def as_conn_def)
    qed
    from sp run obtain rd where "if again \<and> IsOpen (cn_socket c1)
        then r = Inr (set_read (Some (0, READ_BLOCK_SIZE)) (set_bufs rd c1)) \<and>
          listening e (set_read (Some (0, READ_BLOCK_SIZE)) (set_bufs rd c1)) \<and> pending e rd = rest
        else r = Inr (set_bufs rd c1)" by auto
    then consider "r = Inr (set_read (Some (0, READ_BLOCK_SIZE)) (set_bufs rd c1))"
        "listening e (set_read (Some (0, READ_BLOCK_SIZE)) (set_bufs rd c1))"
      | "r = Inr (set_bufs rd c1)" by meson
    then show ?thesis
    proof cases
      case 1
      from r good [OF 1(2) fields(1,2)] show ?thesis unfolding 1(1) by simp
    next
      case 2
      have "client_ok e (cn_socket (set_bufs rd c1))" 
        unfolding client_ok_def by (intro conjI fields) (simp only: fields simp_thms)
      with r show ?thesis unfolding 2 by simp
    qed
  qed
qed

section \<open>The manager\<close>

lemma mgr_okD:
  assumes "mgr_ok e m"
  shows "mg_timer m" "packets_ok (mg_bufferQueue m)" "mg_clientSocket m = Some s \<Longrightarrow> client_ok e s"
  using assms by (auto simp: mgr_ok_def)

lemma release_socket_ok: "mgr_ok e m \<Longrightarrow> mgr_ok e (release_socket m)"
  by (simp add: mgr_ok_def release_socket_def split: option.split)

lemma Mgr_Disconnect_safe:
  assumes "mgr_ok e m"
  shows "\<exists>m'. Mgr_Disconnect m = Inr m' \<and> mgr_ok e m'"
  using Mgr_Disconnect_ok [OF mgr_okD(1) [OF assms]] mgr_okD(2) [OF assms] by (auto simp: mgr_ok_def)

lemma ConnectToServer_safe:
  assumes "mgr_ok e m"
  shows "\<exists>m'. ConnectToServer n m = Inr m' \<and> mgr_ok e m'"
  using assms by (simp add: mgr_defs mgr_ok_def)

lemma deliver_safe: "mgr_ok e m \<Longrightarrow> mgr_ok e (deliver m)"
proof (induction m rule: deliver.induct)
  case (1 m)
  show ?case
  proof (cases "GetNextPacket (mg_bufferQueue m)")
    case None
    with 1(2) show ?thesis by (simp add: deliver.simps [of m])
  next
    case (Some pq)
    obtain p q where pq: "pq = (p, q)" by (cases pq)
    then have p: "bb_size (pk_buffer p) < 2 ^ 62" "packets_ok q"
      using Some mgr_okD(2) [OF 1(2)] by (auto simp: packets_ok_def GetNextPacket_def split: list.splits)
    have "mgr_ok e (Mgr_SendPacket p (m\<lparr>mg_bufferQueue := q\<rparr>))"
      using 1(2) p client_ok_add [OF _ p(1)] by (auto simp: mgr_ok_def Mgr_SendPacket_def split: option.splits)
    from 1(1) [OF Some pq [symmetric] this] Some pq show ?thesis by (simp add: deliver.simps [of m])
  qed
qed

lemma Mgr_Update_safe:
  assumes ok: "mgr_ok e m" and w: "write_ok (w_write_some w)"
  shows "\<exists>m' os'. Mgr_Update w os m = Inr (m', os') \<and> mgr_ok e m'"
proof (cases "mg_stopped m")
  case True
  with ok show ?thesis by (simp add: Mgr_Update_def)
next
  case False
  let ?m = "m\<lparr>mg_ready := mg_ready m @ mg_waits m, mg_waits := [RunUpdate]\<rparr>"
  have up: "Mgr_Update w os m =
      (case mg_clientSocket m of
         None \<Rightarrow> Inr (?m, os)
       | Some s \<Rightarrow>
           rbind (ClientSocket_Update (w_write_some w) os s) (\<lambda>(running, s, os).
             if \<not> running then
               rbind (ConnectToServer 3 (release_socket (?m\<lparr>mg_clientSocket := Some (CloseSocket s)\<rparr>))) (\<lambda>m. Inr (m, os))
             else let m = ?m\<lparr>mg_clientSocket := Some s\<rparr>
               in Inr (if IsEmpty (mg_bufferQueue m) then m else deliver m, os)))"
    using False mgr_okD(1) [OF ok]
    by (simp add: Mgr_Update_def timer_expires_from_now_def timer_cancel_def timer_async_wait_def)
  show ?thesis
  proof (cases "mg_clientSocket m")
    case None
    with up ok show ?thesis by (simp add: mgr_ok_def)
  next
    case (Some s)
    from ClientSocket_Update_safe [OF mgr_okD(3) [OF ok Some] w, of os] obtain r s' os' where
      u: "ClientSocket_Update (w_write_some w) os s = Inr (r, s', os')" "client_ok e s'" by blast
    have "mgr_ok e (?m\<lparr>mg_clientSocket := Some (CloseSocket s')\<rparr>)" "mgr_ok e (?m\<lparr>mg_clientSocket := Some s'\<rparr>)"
      using mgr_okD(1,2) [OF ok] u(2) by (simp_all add: mgr_ok_def client_ok_close)
    with up Some u(1) ConnectToServer_safe [OF release_socket_ok, of e "?m\<lparr>mg_clientSocket := Some (CloseSocket s')\<rparr>" 3]
      deliver_safe [of e "?m\<lparr>mg_clientSocket := Some s'\<rparr>"]
    show ?thesis by (cases r) (auto simp: Let_def)
  qed
qed

text \<open>The strings of the authentication request fit into a packet.\<close>

definition strings_fit :: "('a, 'os) world \<Rightarrow> bool" where
  "strings_fit w \<longleftrightarrow>
     length (w_accountName w) + length (w_accountKey w) + length (w_company w) + length (w_version w) \<le> 100000"

lemma AsyncRead_queues:
  assumes "AsyncRead s = Inr s'"
  shows "sk_writeQueue s' = sk_writeQueue s" "cs_bufferQueue s' = cs_bufferQueue s"
  using assms by (auto simp: AsyncRead_def rbind_eq_Inr Let_def split: if_splits)

lemma Start_safe:
  fixes w :: "('a, 'os) world"
  assumes "strings_fit w"
    and c: "c = ClientSocket_new (w_accountName w) (w_accountKey w) (w_serverID w)"
  shows "\<exists>s. Start (w_endian w) now (w_company w) (w_version w) (cn_socket c) = Inr s \<and> client_ok (w_endian w) s"
proof (cases "w_accountName w \<noteq> [] \<and> w_accountKey w \<noteq> [] \<and> w_serverID w \<noteq> 0")
  case True
  let ?s = "cn_socket c" and ?e = "w_endian w"
  let ?vs = "[VString (w_accountName w), VString (w_accountKey w), VString (w_company w), VString (w_version w),
    VU32 100000, VI64 (cs_serverID ?s)]"
  have open': "IsOpen ?s" "cs_accountName ?s = w_accountName w" "cs_accountKey ?s = w_accountKey w"
    using True new_state [of "w_accountName w" "w_accountKey w" "w_serverID w"] by (simp_all add: c)
  have len: "length (concat (map value_bytes ?vs)) \<le> 10000000"
    using assms(1) by (simp add: strings_fit_def)
  from send_composed [OF open'(1) len, of ?e CLIENT_AUTH_SESSION 1] obtain msgs where
    m: "rbind (put_all (put_value ?e) ?vs (pk_buffer (DiscordPacket CLIENT_AUTH_SESSION 1)))
        (\<lambda>b. SendPacket ((DiscordPacket CLIENT_AUTH_SESSION 1)\<lparr>pk_buffer := b\<rparr>) ?s) =
        Inr (?s\<lparr>sk_writeQueue := sk_writeQueue ?s @ msgs\<rparr>)" "list_all mb_inv msgs" by blast
  let ?t = "?s\<lparr>sk_writeQueue := sk_writeQueue ?s @ msgs, cs_startTime := now\<rparr>"
  have st: "Start ?e now (w_company w) (w_version w) ?s = AsyncRead ?t"
    using m(1) unfolding Start_def SendAuthSession_def Let_def open'(2,3) WARHEAD_DISCORD_VERSION_def
    by (auto simp: rbind_eq_Inr simp del: put_all.simps)
  from connect_listening [of "w_accountName w" "w_accountKey w" "w_serverID w" "w_company w" "w_version w" ?e now]
    True assms(1) obtain c' where
    c': "connect ?e now (w_company w) (w_version w) (w_accountName w) (w_accountKey w) (w_serverID w) = Inr c'"
      "listening ?e c'" by (auto simp: strings_fit_def)
  then have start: "AsyncRead ?t = Inr (cn_socket c')"
    using st by (auto simp: connect_def on_socket_r_def rbind_eq_Inr c)
  note AsyncRead_queues [OF start]
  moreover have "sk_writeQueue ?s = []" "packets_ok (cs_bufferQueue ?s)"
    using True by (simp_all add: c ClientSocket_new_def Let_def on_socket_def Socket_new_def socket.defs packets_ok_def
        PacketQueue_new_def)
  moreover have "listening ?e (as_conn (cn_socket c'))"
    using c'(2) by (simp add: listening_def as_conn_def bufs_def)
  ultimately have "client_ok ?e (cn_socket c')"
    using m(2) by (simp add: client_ok_def queue_ok_def)
  with st start show ?thesis by simp
next
  case False
  let ?s = "cn_socket c" and ?e = "w_endian w"
  let ?vs = "[VString (cs_accountName ?s), VString (cs_accountKey ?s), VString (w_company w), VString (w_version w),
    VU32 (word_of_nat WARHEAD_DISCORD_VERSION), VI64 (cs_serverID ?s)]"
  have closed: "\<not> IsOpen ?s" "sk_writeQueue ?s = []" "pq_queue (cs_bufferQueue ?s) = []"
      "cs_accountName ?s = w_accountName w" "cs_accountKey ?s = w_accountKey w"
    using False by (auto simp: c ClientSocket_new_def Let_def on_socket_def Disconnect_def IsOpen_def CloseSocket_def
        Socket_new_def socket.defs PacketQueue_new_def)
  have "length (concat (map value_bytes ?vs)) \<le> 10000000"
    using assms(1) closed(4,5) by (simp add: strings_fit_def)
  from compose_packet [OF this, of ?e CLIENT_AUTH_SESSION 1] obtain b where
    "put_all (put_value ?e) ?vs (pk_buffer (DiscordPacket CLIENT_AUTH_SESSION 1)) = Inr b" by blast
  then have "Start ?e now (w_company w) (w_version w) ?s = AsyncRead (?s\<lparr>cs_startTime := now\<rparr>)"
    using closed(1) unfolding Start_def SendAuthSession_def Let_def by (simp add: SendPacket_closed del: put_all.simps)
  also have "\<dots> = Inr (?s\<lparr>cs_startTime := now\<rparr>)" using closed(1) by (simp add: AsyncRead_def IsOpen_def)
  finally show ?thesis
    using closed by (auto simp: client_ok_def queue_ok_def packets_ok_def IsOpen_def)
qed

lemma connected_safe:
  assumes ok: "mgr_ok (w_endian w) m" and fit: "strings_fit w"
  shows "\<exists>m'. connected w os m = Inr m' \<and> mgr_ok (w_endian w) m'"
proof -
  let ?c = "ClientSocket_new (w_accountName w) (w_accountKey w) (w_serverID w)"
  obtain m1 where m1: "(if cn_stopped ?c then Mgr_Disconnect m else Inr m) = Inr m1" "mgr_ok (w_endian w) m1"
    using Mgr_Disconnect_safe [OF ok] ok by (cases "cn_stopped ?c") auto
  obtain s where s: "Start (w_endian w) (w_now w os) (w_company w) (w_version w) (cn_socket ?c) = Inr s"
    "client_ok (w_endian w) s" using Start_safe [OF fit refl] by blast
  have "mgr_ok (w_endian w) ((release_socket m1)\<lparr>mg_clientSocket := Some s\<rparr>)"
    using release_socket_ok [OF m1(2)] s(2) by (simp add: mgr_ok_def)
  then show ?thesis
    unfolding connected_def Let_def m1(1) rbind_Inr s(1)
    by (simp add: timer_expires_from_now_def timer_cancel_def timer_async_wait_def mgr_ok_def)
qed

lemma try_connect_safe:
  assumes "mgr_ok (w_endian w) m" "strings_fit w"
  shows "\<exists>m' os'. try_connect w address n os m = Inr (m', os') \<and> mgr_ok (w_endian w) m'"
  using assms(1)
proof (induction n arbitrary: os m)
  case 0
  from Mgr_Disconnect_safe [OF this] show ?case by auto
next
  case (Suc k)
  obtain up os' where c: "w_connect w address os = (up, os')" by (cases "w_connect w address os")
  have "mgr_ok (w_endian w) (if 0 < k then m\<lparr>mg_slept := mg_slept m + 5\<rparr> else m)"
    using Suc.prems by (simp add: mgr_ok_def)
  from Suc.IH [OF this, of os'] connected_safe [OF Suc.prems assms(2), of os'] c show ?case
    by (cases up) auto
qed

lemma run_next_safe:
  assumes "mgr_ok (w_endian w) m" "strings_fit w" "write_ok (w_write_some w)"
  shows "\<exists>m' os'. run_next w os m = Inr (m', os') \<and> mgr_ok (w_endian w) m'"
proof -
  have ok: "mgr_ok (w_endian w) (m\<lparr>mg_ready := rest\<rparr>)" for rest using assms(1) by (simp add: mgr_ok_def)
  show ?thesis
    using Mgr_Update_safe [OF ok assms(3), of os] try_connect_safe [OF ok assms(2), of _ _ os] ok assms(1)
    by (auto simp: run_next_def connect_handler_def split: list.split timer_task.split option.split)
qed

lemma mgr_receive_safe:
  assumes ok: "mgr_ok (w_endian w) m" and s: "mg_clientSocket m = Some s" "IsOpen s" "sk_pendingRead s = Some x"
    and d: "length d \<le> READ_BLOCK_SIZE"
  shows "\<exists>r. mgr_receive w d os m = Some r \<and>
    (case r of Inl err \<Rightarrow> handler_error err | Inr m' \<Rightarrow> mgr_ok (w_endian w) m')"
proof -
  let ?c = "\<lparr>cn_socket = s, cn_attached = True, cn_stopped = mg_stopped m\<rparr>"
  from receive_safe [OF mgr_okD(3) [OF ok s(1)] s(2,3) d, of ?c "w_now w os"] obtain r where
    r: "receive (w_endian w) (w_now w os) d ?c = Some r"
      "case r of Inl err \<Rightarrow> handler_error err | Inr c' \<Rightarrow> client_ok (w_endian w) (cn_socket c')" by auto
  show ?thesis
  proof (cases r)
    case (Inl err)
    with r s(1) show ?thesis by (simp add: mgr_receive_def)
  next
    case (Inr c')
    with r have "mgr_ok (w_endian w) (m\<lparr>mg_clientSocket := Some (cn_socket c')\<rparr>)"
      using mgr_okD(1,2) [OF ok] by (simp add: mgr_ok_def)
    with Inr r(1) s(1) mgr_okD(1) [OF ok] show ?thesis
      by (auto simp: mgr_receive_def timer_cancel_def mgr_ok_def release_socket_def)
  qed
qed

end
