(* ===== verification/PocoLogging.thy ===== *)
theory PocoLogging
  imports Text
begin

text \<open>
  The part of the vendored Poco library the logging system is built from
  (\<^verbatim>\<open>deps/poco/Foundation/src\<close>): \<^verbatim>\<open>PatternFormatter.cpp\<close>, \<^verbatim>\<open>ConsoleChannel.cpp\<close>,
  \<^verbatim>\<open>FileChannel.cpp\<close> (its properties), \<^verbatim>\<open>FormattingChannel.cpp\<close>,
  \<^verbatim>\<open>SplitterChannel.cpp\<close> and \<^verbatim>\<open>Logger.cpp\<close>, on a system without the Windows console.

  A channel is a value: the program configures channels before it shares them and never
  changes them afterwards.  What logging does is a list of outputs, and possibly an exception
  that ended it; the outputs before the exception have happened.  Dates, the time zone and the
  node's name come from \<open>poco_env\<close>.  Rotating, archiving and purging the files is not part of
  the model: an output \<open>FileWrite\<close> is the call of \<open>LogFile::write\<close> in \<open>FileChannel::log\<close>.
\<close>

section \<open>Exceptions and properties\<close>

datatype poco_error =
    LengthError                    \<comment> \<open>\<open>std::length_error\<close>\<close>
  | InvalidArgument string string
  | PropertyNotSupported string string
  | SyntaxError
  | OutOfRangeError                \<comment> \<open>\<open>std::out_of_range\<close>\<close>
  | AssertionViolation
  | ExistsError
  | IntOverflow                    \<comment> \<open>signed overflow, which is undefined behaviour\<close>

text \<open>
  Setting a property either succeeds or throws, and what it had changed before throwing stays
  changed.  A sequence of settings in one \<open>try\<close> block stops at the first exception.
\<close>

type_synonym 'c setting = "'c \<times> poco_error option"

fun set_properties :: "(string \<Rightarrow> string \<Rightarrow> 'c \<Rightarrow> 'c setting) \<Rightarrow> (string \<times> string) list \<Rightarrow> 'c \<Rightarrow> 'c setting" where
  "set_properties setProperty [] c = (c, None)"
| "set_properties setProperty ((name, val) # ps) c =
     (case setProperty name val c of
        (c', None) \<Rightarrow> set_properties setProperty ps c'
      | (c', Some e) \<Rightarrow> (c', Some e))"

section \<open>Numbers\<close>

text \<open>\<open>strToInt\<close> of \<^verbatim>\<open>NumericString.h\<close> for \<open>int\<close>, base ten and the separator \<open>,\<close>.\<close>

fun strToInt_loop :: "nat \<Rightarrow> nat \<Rightarrow> string \<Rightarrow> nat option" where
  "strToInt_loop limitCheck res [] = Some res"
| "strToInt_loop limitCheck res (c # s) =
     (if limitCheck div 10 < res then None
      else if 48 \<le> code c \<and> code c \<le> 57 then
        (if limitCheck - res < code c - 48 then None
         else strToInt_loop limitCheck (res * 10 + (code c - 48)) s)
      else if c = CHR '','' then strToInt_loop limitCheck res s
      else None)"

definition strToInt :: "string \<Rightarrow> int option" where
  "strToInt str =
     (let s = dropWhile isspace (takeWhile (\<lambda>c. code c \<noteq> 0) str)
      in if s = [] then None
         else let negative = (hd s = CHR ''-'');
                  s = (if hd s = CHR ''-'' \<or> hd s = CHR ''+'' then tl s else s);
                  limitCheck = (if negative then 2 ^ 31 else 2 ^ 31 - 1)
              in case strToInt_loop limitCheck 0 s of
                   None \<Rightarrow> None
                 | Some n \<Rightarrow>
                     let i = (if negative then - int n else int n)
                     in if i < - (2 ^ 31) \<or> 2 ^ 31 \<le> i then None else Some i)"

definition format_int :: "int \<Rightarrow> string" where
  "format_int i = (if i < 0 then CHR ''-'' # nat_digits (nat (- i)) else nat_digits (nat i))"

definition format_width :: "char \<Rightarrow> nat \<Rightarrow> nat \<Rightarrow> string" where
  "format_width fill width n = replicate (width - length (nat_digits n)) fill @ nat_digits n"

section \<open>Messages\<close>

definition PRIO_FATAL :: nat where "PRIO_FATAL = 1"
definition PRIO_CRITICAL :: nat where "PRIO_CRITICAL = 2"
definition PRIO_ERROR :: nat where "PRIO_ERROR = 3"
definition PRIO_WARNING :: nat where "PRIO_WARNING = 4"
definition PRIO_NOTICE :: nat where "PRIO_NOTICE = 5"
definition PRIO_INFORMATION :: nat where "PRIO_INFORMATION = 6"
definition PRIO_DEBUG :: nat where "PRIO_DEBUG = 7"
definition PRIO_TRACE :: nat where "PRIO_TRACE = 8"

lemmas prio_defs = PRIO_FATAL_def PRIO_CRITICAL_def PRIO_ERROR_def PRIO_WARNING_def
  PRIO_NOTICE_def PRIO_INFORMATION_def PRIO_DEBUG_def PRIO_TRACE_def

record message =
  msg_source :: string
  msg_text :: string
  msg_prio :: nat
  msg_time :: int                             \<comment> \<open>microseconds\<close>
  msg_pid :: nat
  msg_tid :: nat
  msg_thread :: string
  msg_file :: "string option"
  msg_line :: nat
  msg_map :: "(string \<rightharpoonup> string) option"

record date_time =
  dt_year :: nat
  dt_month :: nat
  dt_day :: nat
  dt_hour :: nat
  dt_minute :: nat
  dt_second :: nat
  dt_millisecond :: nat
  dt_microsecond :: nat
  dt_dayOfWeek :: nat

definition hourAMPM :: "date_time \<Rightarrow> nat" where
  "hourAMPM dt = (if dt_hour dt < 1 then 12 else if 12 < dt_hour dt then dt_hour dt - 12 else dt_hour dt)"

definition isAM :: "date_time \<Rightarrow> bool" where
  "isAM dt \<longleftrightarrow> dt_hour dt < 12"

record poco_env =
  env_dateTime :: "int \<Rightarrow> date_time"          \<comment> \<open>the date of a time stamp\<close>
  env_utcOffset :: int                         \<comment> \<open>seconds\<close>
  env_dst :: int
  env_nodeName :: string
  env_tzdISO :: "bool \<Rightarrow> string"               \<comment> \<open>of the local zone, or of UTC\<close>
  env_tzdRFC :: "bool \<Rightarrow> string"
  env_getFileName :: "string \<Rightarrow> string"
  env_rotateAtTime :: "bool \<Rightarrow> string \<Rightarrow> poco_error option"
                                               \<comment> \<open>whether \<open>RotateAtTimeStrategy\<close> rejects a time\<close>
  env_now :: int
  env_pid :: nat
  env_tid :: nat
  env_thread :: string

text \<open>The constructor of \<open>Message\<close> the loggers use.\<close>

definition Message_new :: "poco_env \<Rightarrow> string \<Rightarrow> string \<Rightarrow> nat \<Rightarrow> message" where
  "Message_new env source text prio =
     \<lparr>msg_source = source, msg_text = text, msg_prio = prio, msg_time = env_now env,
      msg_pid = env_pid env, msg_tid = env_tid env, msg_thread = env_thread env,
      msg_file = None, msg_line = 0, msg_map = None\<rparr>"

definition Message_with_text :: "message \<Rightarrow> string \<Rightarrow> message" where
  "Message_with_text msg text = msg\<lparr>msg_text := text\<rparr>"

text \<open>\<open>Message::operator []\<close>: a missing parameter is the empty string, a missing map throws.\<close>

definition Message_parameter :: "message \<Rightarrow> string \<Rightarrow> string option" where
  "Message_parameter msg param =
     map_option (\<lambda>m. case m param of Some v \<Rightarrow> v | None \<Rightarrow> []) (msg_map msg)"

section \<open>Patterns\<close>

record pattern_action =
  pa_key :: char
  pa_length :: int
  pa_property :: string
  pa_prepend :: string

function parsePattern_loop :: "string \<Rightarrow> string \<Rightarrow> pattern_action list" where
  "parsePattern_loop prepend [] =
     (if prepend \<noteq> [] then [\<lparr>pa_key = CHR 0x00, pa_length = 0, pa_property = [], pa_prepend = prepend\<rparr>] else [])"
| "parsePattern_loop prepend (c # s) =
     (if c = CHR ''%'' then
        (case s of
           [] \<Rightarrow> parsePattern_loop prepend []
         | k # s \<Rightarrow>
             if k = CHR ''['' then
               let prop = takeWhile (\<lambda>c. c \<noteq> CHR '']'') s
               in \<lparr>pa_key = CHR ''x'', pa_length = 0, pa_property = prop, pa_prepend = prepend\<rparr> #
                    parsePattern_loop [] (drop (length prop + 1) s)
             else if s \<noteq> [] \<and> hd s = CHR ''['' then
               let number = takeWhile (\<lambda>c. c \<noteq> CHR '']'') (tl s)
               in \<lparr>pa_key = k, pa_length = (case strToInt number of Some n \<Rightarrow> n | None \<Rightarrow> 0),
                    pa_property = [], pa_prepend = prepend\<rparr> #
                    parsePattern_loop [] (drop (length number + 2) s)
             else \<lparr>pa_key = k, pa_length = 0, pa_property = [], pa_prepend = prepend\<rparr> # parsePattern_loop [] s)
      else parsePattern_loop (prepend @ [c]) s)"
  by pat_completeness auto
termination
  by (relation "measure (\<lambda>(_, s). length s)") auto

definition parsePattern :: "string \<Rightarrow> pattern_action list" where
  "parsePattern pattern = parsePattern_loop [] pattern"

text \<open>\<open>StringTokenizer\<close>, with its options.\<close>

definition token_trim :: "string \<Rightarrow> string" where
  "token_trim token =
     (let front = length (takeWhile isspace token);
          back = (if front = length token then 0 else length (takeWhile isspace (rev token)))
      in take (length token - back - front) (drop front token))"

definition add_token :: "bool \<Rightarrow> bool \<Rightarrow> string \<Rightarrow> string list \<Rightarrow> string list" where
  "add_token doTrim ignoreEmpty token tokens =
     (let token = (if doTrim then token_trim token else token)
      in if token \<noteq> [] \<or> \<not> ignoreEmpty then tokens @ [token] else tokens)"

fun tokens_loop :: "string \<Rightarrow> bool \<Rightarrow> bool \<Rightarrow> string list \<Rightarrow> string \<Rightarrow> bool \<Rightarrow> string \<Rightarrow> string list" where
  "tokens_loop separators doTrim ignoreEmpty tokens token lastToken [] =
     (if token \<noteq> [] then add_token doTrim ignoreEmpty token tokens else if lastToken then tokens @ [[]] else tokens)"
| "tokens_loop separators doTrim ignoreEmpty tokens token lastToken (c # s) =
     (if c \<in> set separators
      then tokens_loop separators doTrim ignoreEmpty (add_token doTrim ignoreEmpty token tokens) [] (lastToken \<or> \<not> ignoreEmpty) s
      else tokens_loop separators doTrim ignoreEmpty tokens (token @ [c]) False s)"

definition StringTokenizer :: "string \<Rightarrow> string \<Rightarrow> bool \<Rightarrow> bool \<Rightarrow> string list" where
  "StringTokenizer str separators doTrim ignoreEmpty = tokens_loop separators doTrim ignoreEmpty [] [] False str"

record pattern_formatter =
  pf_localTime :: bool
  pf_pattern :: string
  pf_patternActions :: "pattern_action list"
  pf_priorityNames :: string
  pf_priorities :: "string list"     \<comment> \<open>the name of priority \<open>i\<close> is entry \<open>i - 1\<close>\<close>

definition DEFAULT_PRIORITY_NAMES :: string where
  "DEFAULT_PRIORITY_NAMES = ''Fatal,Critical,Error,Warning,Notice,Information,Debug,Trace''"

definition parsePriorityNames :: "pattern_formatter \<Rightarrow> pattern_formatter setting" where
  "parsePriorityNames pf =
     (let st = StringTokenizer (pf_priorityNames pf) '',;'' True False
      in if length st = 8 then (pf\<lparr>pf_priorities := st\<rparr>, None) else (pf, Some SyntaxError))"

definition getPriorityName :: "pattern_formatter \<Rightarrow> nat \<Rightarrow> poco_error + string" where
  "getPriorityName pf prio =
     (if 1 \<le> prio \<and> prio \<le> 8 then Inr (pf_priorities pf ! (prio - 1)) else Inl AssertionViolation)"

definition PatternFormatter_new :: pattern_formatter where
  "PatternFormatter_new =
     fst (parsePriorityNames \<lparr>pf_localTime = False, pf_pattern = [], pf_patternActions = [],
       pf_priorityNames = DEFAULT_PRIORITY_NAMES, pf_priorities = replicate 8 []\<rparr>)"

definition PatternFormatter_setProperty :: "string \<Rightarrow> string \<Rightarrow> pattern_formatter \<Rightarrow> pattern_formatter setting" where
  "PatternFormatter_setProperty name val pf =
     (if name = ''pattern'' then (pf\<lparr>pf_pattern := val, pf_patternActions := parsePattern val\<rparr>, None)
      else if name = ''times'' then (pf\<lparr>pf_localTime := (val = ''local'')\<rparr>, None)
      else if name = ''priorityNames'' then parsePriorityNames (pf\<lparr>pf_priorityNames := val\<rparr>)
      else (pf, Some (PropertyNotSupported [] [])))"

definition WEEKDAY_NAMES :: "string list" where
  "WEEKDAY_NAMES = [''Sunday'', ''Monday'', ''Tuesday'', ''Wednesday'', ''Thursday'', ''Friday'', ''Saturday'']"

definition MONTH_NAMES :: "string list" where
  "MONTH_NAMES = [''January'', ''February'', ''March'', ''April'', ''May'', ''June'', ''July'',
     ''August'', ''September'', ''October'', ''November'', ''December'']"

text \<open>What one action appends, for the date it is given.\<close>

definition action_text :: "poco_env \<Rightarrow> pattern_formatter \<Rightarrow> message \<Rightarrow> bool \<Rightarrow> date_time \<Rightarrow> pattern_action \<Rightarrow> poco_error + string" where
  "action_text env pf msg localTime dt pa =
     (let key = pa_key pa; source = msg_source msg; prio = msg_prio msg
      in if key = CHR ''s'' then Inr source
         else if key = CHR ''t'' then Inr (msg_text msg)
         else if key = CHR ''l'' then Inr (nat_digits prio)
         else if key = CHR ''p'' then getPriorityName pf prio
         else if key = CHR ''q'' then
           rbind (getPriorityName pf prio) (\<lambda>name. if name = [] then Inl OutOfRangeError else Inr [hd name])
         else if key = CHR ''P'' then Inr (nat_digits (msg_pid msg))
         else if key = CHR ''T'' then Inr (msg_thread msg)
         else if key = CHR ''I'' then Inr (nat_digits (msg_tid msg))
         else if key = CHR ''N'' then Inr (env_nodeName env)
         else if key = CHR ''U'' then Inr (case msg_file msg of Some f \<Rightarrow> f | None \<Rightarrow> [])
         else if key = CHR ''O'' then Inr (case msg_file msg of Some f \<Rightarrow> env_getFileName env f | None \<Rightarrow> [])
         else if key = CHR ''u'' then Inr (nat_digits (msg_line msg))
         else if key = CHR ''w'' then Inr (take 3 (WEEKDAY_NAMES ! dt_dayOfWeek dt))
         else if key = CHR ''W'' then Inr (WEEKDAY_NAMES ! dt_dayOfWeek dt)
         else if key = CHR ''b'' then Inr (take 3 (MONTH_NAMES ! (dt_month dt - 1)))
         else if key = CHR ''B'' then Inr (MONTH_NAMES ! (dt_month dt - 1))
         else if key = CHR ''d'' then Inr (format_width (CHR ''0'') 2 (dt_day dt))
         else if key = CHR ''e'' then Inr (nat_digits (dt_day dt))
         else if key = CHR ''f'' then Inr (format_width (CHR '' '') 2 (dt_day dt))
         else if key = CHR ''m'' then Inr (format_width (CHR ''0'') 2 (dt_month dt))
         else if key = CHR ''n'' then Inr (nat_digits (dt_month dt))
         else if key = CHR ''o'' then Inr (format_width (CHR '' '') 2 (dt_month dt))
         else if key = CHR ''y'' then Inr (format_width (CHR ''0'') 2 (dt_year dt mod 100))
         else if key = CHR ''Y'' then Inr (format_width (CHR ''0'') 4 (dt_year dt))
         else if key = CHR ''H'' then Inr (format_width (CHR ''0'') 2 (dt_hour dt))
         else if key = CHR ''h'' then Inr (format_width (CHR ''0'') 2 (hourAMPM dt))
         else if key = CHR ''a'' then Inr (if isAM dt then ''am'' else ''pm'')
         else if key = CHR ''A'' then Inr (if isAM dt then ''AM'' else ''PM'')
         else if key = CHR ''M'' then Inr (format_width (CHR ''0'') 2 (dt_minute dt))
         else if key = CHR ''S'' then Inr (format_width (CHR ''0'') 2 (dt_second dt))
         else if key = CHR ''i'' then Inr (format_width (CHR ''0'') 3 (dt_millisecond dt))
         else if key = CHR ''c'' then Inr (nat_digits (dt_millisecond dt div 100))
         else if key = CHR ''F'' then Inr (format_width (CHR ''0'') 6 (dt_millisecond dt * 1000 + dt_microsecond dt))
         else if key = CHR ''z'' then Inr (env_tzdISO env localTime)
         else if key = CHR ''Z'' then Inr (env_tzdRFC env localTime)
         else if key = CHR ''E'' then Inr (format_int (sgn (msg_time msg) * (\<bar>msg_time msg\<bar> div 1000000)))
         else if key = CHR ''v'' then
           (if pa_length pa < 0 then Inl LengthError
            else let len = nat (pa_length pa)
                 in if length source < len then Inr (source @ replicate (len - length source) (CHR '' ''))
                    else if len \<noteq> 0 \<and> len < length source then Inr (drop (length source - len) source)
                    else Inr source)
         else if key = CHR ''x'' then Inr (case Message_parameter msg (pa_property pa) of Some v \<Rightarrow> v | None \<Rightarrow> [])
         else Inr [])"

text \<open>The loop of \<open>format\<close>; the key \<open>L\<close> switches to local time for the actions after it.\<close>

definition local_timestamp :: "poco_env \<Rightarrow> int \<Rightarrow> int" where
  "local_timestamp env timestamp = timestamp + env_utcOffset env * 1000000 + env_dst env * 1000000"

fun format_loop :: "poco_env \<Rightarrow> pattern_formatter \<Rightarrow> message \<Rightarrow> bool \<Rightarrow> int \<Rightarrow> pattern_action list \<Rightarrow> string \<Rightarrow> poco_error + string" where
  "format_loop env pf msg localTime timestamp [] out = Inr out"
| "format_loop env pf msg localTime timestamp (pa # pas) out =
     (if pa_key pa = CHR ''L'' \<and> \<not> localTime then
        format_loop env pf msg True (local_timestamp env timestamp) pas (out @ pa_prepend pa)
      else
        rbind (action_text env pf msg localTime (env_dateTime env timestamp) pa) (\<lambda>t.
          format_loop env pf msg localTime timestamp pas (out @ pa_prepend pa @ t)))"

definition PatternFormatter_format :: "poco_env \<Rightarrow> pattern_formatter \<Rightarrow> message \<Rightarrow> poco_error + string" where
  "PatternFormatter_format env pf msg =
     format_loop env pf msg (pf_localTime pf)
       (if pf_localTime pf then local_timestamp env (msg_time msg) else msg_time msg) (pf_patternActions pf) []"

section \<open>The console\<close>

record color_console =
  cc_enableColors :: bool
  cc_colors :: "nat list"                      \<comment> \<open>by priority; entry 0 is unused\<close>

definition initColors :: "nat list" where
  "initColors = [0x0027, 0x011f, 0x011f, 0x011f, 0x0121, 0x0027, 0x0027, 0x0025, 0x0025]"

definition ColorConsoleChannel_new :: color_console where
  "ColorConsoleChannel_new = \<lparr>cc_enableColors = True, cc_colors = initColors\<rparr>"

text \<open>The colours in the order \<open>parseColor\<close> compares them, with their codes.\<close>

definition color_table :: "(string \<times> nat) list" where
  "color_table =
    [(''default'', 0x0027), (''black'', 0x001e), (''red'', 0x001f), (''green'', 0x0020), (''brown'', 0x0021),
     (''blue'', 0x0022), (''magenta'', 0x0023), (''cyan'', 0x0024), (''gray'', 0x0025), (''darkGray'', 0x011e),
     (''lightRed'', 0x011f), (''lightGreen'', 0x0120), (''yellow'', 0x0121), (''lightBlue'', 0x0122),
     (''lightMagenta'', 0x0123), (''lightCyan'', 0x0124), (''white'', 0x0125)]"

definition parseColor :: "string \<Rightarrow> poco_error + nat" where
  "parseColor color =
     (case find (\<lambda>(name, _). StringEqualI color name) color_table of
        Some (_, c) \<Rightarrow> Inr c
      | None \<Rightarrow> Inl (InvalidArgument ''Invalid color value'' color))"

definition formatColor :: "nat \<Rightarrow> string" where
  "formatColor color =
     (case find (\<lambda>(_, c). c = color) color_table of Some (name, _) \<Rightarrow> name | None \<Rightarrow> ''invalid'')"

text \<open>The properties that hold a colour, with the priority whose colour it is.\<close>

definition color_properties :: "(string \<times> nat) list" where
  "color_properties =
    [(''traceColor'', PRIO_TRACE), (''debugColor'', PRIO_DEBUG), (''informationColor'', PRIO_INFORMATION),
     (''noticeColor'', PRIO_NOTICE), (''warningColor'', PRIO_WARNING), (''errorColor'', PRIO_ERROR),
     (''criticalColor'', PRIO_CRITICAL), (''fatalColor'', PRIO_FATAL)]"

definition ColorConsoleChannel_setProperty :: "string \<Rightarrow> string \<Rightarrow> color_console \<Rightarrow> color_console setting" where
  "ColorConsoleChannel_setProperty name val cc =
     (if name = ''enableColors'' then (cc\<lparr>cc_enableColors := StringEqualI val ''true''\<rparr>, None)
      else case map_of color_properties name of
             Some prio \<Rightarrow>
               (case parseColor val of
                  Inl e \<Rightarrow> (cc, Some e)
                | Inr color \<Rightarrow> (cc\<lparr>cc_colors := (cc_colors cc)[prio := color]\<rparr>, None))
           | None \<Rightarrow> (cc, Some (PropertyNotSupported name [])))"

definition ColorConsoleChannel_getProperty :: "string \<Rightarrow> color_console \<Rightarrow> poco_error + string" where
  "ColorConsoleChannel_getProperty name cc =
     (if name = ''enableColors'' then Inr (if cc_enableColors cc then ''true'' else ''false'')
      else case map_of color_properties name of
             Some prio \<Rightarrow> Inr (formatColor (cc_colors cc ! prio))
           | None \<Rightarrow> Inl (PropertyNotSupported name []))"

definition CSI :: string where
  "CSI = CHR 0x1B # ''[''"

text \<open>What \<open>log\<close> writes to the stream.\<close>

definition ColorConsoleChannel_log :: "color_console \<Rightarrow> message \<Rightarrow> string" where
  "ColorConsoleChannel_log cc msg =
     (if cc_enableColors cc then
        (let color = cc_colors cc ! msg_prio msg
         in (if color div 0x100 mod 2 = 1 then CSI @ ''1m'' else []) @ CSI @ nat_digits (color mod 0x100) @ ''m'')
      else []) @
     msg_text msg @ (if cc_enableColors cc then CSI @ ''0m'' else []) @ [CHR 0x0A]"

section \<open>Files\<close>

datatype rotate_strategy =
    RotateAtTime bool string       \<comment> \<open>whether in local time\<close>
  | RotateByInterval int           \<comment> \<open>microseconds\<close>
  | RotateBySize nat

datatype archive_strategy = ArchiveByNumber | ArchiveByTimestamp bool

record file_channel =
  fc_path :: string
  fc_times :: string
  fc_rotation :: string
  fc_archive :: string
  fc_compress :: bool
  fc_purgeAge :: string
  fc_purgeCount :: string
  fc_flush :: bool
  fc_rotateOnOpen :: bool
  fc_rotateStrategy :: "rotate_strategy option"
  fc_archiveStrategy :: archive_strategy
  fc_purgeStrategy :: "(int + int) option"   \<comment> \<open>by age in microseconds, or by count\<close>

definition FileChannel_new :: file_channel where
  "FileChannel_new = \<lparr>fc_path = [], fc_times = ''utc'', fc_rotation = [], fc_archive = [], fc_compress = False,
     fc_purgeAge = [], fc_purgeCount = [], fc_flush = True, fc_rotateOnOpen = False,
     fc_rotateStrategy = None, fc_archiveStrategy = ArchiveByNumber, fc_purgeStrategy = None\<rparr>"

text \<open>Signed arithmetic at a width, and the digits of a setting read into an \<open>int\<close>.\<close>

definition signed_fit :: "nat \<Rightarrow> int \<Rightarrow> poco_error + int" where
  "signed_fit w i = (if - (2 ^ (w - 1)) \<le> i \<and> i < 2 ^ (w - 1) then Inr i else Inl IntOverflow)"

fun read_digits :: "int \<Rightarrow> string \<Rightarrow> poco_error + int" where
  "read_digits n [] = Inr n"
| "read_digits n (c # s) =
     rbind (signed_fit 32 (n * 10)) (\<lambda>n. rbind (signed_fit 32 (n + (int (code c) - 48))) (\<lambda>n. read_digits n s))"

definition isDigit :: "char \<Rightarrow> bool" where
  "isDigit c \<longleftrightarrow> 48 \<le> code c \<and> code c \<le> 57"

definition isAlpha :: "char \<Rightarrow> bool" where
  "isAlpha c \<longleftrightarrow> 65 \<le> code c \<and> code c \<le> 90 \<or> 97 \<le> code c \<and> code c \<le> 122"

text \<open>The units of time in microseconds.\<close>

definition SECONDS :: int where "SECONDS = 1000000"
definition MINUTES :: int where "MINUTES = 60 * SECONDS"
definition HOURS :: int where "HOURS = 60 * MINUTES"
definition DAYS :: int where "DAYS = 24 * HOURS"

lemmas timespan_defs = SECONDS_def MINUTES_def HOURS_def DAYS_def

definition new_interval :: "poco_error + int \<Rightarrow> poco_error + rotate_strategy option" where
  "new_interval span =
     rbind span (\<lambda>span. if span \<le> 0 then Inl (InvalidArgument ''time span must be greater than zero'' [])
       else Inr (Some (RotateByInterval span)))"

definition new_size :: "poco_error + int \<Rightarrow> poco_error + rotate_strategy option" where
  "new_size n =
     rbind n (\<lambda>n. if n = 0 then Inl (InvalidArgument ''size must be greater than zero'' [])
       else Inr (Some (RotateBySize (nat n))))"

definition rotation_strategy :: "poco_env \<Rightarrow> string \<Rightarrow> string \<Rightarrow> poco_error + rotate_strategy option" where
  "rotation_strategy env rtimes rotation =
     (let s = dropWhile isspace rotation;
          digits = takeWhile isDigit s;
          unit = takeWhile isAlpha (dropWhile isspace (drop (length digits) s))
      in rbind (read_digits 0 digits) (\<lambda>n.
           if CHR '','' \<in> set rotation \<or> CHR '':'' \<in> set rotation then
             (if rtimes = ''utc'' \<or> rtimes = ''local'' then
                (case env_rotateAtTime env (rtimes = ''local'') rotation of
                   Some e \<Rightarrow> Inl e
                 | None \<Rightarrow> Inr (Some (RotateAtTime (rtimes = ''local'') rotation)))
              else Inl (PropertyNotSupported ''times'' rtimes))
           else if unit = ''daily'' then new_interval (Inr DAYS)
           else if unit = ''weekly'' then new_interval (Inr (7 * DAYS))
           else if unit = ''monthly'' then new_interval (Inr (30 * DAYS))
           else if unit = ''seconds'' then new_interval (signed_fit 64 (n * SECONDS))
           else if unit = ''minutes'' then new_interval (signed_fit 64 (n * MINUTES))
           else if unit = ''hours'' then new_interval (signed_fit 64 (n * HOURS))
           else if unit = ''days'' then new_interval (signed_fit 64 (n * DAYS))
           else if unit = ''weeks'' then new_interval (rbind (signed_fit 32 (n * 7)) (\<lambda>n. signed_fit 64 (n * DAYS)))
           else if unit = ''months'' then new_interval (rbind (signed_fit 32 (n * 30)) (\<lambda>n. signed_fit 64 (n * DAYS)))
           else if unit = ''K'' then new_size (signed_fit 32 (n * 1024))
           else if unit = ''M'' then new_size (rbind (signed_fit 32 (n * 1024)) (\<lambda>n. signed_fit 32 (n * 1024)))
           else if unit = [] then new_size (Inr n)
           else if unit \<noteq> ''never'' then Inl (InvalidArgument ''rotation'' rotation)
           else Inr None))"

definition setRotation :: "poco_env \<Rightarrow> string \<Rightarrow> file_channel \<Rightarrow> file_channel setting" where
  "setRotation env rotation fc =
     (case rotation_strategy env (fc_times fc) rotation of
        Inl e \<Rightarrow> (fc, Some e)
      | Inr pStrategy \<Rightarrow> (fc\<lparr>fc_rotateStrategy := pStrategy, fc_rotation := rotation\<rparr>, None))"

definition setArchive :: "string \<Rightarrow> file_channel \<Rightarrow> file_channel setting" where
  "setArchive archive fc =
     (if archive = ''number'' then (fc\<lparr>fc_archiveStrategy := ArchiveByNumber, fc_archive := archive\<rparr>, None)
      else if archive = ''timestamp'' then
        (if fc_times fc = ''utc'' \<or> fc_times fc = ''local'' then
           (fc\<lparr>fc_archiveStrategy := ArchiveByTimestamp (fc_times fc = ''local''), fc_archive := archive\<rparr>, None)
         else (fc, Some (PropertyNotSupported ''times'' (fc_times fc))))
      else (fc, Some (InvalidArgument ''archive'' archive)))"

definition setNoPurge :: "string \<Rightarrow> file_channel \<Rightarrow> bool \<times> file_channel" where
  "setNoPurge val fc =
     (if val = [] \<or> StringEqualI val ''none'' then (True, fc\<lparr>fc_purgeStrategy := None, fc_purgeAge := ''none''\<rparr>)
      else (False, fc))"

definition extractDigit :: "string \<Rightarrow> poco_error + int \<times> string" where
  "extractDigit val =
     (let s = dropWhile isspace val; digits = takeWhile isDigit s
      in rbind (read_digits 0 digits) (\<lambda>digit.
           if digit = 0 then Inl (InvalidArgument ''Zero is not valid purge age.'' [])
           else Inr (digit, drop (length digits) s)))"

definition extractFactor :: "string \<Rightarrow> string \<Rightarrow> poco_error + int" where
  "extractFactor val start =
     (let unit = takeWhile isAlpha (dropWhile isspace start)
      in if unit = ''seconds'' then Inr SECONDS
         else if unit = ''minutes'' then Inr MINUTES
         else if unit = ''hours'' then Inr HOURS
         else if unit = ''days'' then Inr DAYS
         else if unit = ''weeks'' then Inr (7 * DAYS)
         else if unit = ''months'' then Inr (30 * DAYS)
         else Inl (InvalidArgument ''purgeAge'' val))"

definition setPurgeAge :: "string \<Rightarrow> file_channel \<Rightarrow> file_channel setting" where
  "setPurgeAge age fc =
     (let (none, fc) = setNoPurge age fc
      in if none then (fc, None)
         else case rbind (extractDigit age) (\<lambda>(num, nextToDigit).
                     rbind (extractFactor age nextToDigit) (\<lambda>factor. signed_fit 64 (num * factor))) of
                Inl e \<Rightarrow> (fc, Some e)
              | Inr span \<Rightarrow> (fc\<lparr>fc_purgeStrategy := Some (Inl span), fc_purgeAge := age\<rparr>, None))"

definition setPurgeCount :: "string \<Rightarrow> file_channel \<Rightarrow> file_channel setting" where
  "setPurgeCount count fc =
     (let (none, fc) = setNoPurge count fc
      in if none then (fc, None)
         else case extractDigit count of
                Inl e \<Rightarrow> (fc, Some e)
              | Inr (num, _) \<Rightarrow> (fc\<lparr>fc_purgeStrategy := Some (Inr num), fc_purgeCount := count\<rparr>, None))"

definition FileChannel_setProperty :: "poco_env \<Rightarrow> string \<Rightarrow> string \<Rightarrow> file_channel \<Rightarrow> file_channel setting" where
  "FileChannel_setProperty env name val fc =
     (if name = ''times'' then
        (let fc = fc\<lparr>fc_times := val\<rparr>
         in case (if fc_rotation fc \<noteq> [] then setRotation env (fc_rotation fc) fc else (fc, None)) of
              (fc, Some e) \<Rightarrow> (fc, Some e)
            | (fc, None) \<Rightarrow> if fc_archive fc \<noteq> [] then setArchive (fc_archive fc) fc else (fc, None))
      else if name = ''path'' then (fc\<lparr>fc_path := val\<rparr>, None)
      else if name = ''rotation'' then setRotation env val fc
      else if name = ''archive'' then setArchive val fc
      else if name = ''compress'' then (fc\<lparr>fc_compress := StringEqualI val ''true''\<rparr>, None)
      else if name = ''purgeAge'' then setPurgeAge val fc
      else if name = ''purgeCount'' then setPurgeCount val fc
      else if name = ''flush'' then (fc\<lparr>fc_flush := StringEqualI val ''true''\<rparr>, None)
      else if name = ''rotateOnOpen'' then (fc\<lparr>fc_rotateOnOpen := StringEqualI val ''true''\<rparr>, None)
      else (fc, Some (PropertyNotSupported name [])))"

section \<open>Channels\<close>

datatype channel =
    ConsoleChannel color_console
  | FileChannel file_channel
  | FormattingChannel "pattern_formatter option" "channel option"
  | SplitterChannel "channel list"

datatype log_output = ConsoleOut string | FileWrite string string bool

type_synonym logging = "log_output list \<times> poco_error option"

definition then_log :: "logging \<Rightarrow> logging \<Rightarrow> logging" where
  "then_log a b = (case snd a of Some e \<Rightarrow> a | None \<Rightarrow> (fst a @ fst b, snd b))"

fun Channel_log :: "poco_env \<Rightarrow> channel \<Rightarrow> message \<Rightarrow> logging"
and Splitter_log :: "poco_env \<Rightarrow> channel list \<Rightarrow> message \<Rightarrow> logging" where
  "Channel_log env (ConsoleChannel cc) msg = ([ConsoleOut (ColorConsoleChannel_log cc msg)], None)"
| "Channel_log env (FileChannel fc) msg = ([FileWrite (fc_path fc) (msg_text msg) (fc_flush fc)], None)"
| "Channel_log env (FormattingChannel pFormatter None) msg = ([], None)"
| "Channel_log env (FormattingChannel None (Some pChannel)) msg = Channel_log env pChannel msg"
| "Channel_log env (FormattingChannel (Some pFormatter) (Some pChannel)) msg =
     (case PatternFormatter_format env pFormatter msg of
        Inl e \<Rightarrow> ([], Some e)
      | Inr t \<Rightarrow> Channel_log env pChannel (Message_with_text msg t))"
| "Channel_log env (SplitterChannel channels) msg = Splitter_log env channels msg"
| "Splitter_log env [] msg = ([], None)"
| "Splitter_log env (p # channels) msg = then_log (Channel_log env p msg) (Splitter_log env channels msg)"

section \<open>Loggers\<close>

record logger =
  lg_name :: string
  lg_channel :: "channel option"
  lg_level :: int

type_synonym logger_map = "string \<rightharpoonup> logger"

definition Logger_log :: "poco_env \<Rightarrow> logger \<Rightarrow> string \<Rightarrow> nat \<Rightarrow> logging" where
  "Logger_log env lg text prio =
     (case lg_channel lg of
        Some pChannel \<Rightarrow>
          if int prio \<le> lg_level lg then Channel_log env pChannel (Message_new env (lg_name lg) text prio) else ([], None)
      | None \<Rightarrow> ([], None))"

definition Logger_find :: "logger_map \<Rightarrow> string \<Rightarrow> logger option" where
  "Logger_find loggers name = loggers name"

definition Logger_create :: "string \<Rightarrow> channel option \<Rightarrow> int \<Rightarrow> logger_map \<Rightarrow> poco_error + logger_map" where
  "Logger_create name pChannel level loggers =
     (case Logger_find loggers name of
        Some _ \<Rightarrow> Inl ExistsError
      | None \<Rightarrow> Inr (loggers(name \<mapsto> \<lparr>lg_name = name, lg_channel = pChannel, lg_level = level\<rparr>)))"

definition Logger_shutdown :: "logger_map \<Rightarrow> logger_map" where
  "Logger_shutdown loggers = Map.empty"

text \<open>The position of the last dot of a name, and what stands before it.\<close>

definition rfind_dot :: "string \<Rightarrow> nat option" where
  "rfind_dot name =
     (let n = length (takeWhile (\<lambda>c. c \<noteq> CHR ''.'') (rev name))
      in if n < length name then Some (length name - n - 1) else None)"

lemma rfind_dot_less: "rfind_dot name = Some pos \<Longrightarrow> pos < length name"
  by (auto simp: rfind_dot_def Let_def split: if_splits)

definition Logger_root :: "logger_map \<Rightarrow> logger \<times> logger_map" where
  "Logger_root loggers =
     (case Logger_find loggers [] of
        Some lg \<Rightarrow> (lg, loggers)
      | None \<Rightarrow>
          let lg = \<lparr>lg_name = [], lg_channel = None, lg_level = int PRIO_INFORMATION\<rparr>
          in (lg, loggers([] \<mapsto> lg)))"

function Logger_parent :: "string \<Rightarrow> logger_map \<Rightarrow> logger \<times> logger_map" where
  "Logger_parent name loggers =
     (case rfind_dot name of
        Some pos \<Rightarrow>
          (case Logger_find loggers (take pos name) of
             Some lg \<Rightarrow> (lg, loggers)
           | None \<Rightarrow> Logger_parent (take pos name) loggers)
      | None \<Rightarrow> Logger_root loggers)"
  by pat_completeness auto
termination
  by (relation "measure (\<lambda>(name, _). length name)") (auto dest: rfind_dot_less)

declare Logger_parent.simps [simp del]

definition Logger_get :: "string \<Rightarrow> logger_map \<Rightarrow> logger \<times> logger_map" where
  "Logger_get name loggers =
     (case Logger_find loggers name of
        Some lg \<Rightarrow> (lg, loggers)
      | None \<Rightarrow>
          if name = [] then Logger_root loggers
          else let (par, loggers) = Logger_parent name loggers;
                   lg = \<lparr>lg_name = name, lg_channel = lg_channel par, lg_level = lg_level par\<rparr>
               in (lg, loggers(name \<mapsto> lg)))"

section \<open>Facts\<close>

text \<open>A pattern without a percent sign is copied; two percent signs print nothing.\<close>

lemma parsePattern_loop_literal:
  "CHR ''%'' \<notin> set s \<Longrightarrow> parsePattern_loop prepend s = parsePattern_loop (prepend @ s) []"
  by (induction s arbitrary: prepend) auto

lemma format_literal:
  assumes "CHR ''%'' \<notin> set pattern" "PatternFormatter_setProperty ''pattern'' pattern pf = (pf', None)"
  shows "PatternFormatter_format env pf' msg = Inr pattern"
proof -
  have "pf_patternActions pf' = parsePattern pattern"
    using assms(2) by (auto simp: PatternFormatter_setProperty_def)
  then show ?thesis
    using parsePattern_loop_literal [OF assms(1), of "[]"]
    by (auto simp: PatternFormatter_format_def parsePattern_def action_text_def Let_def)
qed

lemma percent_prints_nothing:
  assumes "PatternFormatter_setProperty ''pattern'' ''%%'' pf = (pf', None)"
  shows "PatternFormatter_format env pf' msg = Inr []"
proof -
  have "pf_patternActions pf' = parsePattern ''%%''"
    using assms by (auto simp: PatternFormatter_setProperty_def)
  then show ?thesis
    by (simp add: PatternFormatter_format_def parsePattern_def action_text_def Let_def)
qed

text \<open>A negative width makes every message fail.\<close>

lemma negative_width_throws:
  assumes "pa_key pa = CHR ''v''" "pa_length pa < 0"
  shows "format_loop env pf msg localTime timestamp (pa # pas) out = Inl LengthError"
  using assms by (simp add: action_text_def Let_def)

text \<open>The colours are read back from their names.\<close>

lemma parse_format_color:
  assumes "color \<in> snd ` set color_table"
  shows "parseColor (formatColor color) = Inr color"
proof -
  have "list_all (\<lambda>c. parseColor (formatColor c) = Inr c) (map snd color_table)" by code_simp
  then show ?thesis using assms by (auto simp: list_all_iff)
qed

text \<open>A setting that throws is the last one that is looked at.\<close>

lemma set_properties_append:
  "set_properties f (ps @ qs) c =
    (case set_properties f ps c of (c', None) \<Rightarrow> set_properties f qs c' | r \<Rightarrow> r)"
  by (induction f ps c rule: set_properties.induct) (auto split: option.split prod.split)

lemma purge_age_needs_unit:
  assumes "list_all isDigit age" "age \<noteq> []" "rbind (extractDigit age) (\<lambda>x. Inr (fst x)) = Inr n"
  shows "setPurgeAge age fc = (fc, Some (InvalidArgument ''purgeAge'' age))"
proof -
  have all: "takeWhile isDigit age = age" using assms(1) by (simp add: takeWhile_eq_all_conv list_all_iff)
  have "\<not> isspace (hd age)" "hd age \<noteq> CHR ''n''" "hd age \<noteq> CHR ''N''"
    using assms(1,2) by (cases age; force simp: isDigit_def isspace_def code_def)+
  then have sp: "dropWhile isspace age = age" by (cases age) simp_all
  have no: "\<not> StringEqualI age ''none''"
    using assms(1,2) by (cases age) (auto simp: StringEqualI_def isDigit_def tolower_def code_def)
  show ?thesis
    using assms(3)
    by (auto simp: setPurgeAge_def setNoPurge_def assms(2) no extractDigit_def sp all Let_def extractFactor_def
        rbind_eq_Inr split: if_splits)
qed

end
