(* ===== verification/Config.thy ===== *)
theory Config
  imports Text
begin

text \<open>
  \<^verbatim>\<open>src/common/Configuration/Config.cpp\<close>, the configuration files, and
  \<^verbatim>\<open>src/client/Config/DiscordConfig.cpp\<close>, the client's cached options.

  A file is what reading it yields: nothing when it cannot be opened, otherwise its lines, one
  of which may fail to be read.  The hash map of options is a map; the order in which the
  options of one file are added is that of the file, and does not matter because their names
  differ.  \<open>prints\<close> says which strings the formatting library accepts as a format for two
  strings: the message about a duplicate key uses the file name as its format.  The
  build option that aborts on unknown options is off.
\<close>

section \<open>Files\<close>

datatype line_read = LineRead string | LineFailed

type_synonym config_file = "line_read list option"
type_synonym file_system = "string \<Rightarrow> config_file"
type_synonym options = "string \<rightharpoonup> string"

datatype config_error = CannotOpen string | ReadFailure nat string | EmptyFile string | FormatError

fun contains :: "string \<Rightarrow> string \<Rightarrow> bool" where
  "contains sub [] \<longleftrightarrow> sub = []"
| "contains sub (c # s) \<longleftrightarrow> take (length sub) (c # s) = sub \<or> contains sub s"

definition IsLoggingSystemOptions :: "string \<Rightarrow> bool" where
  "IsLoggingSystemOptions optionName \<longleftrightarrow> contains ''LogChannel.'' optionName \<or> contains ''Logger.'' optionName"

definition AddKey :: "bool \<Rightarrow> bool \<Rightarrow> string \<Rightarrow> string \<Rightarrow> options \<Rightarrow> options" where
  "AddKey isOptional isReload optionName optionKey opts =
     (if isOptional \<and> opts optionName = None \<and> \<not> IsLoggingSystemOptions optionName \<and> \<not> isReload then opts
      else opts(optionName \<mapsto> optionKey))"

text \<open>One line: nothing, a line without an equals sign, or an option.\<close>

datatype parsed_line = Nothing | NoEquals | Option string string

definition parse_line :: "string \<Rightarrow> parsed_line" where
  "parse_line text =
     (let line = Trim text
      in if line = [] then Nothing
         else if hd line = CHR ''#'' \<or> hd line = CHR ''['' then Nothing
         else let line = takeWhile (\<lambda>c. c \<noteq> CHR ''#'') line
              in case find_char (CHR ''='') line 0 of
                   None \<Rightarrow> NoEquals
                 | Some equal_pos \<Rightarrow>
                     Option (Trim (take equal_pos line))
                       (filter (\<lambda>c. c \<noteq> CHR 0x22) (Trim (drop (equal_pos + 1) line))))"

fun parse_lines :: "(string \<Rightarrow> bool) \<Rightarrow> string \<Rightarrow> nat \<Rightarrow> line_read list \<Rightarrow> (string \<times> string) list \<Rightarrow>
    config_error + (string \<times> string) list" where
  "parse_lines prints file lineNumber [] fileConfigs = Inr fileConfigs"
| "parse_lines prints file lineNumber (LineFailed # lines) fileConfigs = Inl (ReadFailure (Suc lineNumber) file)"
| "parse_lines prints file lineNumber (LineRead text # lines) fileConfigs =
     (case parse_line text of
        Option entry val \<Rightarrow>
          if entry \<in> fst ` set fileConfigs then
            (if prints file then parse_lines prints file (Suc lineNumber) lines fileConfigs else Inl FormatError)
          else parse_lines prints file (Suc lineNumber) lines (fileConfigs @ [(entry, val)])
      | _ \<Rightarrow> parse_lines prints file (Suc lineNumber) lines fileConfigs)"

definition ParseFile :: "(string \<Rightarrow> bool) \<Rightarrow> file_system \<Rightarrow> string \<Rightarrow> bool \<Rightarrow> bool \<Rightarrow> options \<Rightarrow> config_error + bool \<times> options" where
  "ParseFile prints fs file isOptional isReload opts =
     (case fs file of
        None \<Rightarrow> if isOptional then Inr (False, opts) else Inl (CannotOpen file)
      | Some lines \<Rightarrow>
          rbind (parse_lines prints file 0 lines []) (\<lambda>fileConfigs.
            if fileConfigs = [] then (if isOptional then Inr (False, opts) else Inl (EmptyFile file))
            else Inr (True, foldl (\<lambda>opts (entry, key). AddKey isOptional isReload entry key opts) opts fileConfigs)))"

definition LoadFile :: "(string \<Rightarrow> bool) \<Rightarrow> file_system \<Rightarrow> string \<Rightarrow> bool \<Rightarrow> bool \<Rightarrow> options \<Rightarrow> bool \<times> options" where
  "LoadFile prints fs file isOptional isReload opts =
     (case ParseFile prints fs file isOptional isReload opts of Inl _ \<Rightarrow> (False, opts) | Inr r \<Rightarrow> r)"

section \<open>The configuration manager\<close>

record config =
  cf_filename :: string
  cf_options :: options
  cf_usingDistConfig :: bool

definition config_new :: config where
  "config_new = \<lparr>cf_filename = [], cf_options = Map.empty, cf_usingDistConfig = False\<rparr>"

definition LoadInitial :: "(string \<Rightarrow> bool) \<Rightarrow> file_system \<Rightarrow> string \<Rightarrow> bool \<Rightarrow> config \<Rightarrow> bool \<times> config" where
  "LoadInitial prints fs file isReload c =
     (let (ok, opts) = LoadFile prints fs file False isReload Map.empty in (ok, c\<lparr>cf_options := opts\<rparr>))"

definition LoadAdditionalFile :: "(string \<Rightarrow> bool) \<Rightarrow> file_system \<Rightarrow> string \<Rightarrow> bool \<Rightarrow> bool \<Rightarrow> config \<Rightarrow> bool \<times> config" where
  "LoadAdditionalFile prints fs file isOptional isReload c =
     (let (ok, opts) = LoadFile prints fs file isOptional isReload (cf_options c) in (ok, c\<lparr>cf_options := opts\<rparr>))"

definition LoadAppConfigs :: "(string \<Rightarrow> bool) \<Rightarrow> file_system \<Rightarrow> string \<Rightarrow> config \<Rightarrow> bool \<times> config" where
  "LoadAppConfigs prints fs initFileName c =
     (let c = c\<lparr>cf_filename := initFileName\<rparr>;
          (ok, c) = LoadInitial prints fs (cf_filename c @ ''.dist'') False c
      in if \<not> ok then (False, c)
         else let (ok, c) = LoadAdditionalFile prints fs (cf_filename c) True False c
              in (True, if \<not> ok then c\<lparr>cf_usingDistConfig := True\<rparr> else c))"

definition GetFilename :: "config \<Rightarrow> string" where
  "GetFilename c = (if cf_usingDistConfig c then cf_filename c @ ''.dist'' else cf_filename c)"

definition GetKeysByString :: "string \<Rightarrow> config \<Rightarrow> string set" where
  "GetKeysByString name c = {k \<in> dom (cf_options c). take (length name) k = name}"

definition GetValueDefault_int :: "int_type \<Rightarrow> string \<Rightarrow> int \<Rightarrow> config \<Rightarrow> int" where
  "GetValueDefault_int t name def c =
     (case cf_options c name of
        None \<Rightarrow> def
      | Some s \<Rightarrow> (case For_int_FromString t 10 s of None \<Rightarrow> def | Some v \<Rightarrow> v))"

definition GetValueDefault_string :: "string \<Rightarrow> string \<Rightarrow> config \<Rightarrow> string" where
  "GetValueDefault_string name def c = (case cf_options c name of None \<Rightarrow> def | Some s \<Rightarrow> s)"

definition GetOption_int :: "int_type \<Rightarrow> string \<Rightarrow> int \<Rightarrow> config \<Rightarrow> int" where
  "GetOption_int t name def c = GetValueDefault_int t name def c"

definition GetOption_string :: "string \<Rightarrow> string \<Rightarrow> config \<Rightarrow> string" where
  "GetOption_string name def c = GetValueDefault_string name def c"

definition GetOption_bool :: "string \<Rightarrow> bool \<Rightarrow> config \<Rightarrow> bool" where
  "GetOption_bool name def c =
     (case For_bool_FromString False (GetValueDefault_string name (For_bool_ToString def) c) of
        None \<Rightarrow> def | Some b \<Rightarrow> b)"

section \<open>The client's options\<close>

text \<open>The types of an option: \<open>bool\<close>, an integral type, or a string.\<close>

datatype option_value = BoolValue bool | IntValue int | StringValue string

datatype option_type = BoolOption | IntOption int_type | StringOption

fun type_of :: "option_type \<Rightarrow> option_value \<Rightarrow> bool" where
  "type_of BoolOption v \<longleftrightarrow> (\<exists>b. v = BoolValue b)"
| "type_of (IntOption t) v \<longleftrightarrow> (\<exists>i. v = IntValue i \<and> in_range t i)"
| "type_of StringOption v \<longleftrightarrow> (\<exists>s. v = StringValue s)"

text \<open>\<open>GetDefaultValue\<close>, and what \<open>format\<close> prints of a value.\<close>

fun GetDefaultValue :: "option_type \<Rightarrow> option_value" where
  "GetDefaultValue BoolOption = BoolValue False"
| "GetDefaultValue (IntOption t) = IntValue 0"
| "GetDefaultValue StringOption = StringValue []"

fun format_value :: "option_value \<Rightarrow> string" where
  "format_value (BoolValue b) = (if b then ''true'' else ''false'')"
| "format_value (IntValue i) = (if i < 0 then CHR ''-'' # nat_digits (nat (- i)) else nat_digits (nat i))"
| "format_value (StringValue s) = s"

definition GetDefaultValueString :: "option_type \<Rightarrow> option_value option \<Rightarrow> string" where
  "GetDefaultValueString t def = format_value (case def of None \<Rightarrow> GetDefaultValue t | Some v \<Rightarrow> v)"

fun StringTo_option :: "option_type \<Rightarrow> string \<Rightarrow> option_value option" where
  "StringTo_option BoolOption s = map_option BoolValue (For_bool_FromString False s)"
| "StringTo_option (IntOption t) s = map_option IntValue (For_int_FromString t 10 s)"
| "StringTo_option StringOption s = Some (StringValue s)"

definition Discord_AddOption :: "config \<Rightarrow> option_type \<Rightarrow> string \<Rightarrow> option_value option \<Rightarrow> options \<Rightarrow> options" where
  "Discord_AddOption c t option def opts =
     opts(option \<mapsto> GetOption_string option (GetDefaultValueString t def) c)"

definition Discord_AddOption_list :: "config \<Rightarrow> string list \<Rightarrow> options \<Rightarrow> options" where
  "Discord_AddOption_list c optionList opts =
     foldl (\<lambda>opts option. Discord_AddOption c StringOption option None opts) opts optionList"

definition Discord_GetOption :: "config \<Rightarrow> option_type \<Rightarrow> string \<Rightarrow> option_value option \<Rightarrow> options \<Rightarrow> option_value \<times> options" where
  "Discord_GetOption c t option def opts =
     (let opts = (if opts option = None then Discord_AddOption c t option def opts else opts)
      in case opts option of
           None \<Rightarrow> (GetDefaultValue t, opts)
         | Some s \<Rightarrow> (case StringTo_option t s of None \<Rightarrow> GetDefaultValue t | Some v \<Rightarrow> v, opts))"

definition Discord_SetOption :: "string \<Rightarrow> option_value \<Rightarrow> options \<Rightarrow> options" where
  "Discord_SetOption option v opts =
     (case opts option of
        None \<Rightarrow> opts
      | Some _ \<Rightarrow> opts(option \<mapsto>
          (case v of StringValue s \<Rightarrow> s | BoolValue b \<Rightarrow> For_bool_ToString b | IntValue i \<Rightarrow> format_value (IntValue i))))"

section \<open>The options of a file\<close>

text \<open>The reference: the options of a readable file, in order, with repetitions.\<close>

fun file_entries :: "line_read list \<Rightarrow> (string \<times> string) list" where
  "file_entries [] = []"
| "file_entries (LineFailed # lines) = file_entries lines"
| "file_entries (LineRead text # lines) =
     (case parse_line text of Option entry val \<Rightarrow> (entry, val) # file_entries lines | _ \<Rightarrow> file_entries lines)"

definition readable :: "line_read list \<Rightarrow> bool" where
  "readable lines \<longleftrightarrow> LineFailed \<notin> set lines"

lemma parse_lines_entries:
  assumes "readable lines" "prints file" "distinct (map fst fileConfigs)"
  shows "\<exists>entries. parse_lines prints file n lines fileConfigs = Inr entries \<and> distinct (map fst entries) \<and>
    map_of entries = map_of (fileConfigs @ file_entries lines) \<and>
    (entries = [] \<longleftrightarrow> fileConfigs = [] \<and> file_entries lines = [])"
  using assms(1,3)
proof (induction lines arbitrary: n fileConfigs)
  case (Cons l lines)
  then obtain str where l: "l = LineRead str" and r: "readable lines" by (cases l) (auto simp: readable_def)
  show ?case
  proof (cases "parse_line str")
    case (Option entry val)
    show ?thesis
    proof (cases "entry \<in> fst ` set fileConfigs")
      case True
      then obtain v where "map_of fileConfigs entry = Some v" by (metis map_of_eq_None_iff not_None_eq)
      then have "map_of (fileConfigs @ (entry, val) # file_entries lines) = map_of (fileConfigs @ file_entries lines)"
        by (auto simp: fun_eq_iff map_add_def split: option.split)
      moreover have "fileConfigs \<noteq> []" using True by auto
      ultimately show ?thesis
        using Cons.IH [OF r Cons.prems(2), of "Suc n"] True assms(2) by (auto simp: l Option)
    next
      case False
      have "distinct (map fst (fileConfigs @ [(entry, val)]))" using Cons.prems(2) False by simp
      from Cons.IH [OF r this, of "Suc n"] show ?thesis using False by (auto simp: l Option)
    qed
  qed (use Cons.IH [OF r Cons.prems(2), of "Suc n"] in \<open>auto simp: l\<close>)
qed simp

lemma AddKeys_lookup:
  assumes "distinct (map fst entries)"
  shows "foldl (\<lambda>opts (entry, key). AddKey isOptional isReload entry key opts) opts entries k =
    (case map_of entries k of
       Some v \<Rightarrow> if isOptional \<and> opts k = None \<and> \<not> IsLoggingSystemOptions k \<and> \<not> isReload then None else Some v
     | None \<Rightarrow> opts k)"
  using assms
proof (induction entries arbitrary: opts)
  case (Cons e entries)
  obtain entry key where e: "e = (entry, key)" by (cases e)
  have other: "AddKey isOptional isReload entry key opts k = opts k" if "k \<noteq> entry"
    using that by (simp add: AddKey_def)
  have "map_of entries entry = None" using Cons.prems e by (simp add: map_of_eq_None_iff)
  then show ?case
    using Cons.IH [of "AddKey isOptional isReload entry key opts"] Cons.prems e other
    by (cases "k = entry") (auto simp: AddKey_def split: option.splits)
qed simp

lemma LoadFile_readable:
  assumes "fs file = Some lines" "readable lines" "prints file" "file_entries lines \<noteq> []"
  shows "\<exists>opts'. LoadFile prints fs file isOptional isReload opts = (True, opts') \<and>
    (\<forall>k. opts' k = (case map_of (file_entries lines) k of
       Some v \<Rightarrow> if isOptional \<and> opts k = None \<and> \<not> IsLoggingSystemOptions k \<and> \<not> isReload then None else Some v
     | None \<Rightarrow> opts k))"
proof -
  obtain entries where e: "parse_lines prints file 0 lines [] = Inr entries" "distinct (map fst entries)"
    "map_of entries = map_of (file_entries lines)" "entries \<noteq> []"
    using parse_lines_entries [of lines prints "file" "[]" 0] assms(2-4) by auto
  then show ?thesis
    using assms(1) AddKeys_lookup [OF e(2), of isOptional isReload opts] by (simp add: LoadFile_def ParseFile_def)
qed

section \<open>Properties\<close>

text \<open>
  C31: the two configuration files are layered.  When the \<open>.dist\<close> file and the file itself can
  be read and hold options, loading succeeds and every option has the value of its first
  occurrence in the file, if the \<open>.dist\<close> file knows it or it belongs to the logging system,
  and otherwise that of its first occurrence in the \<open>.dist\<close> file.
\<close>
theorem config_layering:
  assumes "fs (name @ ''.dist'') = Some dist" "readable dist" "prints (name @ ''.dist'')" "file_entries dist \<noteq> []"
    and "fs name = Some own" "readable own" "prints name" "file_entries own \<noteq> []"
  shows "\<exists>c'. LoadAppConfigs prints fs name c = (True, c') \<and> cf_usingDistConfig c' = cf_usingDistConfig c \<and>
    (\<forall>k. cf_options c' k =
      (case map_of (file_entries own) k of
         Some v \<Rightarrow> if map_of (file_entries dist) k = None \<and> \<not> IsLoggingSystemOptions k then None else Some v
       | None \<Rightarrow> map_of (file_entries dist) k))"
proof -
  have id: "(case x of Some v \<Rightarrow> Some v | None \<Rightarrow> None) = x" for x :: "string option" by (cases x) simp_all
  obtain opts where o: "LoadFile prints fs (name @ ''.dist'') False False Map.empty = (True, opts)"
    "\<forall>k. opts k = map_of (file_entries dist) k"
    using LoadFile_readable [of fs "name @ ''.dist''" dist prints False False Map.empty] assms(1-4)
    by (auto simp: id cong: option.case_cong)
  obtain opts' where "LoadFile prints fs name True False opts = (True, opts')"
    "\<forall>k. opts' k = (case map_of (file_entries own) k of
       Some v \<Rightarrow> if opts k = None \<and> \<not> IsLoggingSystemOptions k then None else Some v | None \<Rightarrow> opts k)"
    using LoadFile_readable [of fs name own prints True False opts] assms(5-8)
    by (auto cong: option.case_cong)
  then show ?thesis
    using o by (simp add: LoadAppConfigs_def LoadInitial_def LoadAdditionalFile_def Let_def cong: option.case_cong)
qed

definition example_files :: file_system where
  "example_files name =
     (if name = ''a.dist'' then Some [LineRead ''# defaults'', LineRead ''Port = 1'', LineRead ''Host=h'']
      else if name = ''a'' then Some [LineRead '' Port=2 # mine'', LineRead ''Port=3'', LineRead ''Prot = 4'']
      else None)"

lemma example_entries:
  "file_entries [LineRead ''# defaults'', LineRead ''Port = 1'', LineRead ''Host=h''] = [(''Port'', ''1''), (''Host'', ''h'')]"
  "file_entries [LineRead '' Port=2 # mine'', LineRead ''Port=3'', LineRead ''Prot = 4''] =
    [(''Port'', ''2''), (''Port'', ''3''), (''Prot'', ''4'')]"
  by code_simp+

theorem config_layering_witness:
  "\<exists>c'. LoadAppConfigs (\<lambda>_. True) example_files ''a'' config_new = (True, c') \<and> cf_options c' ''Port'' = Some ''2'' \<and>
    cf_options c' ''Host'' = Some ''h'' \<and> cf_options c' ''Prot'' = None"
proof -
  have "\<not> IsLoggingSystemOptions ''Prot''" by code_simp
  then show ?thesis
    using config_layering [of example_files "''a''" "[LineRead ''# defaults'', LineRead ''Port = 1'', LineRead ''Host=h'']"
        "\<lambda>_. True" "[LineRead '' Port=2 # mine'', LineRead ''Port=3'', LineRead ''Prot = 4'']" config_new]
    unfolding example_entries by (auto simp: example_files_def readable_def)
qed

text \<open>
  A value that cannot be converted gives the default of the type, not the default the caller
  asked for.
\<close>

lemma bad_value_ignores_default:
  assumes "opts option = Some s" "StringTo_option t s = None"
  shows "fst (Discord_GetOption c t option (Some def) opts) = GetDefaultValue t"
  using assms by (simp add: Discord_GetOption_def)

text \<open>Reading an option back in the type it was stored with.\<close>

lemma type_default: "type_of t (GetDefaultValue t)"
  by (cases t) (auto simp: in_range_def)

lemma StringTo_typed: "StringTo_option t s = Some v \<Longrightarrow> type_of t v"
  by (cases t) (auto dest: FromString_in_range)

lemma StringTo_stored:
  assumes "type_of t v"
  shows "StringTo_option t (case v of StringValue s \<Rightarrow> s | BoolValue b \<Rightarrow> For_bool_ToString b
    | IntValue i \<Rightarrow> format_value (IntValue i)) = Some v"
proof (cases t)
  case BoolOption
  have "For_bool_FromString False ''1'' = Some True" "For_bool_FromString False ''0'' = Some False" by code_simp+
  then have "For_bool_FromString False (For_bool_ToString b) = Some b" for b
    by (cases b) (simp_all add: For_bool_ToString_def)
  with assms BoolOption show ?thesis by auto
next
  case (IntOption it)
  with assms obtain i where "v = IntValue i" "in_range it i" by auto
  with FromString_digits [OF this(2) refl] show ?thesis by (simp add: IntOption)
qed (use assms in auto)

text \<open>
  C32: the options of the client are typed.  Whatever the configuration files hold, whatever
  default is given, and whatever was stored under the name before, \<open>GetOption\<close> of a type
  returns a value of that type, in its range; and a value set for an option that exists is
  what the next \<open>GetOption\<close> of its type returns.
\<close>
theorem options_are_typed:
  "type_of t (fst (Discord_GetOption c t option def opts)) \<and>
   (type_of t v \<and> opts option \<noteq> None \<longrightarrow>
     fst (Discord_GetOption c t option def (Discord_SetOption option v opts)) = v)"
proof -
  have "type_of t (fst (Discord_GetOption c t option def opts))"
    using type_default [of t] StringTo_typed [of t] by (auto simp: Discord_GetOption_def Let_def split: option.split)
  moreover have "fst (Discord_GetOption c t option def (Discord_SetOption option v opts)) = v"
    if "type_of t v" "opts option \<noteq> None"
    using StringTo_stored [OF that(1)] that(2) by (auto simp: Discord_GetOption_def Discord_SetOption_def)
  ultimately show ?thesis by blast
qed

theorem options_are_typed_witness:
  "fst (Discord_GetOption config_new BoolOption ''a'' None (Discord_SetOption ''a'' (BoolValue True) [''a'' \<mapsto> ''x''])) =
    BoolValue True"
  using options_are_typed [of BoolOption config_new "''a''" None "[''a'' \<mapsto> ''x'']" "BoolValue True"] by auto

end
