(* ===== verification/Logging.thy ===== *)
theory Logging
  imports PocoLogging Config "HOL-Library.Multiset"
begin

text \<open>
  \<^verbatim>\<open>src/common/Logging/Log.cpp\<close> and \<^verbatim>\<open>Log.h\<close>: the loggers and channels of the configuration
  file, the choice of the logger for a message and the logging macros.

  The registry of Poco's loggers is a field of the state.  What the program prints to the
  standard output about a bad configuration is left out.  \<open>order\<close> is the order in which
  the hash map of options is enumerated; \<open>fmt\<close> is \<open>fmt::format\<close>, the text or the message of
  the exception it throws.
\<close>

section \<open>State\<close>

definition LOG_LEVEL_DISABLED :: int where "LOG_LEVEL_DISABLED = 0"
definition LOG_LEVEL_FATAL :: int where "LOG_LEVEL_FATAL = 1"
definition LOG_LEVEL_ERROR :: int where "LOG_LEVEL_ERROR = 3"
definition LOG_LEVEL_TRACE :: int where "LOG_LEVEL_TRACE = 8"
definition LOG_LEVEL_MAX :: int where "LOG_LEVEL_MAX = 9"

lemmas level_defs = LOG_LEVEL_DISABLED_def LOG_LEVEL_FATAL_def LOG_LEVEL_ERROR_def
  LOG_LEVEL_TRACE_def LOG_LEVEL_MAX_def

record log_state =
  log_logsDir :: string
  log_highest :: int                           \<comment> \<open>\<open>highestLogLevel\<close>\<close>
  log_channelStore :: "string \<rightharpoonup> channel"
  log_loggers :: logger_map

definition uint8_type :: int_type where
  "uint8_type = \<lparr>it_signed = False, it_bits = 8\<rparr>"

section \<open>Options\<close>

definition GetPositionOptions :: "string \<Rightarrow> nat \<Rightarrow> string \<Rightarrow> string" where
  "GetPositionOptions options position def =
     (let tokens = Tokenize options (CHR '','') True
      in if length tokens mod 256 < position + 1 then def else tokens ! position)"

definition GetChannelsFromLogger :: "config \<Rightarrow> string \<Rightarrow> string result" where
  "GetChannelsFromLogger c loggerName =
     (let tokens = Tokenize (GetOption_string (''Logger.'' @ loggerName) ''6, Console Server'' c) (CHR '','') True
      in if tokens = [] then Inr []
         else if length tokens \<le> 1 then Inl (OutOfRange ''vector::at'') else Inr (tokens ! 1))"

definition InitLogsDir :: "config \<Rightarrow> log_state \<Rightarrow> log_state" where
  "InitLogsDir c l =
     (let dir = GetOption_string ''LogsDir'' [] c
      in l\<lparr>log_logsDir :=
           (if dir \<noteq> [] \<and> List.last dir \<noteq> CHR ''/'' \<and> List.last dir \<noteq> CHR 0x5C then dir @ ''/'' else dir)\<rparr>)"

section \<open>Channels\<close>

definition GetFormattingChannel :: "log_state \<Rightarrow> string \<Rightarrow> channel option" where
  "GetFormattingChannel l channelName = log_channelStore l channelName"

definition AddFormattingChannel :: "string \<Rightarrow> channel \<Rightarrow> log_state \<Rightarrow> log_state" where
  "AddFormattingChannel channelName ch l =
     (case GetFormattingChannel l channelName of
        Some _ \<Rightarrow> l
      | None \<Rightarrow> l\<lparr>log_channelStore := (log_channelStore l)(channelName \<mapsto> ch)\<rparr>)"

text \<open>The settings in a \<open>try\<close> block whose handler prints the exception.\<close>

definition try_properties :: "(string \<Rightarrow> string \<Rightarrow> 'c \<Rightarrow> 'c setting) \<Rightarrow> (string \<times> string) list \<Rightarrow> 'c \<Rightarrow> 'c result" where
  "try_properties setProperty ps c =
     (case set_properties setProperty ps c of
        (_, Some IntOverflow) \<Rightarrow> Inl UndefinedBehaviour
      | (c', _) \<Rightarrow> Inr c')"

definition console_channel :: "string \<Rightarrow> color_console result" where
  "console_channel colorOptions =
     (let tokensColor = Tokenize colorOptions (CHR '' '') False;
          noColors = fst (ColorConsoleChannel_setProperty ''enableColors'' ''false'' ColorConsoleChannel_new)
      in if colorOptions \<noteq> [] then
           (if int (length tokensColor) = LOG_LEVEL_TRACE then
              try_properties ColorConsoleChannel_setProperty
                [(''fatalColor'', tokensColor ! 0), (''criticalColor'', tokensColor ! 1),
                 (''errorColor'', tokensColor ! 2), (''warningColor'', tokensColor ! 3),
                 (''noticeColor'', tokensColor ! 4), (''informationColor'', tokensColor ! 5),
                 (''debugColor'', tokensColor ! 6), (''traceColor'', tokensColor ! 7)] ColorConsoleChannel_new
            else Inr noColors)
         else Inr noColors)"

definition file_properties :: "string \<Rightarrow> string \<Rightarrow> string \<Rightarrow> (string \<times> string) list" where
  "file_properties logsDir options otimes =
     (let fileName = GetPositionOptions options 3 [];
          rotateOnOpen = GetPositionOptions options 4 [];
          rotation = GetPositionOptions options 5 [];
          flush = GetPositionOptions options 6 [];
          purgeAge = GetPositionOptions options 7 [];
          archive = GetPositionOptions options 8 []
      in [(''path'', logsDir @ fileName), (''times'', otimes)] @
         filter (\<lambda>(_, v). v \<noteq> [])
           [(''rotateOnOpen'', rotateOnOpen), (''rotation'', rotation), (''flush'', flush),
            (''purgeAge'', purgeAge), (''archive'', archive)])"

definition CreateChannelsFromConfig :: "poco_env \<Rightarrow> config \<Rightarrow> string \<Rightarrow> log_state \<Rightarrow> log_state result" where
  "CreateChannelsFromConfig env c logChannelName l =
     (if logChannelName = [] then Inr l
      else if length logChannelName < 11 then Inl (OutOfRange ''basic_string::substr'')
      else
        let options = GetOption_string logChannelName [] c;
            channelName = drop 11 logChannelName;
            tokens = Tokenize options (CHR '','') True
        in if options = [] then Inr l
           else if length tokens < 3 then Inr l
           else if 9 < length tokens then Inr l
           else
             let otimes = GetPositionOptions options 1 [];
                 pattern = GetPositionOptions options 2 []
             in case For_int_FromString uint8_type 10 (GetPositionOptions options 0 []) of
                  None \<Rightarrow> Inr l
                | Some channelType \<Rightarrow>
                    if 2 < channelType then Inr l
                    else if otimes = [] then Inr l
                    else if pattern = [] then Inr l
                    else
                      rbind (try_properties PatternFormatter_setProperty
                          [(''pattern'', pattern), (''times'', otimes)] PatternFormatter_new) (\<lambda>pf.
                        if channelType = 1 then
                          rbind (console_channel (GetPositionOptions options 3 [])) (\<lambda>ch.
                            Inr (AddFormattingChannel channelName
                              (FormattingChannel (Some pf) (Some (ConsoleChannel ch))) l))
                        else if channelType = 2 then
                          (if length tokens < 4 then Inl AssertionFailed
                           else rbind (try_properties (FileChannel_setProperty env)
                                  (file_properties (log_logsDir l) options otimes) FileChannel_new) (\<lambda>ch.
                                Inr (AddFormattingChannel channelName
                                  (FormattingChannel (Some pf) (Some (FileChannel ch))) l)))
                        else Inr l))"

section \<open>Loggers\<close>

text \<open>The loop over the channels of a logger: nothing when one of them is unknown.\<close>

fun collect_channels :: "log_state \<Rightarrow> string list \<Rightarrow> channel list option" where
  "collect_channels l [] = Some []"
| "collect_channels l (n # ns) =
     (case GetFormattingChannel l n of
        None \<Rightarrow> None
      | Some ch \<Rightarrow> map_option ((#) ch) (collect_channels l ns))"

definition CreateLoggerFromConfig :: "config \<Rightarrow> string \<Rightarrow> log_state \<Rightarrow> log_state result" where
  "CreateLoggerFromConfig c configLoggerName l =
     (if configLoggerName = [] then Inr l
      else if length configLoggerName < 7 then Inl (OutOfRange ''basic_string::substr'')
      else
        let options = GetOption_string configLoggerName [] c;
            loggerName = drop 7 configLoggerName;
            tokens = Tokenize options (CHR '','') True
        in if loggerName = ''system'' then Inr l
           else if options = [] then Inr l
           else if length tokens < 2 then Inr l
           else
             let level = (case For_int_FromString uint8_type 10 (GetPositionOptions options 0 []) of
                            Some v \<Rightarrow> v | None \<Rightarrow> LOG_LEVEL_MAX)
             in if LOG_LEVEL_MAX \<le> level then Inr l
                else
                  let l = (if log_highest l < level then l\<lparr>log_highest := level\<rparr> else l)
                  in case collect_channels l (Tokenize (GetPositionOptions options 1 []) (CHR '' '') False) of
                       None \<Rightarrow> Inr l
                     | Some chs \<Rightarrow>
                         (case Logger_create loggerName (Some (SplitterChannel chs)) level (log_loggers l) of
                            Inl _ \<Rightarrow> Inr l
                          | Inr loggers \<Rightarrow> Inr (l\<lparr>log_loggers := loggers\<rparr>)))"

section \<open>Loading\<close>

definition Log_Clear :: "log_state \<Rightarrow> log_state" where
  "Log_Clear l = l\<lparr>log_loggers := Logger_shutdown (log_loggers l), log_channelStore := Map.empty\<rparr>"

fun for_keys :: "(string \<Rightarrow> log_state \<Rightarrow> log_state result) \<Rightarrow> string list \<Rightarrow> log_state \<Rightarrow> log_state result" where
  "for_keys f [] l = Inr l"
| "for_keys f (k # ks) l = rbind (f k l) (for_keys f ks)"

definition ReadChannelsFromConfig :: "poco_env \<Rightarrow> (string set \<Rightarrow> string list) \<Rightarrow> config \<Rightarrow> log_state \<Rightarrow> log_state result" where
  "ReadChannelsFromConfig env order c l =
     for_keys (CreateChannelsFromConfig env c) (order (GetKeysByString ''LogChannel.'' c)) l"

definition ReadLoggersFromConfig :: "(string set \<Rightarrow> string list) \<Rightarrow> config \<Rightarrow> log_state \<Rightarrow> log_state result" where
  "ReadLoggersFromConfig order c l =
     for_keys (CreateLoggerFromConfig c) (order (GetKeysByString ''Logger.'' c)) l"

definition LoadFromConfig :: "poco_env \<Rightarrow> (string set \<Rightarrow> string list) \<Rightarrow> config \<Rightarrow> log_state \<Rightarrow> log_state result" where
  "LoadFromConfig env order c l =
     (let l = InitLogsDir c (Log_Clear (l\<lparr>log_highest := LOG_LEVEL_FATAL\<rparr>))
      in rbind (ReadChannelsFromConfig env order c l) (\<lambda>l.
         rbind (ReadLoggersFromConfig order c l) (\<lambda>l. Inr (l\<lparr>log_channelStore := Map.empty\<rparr>))))"

section \<open>Logging\<close>

text \<open>The name a \<open>string_view\<close> has for a function that takes its \<open>data()\<close>: up to the first zero.\<close>

definition c_str :: "string \<Rightarrow> string" where
  "c_str s = takeWhile (\<lambda>c. code c \<noteq> 0) s"

function GetLoggerByType :: "logger_map \<Rightarrow> string \<Rightarrow> logger option" where
  "GetLoggerByType loggers type =
     (case Logger_find loggers (c_str type) of
        Some lg \<Rightarrow> Some lg
      | None \<Rightarrow>
          if type = ''root'' then None
          else GetLoggerByType loggers (case rfind_dot type of Some found \<Rightarrow> take found type | None \<Rightarrow> ''root''))"
  by pat_completeness auto
termination
  by (relation "measure (\<lambda>(_, t). if t = ''root'' then 0 else Suc (length t))")
    (auto dest: rfind_dot_less split: option.split)

declare GetLoggerByType.simps [simp del]

definition ShouldLog :: "log_state \<Rightarrow> string \<Rightarrow> int \<Rightarrow> bool" where
  "ShouldLog l type level =
     (if log_highest l < level then False
      else case GetLoggerByType (log_loggers l) type of
             None \<Rightarrow> False
           | Some lg \<Rightarrow>
               let logLevel = lg_level lg mod 256
               in logLevel \<noteq> LOG_LEVEL_DISABLED \<and> level \<le> logLevel)"

text \<open>
  \<open>Write\<close> hands the message to the logger with the priority of its level, or does nothing for
  another level; an exception of a channel is printed and dropped.
\<close>

definition Log_Write :: "poco_env \<Rightarrow> log_state \<Rightarrow> string \<Rightarrow> int \<Rightarrow> string \<Rightarrow> log_output list" where
  "Log_Write env l filter_name level text =
     (case GetLoggerByType (log_loggers l) filter_name of
        None \<Rightarrow> []
      | Some lg \<Rightarrow> if 1 \<le> level \<and> level \<le> 8 then fst (Logger_log env lg text (nat level)) else [])"

type_synonym formatter = "string \<Rightarrow> string list \<Rightarrow> string + string"

definition outMessage :: "poco_env \<Rightarrow> formatter \<Rightarrow> log_state \<Rightarrow> string \<Rightarrow> int \<Rightarrow> string \<Rightarrow> string list \<Rightarrow> string + log_output list" where
  "outMessage env fmt l filter_name level format args =
     rbind (fmt format args) (\<lambda>t. Inr (Log_Write env l filter_name level t))"

definition WRONG_FORMAT :: string where
  "WRONG_FORMAT = ''Wrong format occurred ({}) at '' @ [CHR 0x27] @ ''{}:{}'' @ [CHR 0x27]"

text \<open>
  The macros.  The arguments are formatted, and \<open>outMessage\<close> formats the result once more,
  without arguments.  \<open>pos\<close> is the file and the line of the call.
\<close>

definition LOG_EXCEPTION_FREE :: "poco_env \<Rightarrow> formatter \<Rightarrow> log_state \<Rightarrow> string \<times> string \<Rightarrow> string \<Rightarrow> int \<Rightarrow> string \<Rightarrow> string list \<Rightarrow>
    string + log_output list" where
  "LOG_EXCEPTION_FREE env fmt l pos filterType level format args =
     (case rbind (fmt format args) (\<lambda>t. outMessage env fmt l filterType level t []) of
        Inr out \<Rightarrow> Inr out
      | Inl what \<Rightarrow> outMessage env fmt l ''server'' LOG_LEVEL_ERROR WRONG_FORMAT [what, fst pos, snd pos])"

definition LOG_MSG_BODY :: "poco_env \<Rightarrow> formatter \<Rightarrow> log_state \<Rightarrow> string \<times> string \<Rightarrow> string \<Rightarrow> int \<Rightarrow> string \<Rightarrow> string list \<Rightarrow>
    string + log_output list" where
  "LOG_MSG_BODY env fmt l pos filterType level format args =
     (if ShouldLog l filterType level then LOG_EXCEPTION_FREE env fmt l pos filterType level format args else Inr [])"

section \<open>The nearest configured logger\<close>

text \<open>
  The specification of the search: the name, what stands before each of its dots from the last
  to the first, and \<open>root\<close>.
\<close>

definition log_ancestors :: "string \<Rightarrow> string list" where
  "log_ancestors name =
     name # map (\<lambda>i. take i name) (rev (List.filter (\<lambda>i. name ! i = CHR ''.'') [0..<length name])) @ [''root'']"

definition nearest_logger :: "logger_map \<Rightarrow> string \<Rightarrow> logger option" where
  "nearest_logger loggers name =
     (case find (\<lambda>n. loggers n \<noteq> None) (log_ancestors name) of None \<Rightarrow> None | Some n \<Rightarrow> loggers n)"

lemma last_dot_cases:
  obtains "CHR ''.'' \<notin> set name" "rfind_dot name = None"
  | p q where "name = p @ CHR ''.'' # q" "CHR ''.'' \<notin> set q" "rfind_dot name = Some (length p)"
proof (cases "CHR ''.'' \<in> set name")
  case True
  then obtain p q where name: "name = p @ CHR ''.'' # q" and q: "CHR ''.'' \<notin> set q"
    using split_list_last by metis
  have "takeWhile (\<lambda>c. c \<noteq> CHR ''.'') (rev q @ CHR ''.'' # rev p) = rev q"
    using q by (subst takeWhile_append2) auto
  then have "rfind_dot name = Some (length p)" by (simp add: rfind_dot_def name)
  with name q that(2) show ?thesis by blast
next
  case False
  then have "takeWhile (\<lambda>c. c \<noteq> CHR ''.'') (rev name) = rev name" by (auto simp: takeWhile_eq_all_conv)
  then have "length (takeWhile (\<lambda>c. c \<noteq> CHR ''.'') (rev name)) = length name" by (metis length_rev)
  then have "rfind_dot name = None" unfolding rfind_dot_def Let_def by simp
  with False that(1) show ?thesis by blast
qed

lemma log_ancestors_dot:
  assumes "CHR ''.'' \<notin> set q"
  shows "log_ancestors (p @ CHR ''.'' # q) = (p @ CHR ''.'' # q) # log_ancestors p"
proof -
  let ?n = "p @ CHR ''.'' # q" and ?dot = "\<lambda>s i. s ! i = CHR ''.''"
  have idx: "[0..<length ?n] = [0..<length p] @ length p # [Suc (length p)..<length ?n]"
    using upt_add_eq_append [of 0 "length p" "Suc (length q)"] upt_conv_Cons [of "length p" "length p + Suc (length q)"] by simp
  have "?n ! i \<noteq> CHR ''.''" if "i \<in> set [Suc (length p)..<length ?n]" for i
  proof -
    have "?n ! i = q ! (i - Suc (length p))" "i - Suc (length p) < length q" using that by (auto simp: nth_append nth_Cons')
    then show ?thesis using assms by (metis nth_mem)
  qed
  then have "List.filter (?dot ?n) [Suc (length p)..<length ?n] = []" by (simp add: filter_empty_conv)
  moreover have "List.filter (?dot ?n) [0..<length p] = List.filter (?dot p) [0..<length p]"
    by (rule filter_cong) (auto simp: nth_append)
  ultimately have "List.filter (?dot ?n) [0..<length ?n] = List.filter (?dot p) [0..<length p] @ [length p]"
    by (simp only: idx filter_append) simp
  moreover have "map (\<lambda>i. take i ?n) (rev (List.filter (?dot p) [0..<length p])) =
      map (\<lambda>i. take i p) (rev (List.filter (?dot p) [0..<length p]))"
    by auto
  ultimately show ?thesis by (simp add: log_ancestors_def)
qed

lemma log_ancestors_no_dot: "CHR ''.'' \<notin> set name \<Longrightarrow> log_ancestors name = [name, ''root'']"
  by (auto simp: log_ancestors_def filter_empty_conv) (metis nth_mem)

lemma c_str_id:
  assumes "CHR 0x00 \<notin> set s"
  shows "c_str s = s"
proof -
  have zero: "c = CHR 0x00" if "code c = 0" for c
  proof -
    have "char_of (of_char c :: nat) = (char_of (0 :: nat) :: char)" using that by (simp add: code_def)
    then show ?thesis by (simp add: char_of_char) (simp add: char_of_def)
  qed
  have "code c \<noteq> 0" if "c \<in> set s" for c
  proof
    assume "code c = 0"
    from zero [OF this] that assms show False by simp
  qed
  then show ?thesis by (simp add: c_str_def takeWhile_eq_all_conv)
qed

lemma GetLoggerByType_nearest:
  assumes "CHR 0x00 \<notin> set type"
  shows "GetLoggerByType loggers type = nearest_logger loggers type"
  using assms
proof (induction loggers type rule: GetLoggerByType.induct)
  case (1 loggers type)
  show ?case
  proof (cases "loggers type")
    case (Some lg)
    then show ?thesis using c_str_id [OF 1(2)]
      by (simp add: GetLoggerByType.simps [of loggers type] Logger_find_def nearest_logger_def log_ancestors_def)
  next
    case None
    then have find: "Logger_find loggers (c_str type) = None" using c_str_id [OF 1(2)] by (simp add: Logger_find_def)
    show ?thesis
    proof (cases "type = ''root''")
      case True
      then show ?thesis using find None
        by (subst GetLoggerByType.simps) (simp add: nearest_logger_def log_ancestors_no_dot)
    next
      case False
      note IH = "1.IH" [OF find False]
      show ?thesis
      proof (cases rule: last_dot_cases [of type])
        case 1
        then show ?thesis using find None False IH
          by (subst GetLoggerByType.simps) (simp add: nearest_logger_def log_ancestors_no_dot)
      next
        case (2 p q)
        then show ?thesis using find None False IH "1.prems"
          by (subst GetLoggerByType.simps) (simp add: nearest_logger_def log_ancestors_dot)
      qed
    qed
  qed
qed

section \<open>The highest level\<close>

text \<open>
  Every registered logger has a channel, a level of the enumeration and a level no higher than
  the recorded maximum.  Loading a configuration establishes this.
\<close>

definition log_inv :: "log_state \<Rightarrow> bool" where
  "log_inv l \<longleftrightarrow>
     (\<forall>name lg. log_loggers l name = Some lg \<longrightarrow>
        lg_name lg = name \<and> lg_channel lg \<noteq> None \<and> 0 \<le> lg_level lg \<and> lg_level lg < LOG_LEVEL_MAX \<and>
        lg_level lg \<le> log_highest l)"

lemma For_int_FromString_range: "For_int_FromString t base s = Some v \<Longrightarrow> in_range t v"
  by (auto simp: For_int_FromString_def from_chars_def Let_def split: if_splits prod.splits from_chars_ec.splits)

lemma log_inv_fields:
  assumes "log_inv l" "log_loggers l' = log_loggers l" "log_highest l \<le> log_highest l'"
  shows "log_inv l'"
  using assms unfolding log_inv_def by (metis order_trans)

lemma log_inv_create:
  assumes "log_inv l" "0 \<le> level" "level < LOG_LEVEL_MAX" "level \<le> log_highest l"
    and "Logger_create name (Some ch) level (log_loggers l) = Inr loggers"
  shows "log_inv (l\<lparr>log_loggers := loggers\<rparr>)"
  using assms by (auto simp: log_inv_def Logger_create_def split: option.splits if_splits)

lemma for_keys_induct:
  assumes "for_keys f ks l = Inr l'" "P l" "\<And>k l l'. f k l = Inr l' \<Longrightarrow> P l \<Longrightarrow> P l'"
  shows "P l'"
  using assms(1,2)
proof (induction ks arbitrary: l)
  case (Cons k ks)
  then obtain l1 where "f k l = Inr l1" "for_keys f ks l1 = Inr l'" by (auto simp: rbind_eq_Inr)
  with Cons.IH [of l1] Cons.prems(2) assms(3) show ?case by blast
qed simp

lemma AddFormattingChannel_fields:
  "log_loggers (AddFormattingChannel n ch l) = log_loggers l"
  "log_highest (AddFormattingChannel n ch l) = log_highest l"
  by (simp_all add: AddFormattingChannel_def split: option.split)

lemma CreateChannels_inv:
  assumes "CreateChannelsFromConfig env c k l = Inr l'" "log_inv l"
  shows "log_inv l'"
proof -
  have "log_loggers l' = log_loggers l \<and> log_highest l' = log_highest l"
    using assms(1)
    by (auto simp: CreateChannelsFromConfig_def Let_def rbind_eq_Inr AddFormattingChannel_fields
        split: if_splits option.splits)
  then show ?thesis using log_inv_fields [OF assms(2)] by simp
qed

lemma CreateLogger_inv:
  assumes "CreateLoggerFromConfig c k l = Inr l'" "log_inv l"
  shows "log_inv l'"
proof -
  let ?lev = "case For_int_FromString uint8_type 10 (GetPositionOptions (GetOption_string k [] c) 0 []) of
    Some v \<Rightarrow> v | None \<Rightarrow> LOG_LEVEL_MAX"
  define l1 where "l1 = (if log_highest l < ?lev then l\<lparr>log_highest := ?lev\<rparr> else l)"
  have l1: "log_inv l1" "?lev \<le> log_highest l1"
    using log_inv_fields [OF assms(2), of l1] by (auto simp: l1_def)
  have pos: "0 \<le> ?lev"
    by (auto simp: uint8_type_def in_range_def LOG_LEVEL_MAX_def split: option.split dest: For_int_FromString_range)
  consider "l' = l" | "l' = l1"
    | chs loggers where "?lev < LOG_LEVEL_MAX" "l' = l1\<lparr>log_loggers := loggers\<rparr>"
      "Logger_create (drop 7 k) (Some (SplitterChannel chs)) ?lev (log_loggers l1) = Inr loggers"
    using assms(1) unfolding CreateLoggerFromConfig_def Let_def l1_def [symmetric]
    by (auto split: if_splits option.splits sum.splits)
  then show ?thesis
  proof cases
    case 3
    then show ?thesis using log_inv_create [OF l1(1) pos 3(1) l1(2) 3(3)] by simp
  qed (use assms(2) l1 in simp_all)
qed

lemma LoadFromConfig_inv:
  assumes "LoadFromConfig env order c l = Inr l'"
  shows "log_inv l'"
proof -
  let ?l = "InitLogsDir c (Log_Clear (l\<lparr>log_highest := LOG_LEVEL_FATAL\<rparr>))"
  obtain l1 l2 where l1: "ReadChannelsFromConfig env order c ?l = Inr l1"
    and l2: "ReadLoggersFromConfig order c l1 = Inr l2" and l': "l' = l2\<lparr>log_channelStore := Map.empty\<rparr>"
    using assms by (auto simp: LoadFromConfig_def Let_def rbind_eq_Inr)
  have "log_inv ?l" by (simp add: log_inv_def InitLogsDir_def Log_Clear_def Logger_shutdown_def Let_def)
  then have "log_inv l1"
    using for_keys_induct [OF l1 [unfolded ReadChannelsFromConfig_def], of log_inv] CreateChannels_inv by blast
  then have "log_inv l2"
    using for_keys_induct [OF l2 [unfolded ReadLoggersFromConfig_def], of log_inv] CreateLogger_inv by blast
  then show ?thesis using log_inv_fields [of l2 l'] by (simp add: l')
qed

lemma nearest_logger_mem: "nearest_logger loggers name = Some lg \<Longrightarrow> \<exists>n. loggers n = Some lg"
  by (auto simp: nearest_logger_def split: option.splits)

text \<open>The test against the highest level is only a shortcut.\<close>

lemma ShouldLog_nearest:
  assumes "log_inv l" "CHR 0x00 \<notin> set type"
  shows "ShouldLog l type level \<longleftrightarrow>
    (case nearest_logger (log_loggers l) type of
       None \<Rightarrow> False | Some lg \<Rightarrow> lg_level lg \<noteq> LOG_LEVEL_DISABLED \<and> level \<le> lg_level lg)"
proof (cases "nearest_logger (log_loggers l) type")
  case None
  then show ?thesis using assms by (simp add: ShouldLog_def GetLoggerByType_nearest)
next
  case (Some lg)
  then obtain n where "log_loggers l n = Some lg" using nearest_logger_mem by blast
  then have "0 \<le> lg_level lg" "lg_level lg < 256" "lg_level lg \<le> log_highest l"
    using assms(1) by (force simp: log_inv_def LOG_LEVEL_MAX_def)+
  then show ?thesis using Some assms by (auto simp: ShouldLog_def GetLoggerByType_nearest Let_def)
qed

section \<open>The order of the options\<close>

text \<open>
  One option adds at most its own logger or its own channel.  What it adds does not depend on
  what the other options of its kind have added, so that they can be processed in any order.
\<close>

definition logger_level :: "config \<Rightarrow> string \<Rightarrow> int option" where
  "logger_level c k =
     (let options = GetOption_string k [] c;
          level = (case For_int_FromString uint8_type 10 (GetPositionOptions options 0 []) of
                     Some v \<Rightarrow> v | None \<Rightarrow> LOG_LEVEL_MAX)
      in if drop 7 k = ''system'' \<or> options = [] \<or> length (Tokenize options (CHR '','') True) < 2 \<or> LOG_LEVEL_MAX \<le> level
         then None else Some level)"

definition logger_entry :: "config \<Rightarrow> log_state \<Rightarrow> string \<Rightarrow> logger option" where
  "logger_entry c l k =
     (case logger_level c k of
        None \<Rightarrow> None
      | Some level \<Rightarrow>
          map_option (\<lambda>chs. \<lparr>lg_name = drop 7 k, lg_channel = Some (SplitterChannel chs), lg_level = level\<rparr>)
            (collect_channels l (Tokenize (GetPositionOptions (GetOption_string k [] c) 1 []) (CHR '' '') False)))"

definition raise_highest :: "int option \<Rightarrow> log_state \<Rightarrow> log_state" where
  "raise_highest level l = (case level of None \<Rightarrow> l | Some v \<Rightarrow> l\<lparr>log_highest := max (log_highest l) v\<rparr>)"

definition add_logger :: "logger option \<Rightarrow> log_state \<Rightarrow> log_state" where
  "add_logger entry l =
     (case entry of
        None \<Rightarrow> l
      | Some lg \<Rightarrow> if log_loggers l (lg_name lg) = None then l\<lparr>log_loggers := (log_loggers l)(lg_name lg \<mapsto> lg)\<rparr> else l)"

lemma collect_channels_cong:
  "log_channelStore l = log_channelStore l' \<Longrightarrow> collect_channels l ns = collect_channels l' ns"
  by (induction ns) (simp_all add: GetFormattingChannel_def split: option.split)

lemma CreateLogger_eq:
  assumes "7 \<le> length k"
  shows "CreateLoggerFromConfig c k l = Inr (add_logger (logger_entry c l k) (raise_highest (logger_level c k) l))"
proof (cases "logger_level c k")
  case None
  then show ?thesis
    using assms by (auto simp: CreateLoggerFromConfig_def logger_level_def logger_entry_def raise_highest_def
        add_logger_def Let_def split: if_splits)
next
  case (Some level)
  let ?options = "GetOption_string k [] c"
  let ?names = "Tokenize (GetPositionOptions ?options 1 []) (CHR '' '') False"
  define l1 where "l1 = (if log_highest l < level then l\<lparr>log_highest := level\<rparr> else l)"
  have r: "raise_highest (Some level) l = l1" by (simp add: raise_highest_def l1_def)
  have cc: "collect_channels l1 ?names = collect_channels l ?names"
    by (rule collect_channels_cong) (simp add: l1_def)
  have "CreateLoggerFromConfig c k l =
    (case collect_channels l1 ?names of
       None \<Rightarrow> Inr l1
     | Some chs \<Rightarrow>
         (case Logger_create (drop 7 k) (Some (SplitterChannel chs)) level (log_loggers l1) of
            Inl _ \<Rightarrow> Inr l1 | Inr loggers \<Rightarrow> Inr (l1\<lparr>log_loggers := loggers\<rparr>)))"
    using assms Some unfolding l1_def
    by (auto simp: CreateLoggerFromConfig_def logger_level_def Let_def split: if_splits)
  then show ?thesis
    by (auto simp: logger_entry_def Some r cc [unfolded One_nat_def] add_logger_def Logger_create_def Logger_find_def split: option.split)
qed

lemma logger_fields [simp]:
  "log_channelStore (raise_highest v l) = log_channelStore l"
  "log_loggers (raise_highest v l) = log_loggers l"
  "log_channelStore (add_logger e l) = log_channelStore l"
  "log_highest (add_logger e l) = log_highest l"
  by (simp_all add: raise_highest_def add_logger_def split: option.split)

lemma logger_entry_cong:
  "log_channelStore l = log_channelStore l' \<Longrightarrow> logger_entry c l k = logger_entry c l' k"
  by (simp add: logger_entry_def collect_channels_cong [of l l'] split: option.split)

lemma raise_highest_commute:
  "raise_highest v (raise_highest w l) = raise_highest w (raise_highest v l)"
  "raise_highest v (add_logger e l) = add_logger e (raise_highest v l)"
  by (auto simp: raise_highest_def add_logger_def max.left_commute max.commute split: option.split)

lemma add_logger_commute:
  assumes "\<And>lg lg'. e = Some lg \<Longrightarrow> e' = Some lg' \<Longrightarrow> lg_name lg \<noteq> lg_name lg'"
  shows "add_logger e (add_logger e' l) = add_logger e' (add_logger e l)"
  using assms by (auto simp: add_logger_def fun_upd_twist split: option.split)

lemma CreateLogger_commute:
  assumes "7 \<le> length k" "7 \<le> length k'" "drop 7 k \<noteq> drop 7 k'"
  shows "rbind (CreateLoggerFromConfig c k l) (CreateLoggerFromConfig c k') =
    rbind (CreateLoggerFromConfig c k' l) (CreateLoggerFromConfig c k)"
proof -
  have name: "lg_name lg = drop 7 j" if "logger_entry c l j = Some lg" for j lg
    using that by (auto simp: logger_entry_def split: option.splits)
  have cong: "logger_entry c (add_logger (logger_entry c l i) (raise_highest v l)) j = logger_entry c l j" for i j v
    by (rule logger_entry_cong) simp
  have "add_logger (logger_entry c l k') (add_logger (logger_entry c l k) m) =
      add_logger (logger_entry c l k) (add_logger (logger_entry c l k') m)" for m
    using assms(3) name by (intro add_logger_commute) metis
  then show ?thesis
    by (simp add: CreateLogger_eq assms(1,2) cong raise_highest_commute)
qed

text \<open>The channel an option adds: looked at in an empty store.\<close>

definition channel_entry :: "poco_env \<Rightarrow> config \<Rightarrow> string \<Rightarrow> string \<Rightarrow> channel option result" where
  "channel_entry env c logsDir k =
     rbind (CreateChannelsFromConfig env c k
         \<lparr>log_logsDir = logsDir, log_highest = 0, log_channelStore = Map.empty, log_loggers = Map.empty\<rparr>)
       (\<lambda>l. Inr (log_channelStore l (drop 11 k)))"

definition add_channel :: "string \<Rightarrow> channel option \<Rightarrow> log_state \<Rightarrow> log_state" where
  "add_channel name entry l = (case entry of None \<Rightarrow> l | Some ch \<Rightarrow> AddFormattingChannel name ch l)"

lemma CreateChannels_eq:
  "CreateChannelsFromConfig env c k l =
    rbind (channel_entry env c (log_logsDir l) k) (\<lambda>entry. Inr (add_channel (drop 11 k) entry l))"
proof -
  have add: "log_channelStore (AddFormattingChannel n ch
      \<lparr>log_logsDir = d, log_highest = 0, log_channelStore = Map.empty, log_loggers = Map.empty\<rparr>) n = Some ch" for n ch d
    by (simp add: AddFormattingChannel_def GetFormattingChannel_def)
  show ?thesis
    unfolding channel_entry_def CreateChannelsFromConfig_def Let_def
    by (auto simp: rbind_def add add_channel_def split: option.split sum.split)
qed

lemma CreateChannels_commute:
  assumes "drop 11 k \<noteq> drop 11 k'"
    and "rbind (CreateChannelsFromConfig env c k l) (CreateChannelsFromConfig env c k') = Inr m"
  shows "rbind (CreateChannelsFromConfig env c k' l) (CreateChannelsFromConfig env c k) = Inr m"
proof -
  have dir: "log_logsDir (add_channel n e l) = log_logsDir l" for n e
    by (simp add: add_channel_def AddFormattingChannel_def split: option.split)
  have "add_channel (drop 11 k) e (add_channel (drop 11 k') e' l) =
      add_channel (drop 11 k') e' (add_channel (drop 11 k) e l)" for e e'
    using assms(1)
    by (auto simp: add_channel_def AddFormattingChannel_def GetFormattingChannel_def fun_upd_twist split: option.split)
  then show ?thesis
    using assms(2) unfolding CreateChannels_eq by (auto simp: rbind_eq_Inr dir)
qed

text \<open>The interface: a step per option, any two of which can be exchanged when they succeed.\<close>

locale independent_options =
  fixes step :: "string \<Rightarrow> log_state \<Rightarrow> log_state result"
    and keys :: "string set"
  assumes exchange: "\<lbrakk>k \<in> keys; k' \<in> keys; k \<noteq> k'; rbind (step k l) (step k') = Inr m\<rbrakk> \<Longrightarrow>
    rbind (step k' l) (step k) = Inr m"
begin

definition run :: "string \<Rightarrow> log_state option \<Rightarrow> log_state option" where
  "run k r = (case r of None \<Rightarrow> None | Some l \<Rightarrow> (case step k l of Inl _ \<Rightarrow> None | Inr l' \<Rightarrow> Some l'))"

lemma for_keys_run: "for_keys step ks l = Inr l' \<longleftrightarrow> fold run ks (Some l) = Some l'"
proof (induction ks arbitrary: l)
  case (Cons k ks)
  have none: "fold run js None = None" for js by (induction js) (simp_all add: run_def)
  have "run k (Some l) = (case step k l of Inl _ \<Rightarrow> None | Inr l1 \<Rightarrow> Some l1)" by (simp add: run_def)
  then show ?case by (cases "step k l") (simp_all add: none Cons.IH)
qed simp

lemma run_Some2: "run k (run k' (Some l)) = Some m \<longleftrightarrow> rbind (step k' l) (step k) = Inr m"
  by (cases "step k' l") (auto simp: run_def split: sum.split)

lemma run_commute:
  assumes "k \<in> keys" "k' \<in> keys"
  shows "run k \<circ> run k' = run k' \<circ> run k"
proof (cases "k = k'")
  case False
  have "run k (run k' r) = run k' (run k r)" for r
  proof (cases r)
    case (Some l)
    show ?thesis
    proof (cases "run k (run k' r)")
      case None
      then show ?thesis using exchange [OF assms False] run_Some2 Some by (metis not_None_eq)
    next
      case (Some m)
      then show ?thesis using exchange [OF assms(2,1)] False run_Some2 \<open>r = Some l\<close> by metis
    qed
  qed (simp add: run_def)
  then show ?thesis by auto
qed simp

lemma any_order:
  assumes "for_keys step ks l = Inr l'" "set ks \<subseteq> keys" "distinct ks" "distinct ks'" "set ks' = set ks"
  shows "for_keys step ks' l = Inr l'"
proof -
  have "mset ks = mset ks'" using assms by (simp add: set_eq_iff_mset_eq_distinct)
  then have "fold run ks = fold run ks'" using run_commute assms(2) by (intro fold_multiset_equiv) auto
  then show ?thesis using assms(1) by (simp add: for_keys_run)
qed

end

lemma prefixed_drop:
  assumes "take n k = p" "take n k' = p" "k \<noteq> k'"
  shows "drop n k \<noteq> drop n k'"
  using assms by (metis append_take_drop_id)

interpretation logger_options: independent_options "CreateLoggerFromConfig c" "{k. take 7 k = ''Logger.''}" for c
proof
  fix k k' l m
  assume k: "k \<in> {k. take 7 k = ''Logger.''}" "k' \<in> {k. take 7 k = ''Logger.''}" "k \<noteq> k'"
  have len: "7 \<le> length j" if "take 7 j = ''Logger.''" for j :: string
    using arg_cong [OF that, of length] by simp
  assume "rbind (CreateLoggerFromConfig c k l) (CreateLoggerFromConfig c k') = Inr m"
  then show "rbind (CreateLoggerFromConfig c k' l) (CreateLoggerFromConfig c k) = Inr m"
    using CreateLogger_commute [of k k' c l] prefixed_drop [of 7 k "''Logger.''" k'] len k by simp
qed

interpretation channel_options: independent_options "CreateChannelsFromConfig env c" "{k. take 11 k = ''LogChannel.''}" for env c
proof
  fix k k' l m
  assume k: "k \<in> {k. take 11 k = ''LogChannel.''}" "k' \<in> {k. take 11 k = ''LogChannel.''}" "k \<noteq> k'"
  then have "drop 11 k \<noteq> drop 11 k'" using prefixed_drop [of 11 k "''LogChannel.''" k'] by simp
  then show "rbind (CreateChannelsFromConfig env c k l) (CreateChannelsFromConfig env c k') = Inr m \<Longrightarrow>
    rbind (CreateChannelsFromConfig env c k' l) (CreateChannelsFromConfig env c k) = Inr m"
    using CreateChannels_commute by blast
qed

section \<open>The shipped configuration\<close>

text \<open>The logging options of \<^verbatim>\<open>src/app/WarheadDiscordClient.conf.dist\<close>, and a fixed date.\<close>

definition shipped_config :: config where
  "shipped_config = config_new\<lparr>cf_options :=
    [''LogChannel.Console'' \<mapsto> ''1,local,[%H:%M:%S] %t,lightRed lightRed red brown magenta cyan lightMagenta green'',
     ''LogChannel.Discord'' \<mapsto> ''2,local,%Y-%m-%d %H:%M:%S %t,Discord.log,false,never,false,30 days,number'',
     ''Logger.root'' \<mapsto> ''6,Console Discord'']\<rparr>"

definition example_env :: poco_env where
  "example_env = \<lparr>env_dateTime = (\<lambda>_. \<lparr>dt_year = 2021, dt_month = 3, dt_day = 4, dt_hour = 5, dt_minute = 6, dt_second = 7,
      dt_millisecond = 0, dt_microsecond = 0, dt_dayOfWeek = 4\<rparr>),
    env_utcOffset = 0, env_dst = 0, env_nodeName = ''node'', env_tzdISO = (\<lambda>_. ''Z''), env_tzdRFC = (\<lambda>_. ''GMT''),
    env_getFileName = (\<lambda>f. f), env_rotateAtTime = (\<lambda>_ _. None), env_now = 0, env_pid = 1, env_tid = 1, env_thread = []\<rparr>"

definition log_new :: log_state where
  "log_new = \<lparr>log_logsDir = [], log_highest = 0, log_channelStore = Map.empty, log_loggers = Map.empty\<rparr>"

definition console_first :: "string set \<Rightarrow> string list" where
  "console_first S = (if ''LogChannel.Console'' \<in> S then [''LogChannel.Console'', ''LogChannel.Discord''] else [''Logger.root''])"

definition discord_first :: "string set \<Rightarrow> string list" where
  "discord_first S = (if ''LogChannel.Console'' \<in> S then [''LogChannel.Discord'', ''LogChannel.Console''] else [''Logger.root''])"

lemma shipped_keys:
  "GetKeysByString ''LogChannel.'' shipped_config = {''LogChannel.Console'', ''LogChannel.Discord''}"
  "GetKeysByString ''Logger.'' shipped_config = {''Logger.root''}"
  by (auto simp: GetKeysByString_def shipped_config_def split: if_splits)

definition action :: "string \<Rightarrow> char \<Rightarrow> pattern_action" where
  "action prepend key = \<lparr>pa_key = key, pa_length = 0, pa_property = [], pa_prepend = prepend\<rparr>"

definition shipped_formatter :: "string \<Rightarrow> pattern_action list \<Rightarrow> pattern_formatter" where
  "shipped_formatter pattern actions =
    \<lparr>pf_localTime = True, pf_pattern = pattern, pf_patternActions = actions,
     pf_priorityNames = DEFAULT_PRIORITY_NAMES,
     pf_priorities = [''Fatal'', ''Critical'', ''Error'', ''Warning'', ''Notice'', ''Information'', ''Debug'', ''Trace'']\<rparr>"

definition shipped_console :: channel where
  "shipped_console = FormattingChannel
     (Some (shipped_formatter ''[%H:%M:%S] %t''
       [action ''['' (CHR ''H''), action '':'' (CHR ''M''), action '':'' (CHR ''S''), action ''] '' (CHR ''t'')]))
     (Some (ConsoleChannel \<lparr>cc_enableColors = True,
        cc_colors = [0x27, 0x11f, 0x11f, 0x1f, 0x21, 0x23, 0x24, 0x123, 0x20]\<rparr>))"

definition shipped_file :: channel where
  "shipped_file = FormattingChannel
     (Some (shipped_formatter ''%Y-%m-%d %H:%M:%S %t''
       [action [] (CHR ''Y''), action ''-'' (CHR ''m''), action ''-'' (CHR ''d''), action '' '' (CHR ''H''),
        action '':'' (CHR ''M''), action '':'' (CHR ''S''), action '' '' (CHR ''t'')]))
     (Some (FileChannel (FileChannel_new\<lparr>fc_path := ''Discord.log'', fc_times := ''local'', fc_rotation := ''never'',
        fc_archive := ''number'', fc_purgeAge := ''30 days'', fc_flush := False,
        fc_purgeStrategy := Some (Inl (30 * DAYS))\<rparr>)))"

definition shipped_log :: log_state where
  "shipped_log = log_new\<lparr>log_highest := 6, log_loggers :=
     [''root'' \<mapsto> \<lparr>lg_name = ''root'', lg_channel = Some (SplitterChannel [shipped_console, shipped_file]), lg_level = 6\<rparr>]\<rparr>"

lemma shipped_entries:
  "channel_entry example_env shipped_config [] ''LogChannel.Console'' = Inr (Some shipped_console)"
  "channel_entry example_env shipped_config [] ''LogChannel.Discord'' = Inr (Some shipped_file)"
  "logger_level shipped_config ''Logger.root'' = Some 6"
  "Tokenize (GetPositionOptions (GetOption_string ''Logger.root'' [] shipped_config) 1 []) (CHR '' '') False =
    [''Console'', ''Discord'']"
  by code_simp+

lemma shipped_load:
  "LoadFromConfig example_env console_first shipped_config log_new = Inr shipped_log"
proof -
  let ?l = "log_new\<lparr>log_highest := 1, log_channelStore := [''Console'' \<mapsto> shipped_console, ''Discord'' \<mapsto> shipped_file]\<rparr>"
  have init: "InitLogsDir shipped_config (Log_Clear (log_new\<lparr>log_highest := LOG_LEVEL_FATAL\<rparr>)) = log_new\<lparr>log_highest := 1\<rparr>"
    by (simp add: InitLogsDir_def Log_Clear_def log_new_def shipped_config_def GetOption_string_def
        GetValueDefault_string_def Logger_shutdown_def LOG_LEVEL_FATAL_def Let_def)
  have channels: "ReadChannelsFromConfig example_env console_first shipped_config (log_new\<lparr>log_highest := 1\<rparr>) = Inr ?l"
    by (simp add: ReadChannelsFromConfig_def shipped_keys console_first_def CreateChannels_eq shipped_entries
        add_channel_def AddFormattingChannel_def GetFormattingChannel_def log_new_def)
  have entry: "logger_entry shipped_config ?l ''Logger.root'' =
      Some \<lparr>lg_name = ''root'', lg_channel = Some (SplitterChannel [shipped_console, shipped_file]), lg_level = 6\<rparr>"
    unfolding logger_entry_def shipped_entries by (simp add: GetFormattingChannel_def)
  have "ReadLoggersFromConfig console_first shipped_config ?l =
      Inr (add_logger (logger_entry shipped_config ?l ''Logger.root'') (raise_highest (Some 6) ?l))"
    by (simp add: ReadLoggersFromConfig_def shipped_keys console_first_def CreateLogger_eq shipped_entries)
  then show ?thesis
    unfolding LoadFromConfig_def Let_def init channels entry
    by (simp add: add_logger_def raise_highest_def shipped_log_def log_new_def)
qed

section \<open>Properties\<close>

text \<open>
  C33: a message reaches the channels of the nearest configured logger.  After any configuration
  has been loaded, a message whose text survives being formatted goes to the logger named like
  its filter or, failing that, by the longest of the filter's parts before a dot that names a
  logger, or to \<open>root\<close>; it is written to the channels of that logger in order if its level
  is within the logger's, and nowhere otherwise.  The shortcut by the highest level of all
  loggers loses nothing.
\<close>
theorem log_reaches_nearest_logger:
  assumes "LoadFromConfig env order c l0 = Inr l"
    and "CHR 0x00 \<notin> set filter_name" "1 \<le> level" "level \<le> 8"
    and "fmt format args = Inr t" "fmt t [] = Inr t"
  shows "LOG_MSG_BODY env fmt l pos filter_name level format args =
    (case nearest_logger (log_loggers l) filter_name of
       None \<Rightarrow> Inr []
     | Some lg \<Rightarrow>
         if level \<le> lg_level lg
         then Inr (fst (Channel_log env (the (lg_channel lg)) (Message_new env (lg_name lg) t (nat level))))
         else Inr [])"
proof -
  have inv: "log_inv l" using LoadFromConfig_inv [OF assms(1)] .
  show ?thesis
  proof (cases "nearest_logger (log_loggers l) filter_name")
    case None
    then show ?thesis by (simp add: LOG_MSG_BODY_def ShouldLog_nearest [OF inv assms(2)])
  next
    case (Some lg)
    then obtain n where "log_loggers l n = Some lg" using nearest_logger_mem by blast
    then obtain ch where ch: "lg_channel lg = Some ch" using inv by (auto simp: log_inv_def)
    show ?thesis
      using assms(3,4) Some ch
      by (simp add: LOG_MSG_BODY_def ShouldLog_nearest [OF inv assms(2)] LOG_EXCEPTION_FREE_def outMessage_def assms(5,6)
          Log_Write_def GetLoggerByType_nearest [OF assms(2)] Logger_log_def LOG_LEVEL_DISABLED_def)
  qed
qed

theorem log_reaches_nearest_logger_witness:
  "LOG_MSG_BODY example_env (\<lambda>s _. Inr s) shipped_log ([], []) ''network.client'' 6 ''hi'' [] =
    Inr [ConsoleOut ([CHR 0x1B] @ ''[36m[05:06:07] hi'' @ [CHR 0x1B] @ ''[0m'' @ [CHR 0x0A]),
      FileWrite ''Discord.log'' ''2021-03-04 05:06:07 hi'' False]"
proof -
  have n: "map_option lg_name (nearest_logger (log_loggers shipped_log) ''network.client'') = Some ''root''"
    "map_option lg_level (nearest_logger (log_loggers shipped_log) ''network.client'') = Some 6"
    "(case nearest_logger (log_loggers shipped_log) ''network.client'' of None \<Rightarrow> ([], None)
        | Some lg \<Rightarrow> Channel_log example_env (the (lg_channel lg)) (Message_new example_env (lg_name lg) ''hi'' 6)) =
      ([ConsoleOut ([CHR 0x1B] @ ''[36m[05:06:07] hi'' @ [CHR 0x1B] @ ''[0m'' @ [CHR 0x0A]),
        FileWrite ''Discord.log'' ''2021-03-04 05:06:07 hi'' False], None)"
    by code_simp+
  then show ?thesis
    using log_reaches_nearest_logger [OF shipped_load, of "''network.client''" 6 "\<lambda>s _. Inr s" "''hi''" "[]" "''hi''" "([], [])"]
    by (auto split: option.splits)
qed

text \<open>
  C34: the order in which the hash map of options is enumerated does not matter.  When loading
  succeeds for one order of the options it succeeds for every other with the same loggers,
  channels and highest level.
\<close>
theorem logging_order_irrelevant:
  assumes "LoadFromConfig env order c l = Inr l'"
    and "\<forall>p \<in> {''LogChannel.'', ''Logger.''}. distinct (order (GetKeysByString p c)) \<and>
      set (order (GetKeysByString p c)) = GetKeysByString p c"
    and "\<forall>p \<in> {''LogChannel.'', ''Logger.''}. distinct (order' (GetKeysByString p c)) \<and>
      set (order' (GetKeysByString p c)) = GetKeysByString p c"
  shows "LoadFromConfig env order' c l = Inr l'"
proof -
  have keys: "GetKeysByString ''LogChannel.'' c \<subseteq> {k. take 11 k = ''LogChannel.''}"
    "GetKeysByString ''Logger.'' c \<subseteq> {k. take 7 k = ''Logger.''}"
    by (auto simp: GetKeysByString_def eval_nat_numeral)
  let ?l = "InitLogsDir c (Log_Clear (l\<lparr>log_highest := LOG_LEVEL_FATAL\<rparr>))"
  obtain l1 l2 where l1: "ReadChannelsFromConfig env order c ?l = Inr l1"
    and l2: "ReadLoggersFromConfig order c l1 = Inr l2" and l': "l' = l2\<lparr>log_channelStore := Map.empty\<rparr>"
    using assms(1) by (auto simp: LoadFromConfig_def Let_def rbind_eq_Inr)
  have "ReadChannelsFromConfig env order' c ?l = Inr l1" "ReadLoggersFromConfig order' c l1 = Inr l2"
    using channel_options.any_order [OF l1 [unfolded ReadChannelsFromConfig_def]]
      logger_options.any_order [OF l2 [unfolded ReadLoggersFromConfig_def]] keys assms(2,3)
    by (simp_all add: ReadChannelsFromConfig_def ReadLoggersFromConfig_def)
  then show ?thesis by (simp add: LoadFromConfig_def Let_def l')
qed

theorem logging_order_irrelevant_witness:
  "LoadFromConfig example_env discord_first shipped_config log_new = Inr shipped_log"
  by (rule logging_order_irrelevant [OF shipped_load])
    (auto simp: shipped_keys console_first_def discord_first_def)

text \<open>
  A message is formatted twice.  When the text that formatting the arguments gives is not
  itself accepted as a format, as for a text with a brace, that text is not written: an error
  about a wrong format goes to the logger \<open>server\<close> instead.
\<close>
theorem braces_lose_the_message:
  assumes "ShouldLog l filter_name level"
    and "fmt format args = Inr t" "fmt t [] = Inl what"
    and "fmt WRONG_FORMAT [what, fst pos, snd pos] = Inr e"
  shows "LOG_MSG_BODY env fmt l pos filter_name level format args = Inr (Log_Write env l ''server'' LOG_LEVEL_ERROR e)"
  using assms by (simp add: LOG_MSG_BODY_def LOG_EXCEPTION_FREE_def outMessage_def)

theorem braces_lose_the_message_witness:
  "LOG_MSG_BODY example_env (\<lambda>s as. if s = ''{'' then Inl ''bad'' else if as = [] then Inr s else Inr (hd as))
      shipped_log ([], []) ''client'' 6 ''{}'' [''{''] =
    Inr (Log_Write example_env shipped_log ''server'' LOG_LEVEL_ERROR ''bad'')"
proof -
  have "ShouldLog shipped_log ''client'' 6" by code_simp
  then show ?thesis by (rule braces_lose_the_message) (simp_all add: WRONG_FORMAT_def)
qed

end
