(* ===== verification/Program.thy ===== *)
theory Program
  imports ClientSafety Logging
begin

text \<open>
  \<^verbatim>\<open>src/app/Main.cpp\<close>: the program as a whole.  \<open>start_program\<close> is \<open>main\<close> up to the call of
  \<open>ioContext->run()\<close>: the arguments, the configuration, the logging and the connection
  manager; \<open>program_step\<close> is what then can happen while \<open>run\<close> executes handlers, and its return.

  What the operating system and the build supply is the record \<open>host\<close>: the configuration
  directory, the files, the resolver, the connections, the clock and the revision strings.
  The banner that is logged at the start changes nothing.
\<close>

section \<open>Starting\<close>

record ('a, 'os) host =
  h_configPath :: string
  h_prints :: "string \<Rightarrow> bool"
  h_files :: file_system
  h_env :: poco_env
  h_order :: "string set \<Rightarrow> string list"
  h_endian :: endian
  h_resolve :: "string \<Rightarrow> 'a option"
  h_connect :: "'a \<Rightarrow> int \<Rightarrow> 'os \<Rightarrow> bool \<times> 'os"
  h_now :: "'os \<Rightarrow> int"
  h_write_some :: "'os \<Rightarrow> bytes \<Rightarrow> write_result \<times> 'os"
  h_company :: bytes
  h_version :: bytes

text \<open>The loop over the arguments after the program's name; nothing is \<open>return 1\<close>.\<close>

fun parse_args :: "string \<Rightarrow> string list \<Rightarrow> string option" where
  "parse_args configFile [] = Some configFile"
| "parse_args configFile (arg # args) =
     (if arg = ''-c'' then (case args of [] \<Rightarrow> None | f # rest \<Rightarrow> parse_args f rest)
      else parse_args configFile args)"

text \<open>
  An option of the client without a default, \<open>CONF_GET_BOOL\<close> and the like.  The cache is filled by
  the first look-up of an option; as the configuration is loaded once and each option is asked
  for with one type, the value is that of an empty cache.
\<close>

definition conf_get :: "config \<Rightarrow> option_type \<Rightarrow> string \<Rightarrow> option_value" where
  "conf_get c t name = fst (Discord_GetOption c t name None Map.empty)"

definition uint16_type :: int_type where
  "uint16_type = \<lparr>it_signed = False, it_bits = 16\<rparr>"

definition int64_type :: int_type where
  "int64_type = \<lparr>it_signed = True, it_bits = 64\<rparr>"

fun string_of_value :: "option_value \<Rightarrow> string" where
  "string_of_value (StringValue s) = s"
| "string_of_value _ = []"

fun int_of_value :: "option_value \<Rightarrow> int" where
  "int_of_value (IntValue i) = i"
| "int_of_value _ = 0"

definition conf_bytes :: "config \<Rightarrow> string \<Rightarrow> bytes" where
  "conf_bytes c name = map of_char (string_of_value (conf_get c StringOption name))"

text \<open>The world of the connection manager under a configuration.\<close>

definition world_of :: "('a, 'os) host \<Rightarrow> config \<Rightarrow> ('a, 'os) world" where
  "world_of h c = \<lparr>w_endian = h_endian h, w_now = h_now h,
     w_connect = (\<lambda>a. h_connect h a (int_of_value (conf_get c (IntOption uint16_type) ''Discord.Server.Port''))),
     w_write_some = h_write_some h, w_company = h_company h, w_version = h_version h,
     w_accountName = conf_bytes c ''Discord.Server.Account.Name'',
     w_accountKey = conf_bytes c ''Discord.Server.Account.Key'',
     w_serverID = word_of_int (int_of_value (conf_get c (IntOption int64_type) ''Discord.Server.ID''))\<rparr>"

definition discord_enabled :: "config \<Rightarrow> bool" where
  "discord_enabled c \<longleftrightarrow> conf_get c BoolOption ''Discord.Server.Enable'' = BoolValue True"

datatype ('a, 'os) program =
    Exited nat
  | Crashed cpp_error
  | Running config log_state "'a mgr" 'os

definition start_program :: "('a, 'os) host \<Rightarrow> string list \<Rightarrow> 'os \<Rightarrow> ('a, 'os) program" where
  "start_program h args os =
     (case parse_args (h_configPath h @ ''WarheadDiscordClient.conf'') args of
        None \<Rightarrow> Exited 1
      | Some configFile \<Rightarrow>
          let (loaded, c) = LoadAppConfigs (h_prints h) (h_files h) configFile config_new
          in if \<not> loaded then Exited 1
             else case LoadFromConfig (h_env h) (h_order h) c log_new of
                    Inl err \<Rightarrow> Crashed err
                  | Inr l \<Rightarrow>
                      (case Mgr_Initialize (discord_enabled c)
                          (h_resolve h (string_of_value (conf_get c StringOption ''Discord.Server.Host'')))
                          ClientSocketMgr_new of
                         Inl err \<Rightarrow> Crashed err
                       | Inr m \<Rightarrow> Running c l m os))"

section \<open>Running\<close>

text \<open>The end of \<open>main\<close>: the deleter of \<open>sDiscordHandle\<close> disconnects, and 0 is returned.\<close>

definition finish_program :: "('a, 'os) program \<Rightarrow> ('a, 'os) program" where
  "finish_program p =
     (case p of
        Running c l m os \<Rightarrow> (case Mgr_Disconnect m of Inl err \<Rightarrow> Crashed err | Inr _ \<Rightarrow> Exited 0)
      | _ \<Rightarrow> p)"

text \<open>\<open>run\<close> returns when no handler is ready or waiting and no open socket reads or writes.\<close>

definition out_of_work :: "'a mgr \<Rightarrow> bool" where
  "out_of_work m \<longleftrightarrow> mg_ready m = [] \<and> mg_waits m = [] \<and>
     (case mg_clientSocket m of None \<Rightarrow> True
      | Some s \<Rightarrow> sk_closed s \<or> sk_pendingRead s = None \<and> \<not> sk_pendingWrite s)"

definition after :: "config \<Rightarrow> log_state \<Rightarrow> ('a mgr \<times> 'os) result \<Rightarrow> ('a, 'os) program" where
  "after c l r = (case r of Inl err \<Rightarrow> Crashed err | Inr (m, os) \<Rightarrow> Running c l m os)"

text \<open>
  A handler runs, the timer expires, a read or a write of the open socket completes, another
  part of the program queues a packet, \<open>run\<close> returns.
\<close>

inductive program_step :: "('a, 'os) host \<Rightarrow> ('a, 'os) program \<Rightarrow> ('a, 'os) program \<Rightarrow> bool"
  for h :: "('a, 'os) host" where
  run_handler: "mg_ready m \<noteq> [] \<Longrightarrow>
    program_step h (Running c l m os) (after c l (run_next (world_of h c) os m))"
| timer_expires: "mg_waits m \<noteq> [] \<Longrightarrow> program_step h (Running c l m os) (Running c l (timer_expire m) os)"
| read_done: "mg_clientSocket m = Some s \<Longrightarrow> IsOpen s \<Longrightarrow> sk_pendingRead s = Some x \<Longrightarrow> length data \<le> READ_BLOCK_SIZE \<Longrightarrow>
    mgr_receive (world_of h c) data os m = Some r \<Longrightarrow>
    program_step h (Running c l m os) (after c l (rbind r (\<lambda>m. Inr (m, os))))"
| write_done: "mg_clientSocket m = Some s \<Longrightarrow> \<not> sk_closed s \<Longrightarrow> sk_pendingWrite s \<Longrightarrow>
    program_step h (Running c l m os)
      (after c l (rbind (WriteHandlerWrapper (h_write_some h) os s) (\<lambda>(s, os). Inr (m\<lparr>mg_clientSocket := Some s\<rparr>, os))))"
| queue_packet: "bb_size (pk_buffer p) < 2 ^ 62 \<Longrightarrow>
    program_step h (Running c l m os) (Running c l (Mgr_AddPacketToQueue p m) os)"
| run_returns: "out_of_work m \<Longrightarrow> program_step h (Running c l m os) (finish_program (Running c l m os))"

section \<open>Lemmas\<close>

lemma world_of_simps [simp]:
  "w_endian (world_of h c) = h_endian h" "w_write_some (world_of h c) = h_write_some h"
  "w_company (world_of h c) = h_company h" "w_version (world_of h c) = h_version h"
  by (simp_all add: world_of_def)

text \<open>What a started program has: the states in which \<open>main\<close> reaches \<open>run\<close>.\<close>

lemma start_running:
  assumes "start_program h args os = Running c l m os'"
  shows "Mgr_Initialize (discord_enabled c)
      (h_resolve h (string_of_value (conf_get c StringOption ''Discord.Server.Host''))) ClientSocketMgr_new = Inr m"
    and "os' = os"
  using assms by (auto simp: start_program_def split: option.splits prod.splits sum.splits if_splits)

lemma Initialize_ok:
  assumes "Mgr_Initialize True resolved ClientSocketMgr_new = Inr m"
  shows "mgr_ok e m"
  using assms by (auto simp: Mgr_Initialize_def mgr_ok_def ClientSocketMgr_new_def mgr_defs packets_ok_def PacketQueue_new_def
      split: option.splits)

fun program_ok :: "('a, 'os) host \<Rightarrow> ('a, 'os) program \<Rightarrow> bool" where
  "program_ok h (Exited n) \<longleftrightarrow> n = 0"
| "program_ok h (Crashed err) \<longleftrightarrow> handler_error err"
| "program_ok h (Running c l m os) \<longleftrightarrow> mgr_ok (h_endian h) m \<and> strings_fit (world_of h c)"

lemma program_step_ok:
  assumes "program_step h p p'" "program_ok h p" "write_ok (h_write_some h)"
  shows "program_ok h p'"
  using assms(1)
proof cases
  case (run_handler m c l os)
  with assms(2,3) run_next_safe [of "world_of h c" m os] show ?thesis by (auto simp: after_def)
next
  case (timer_expires m c l os)
  with assms(2) show ?thesis by (simp add: timer_expire_def mgr_ok_def)
next
  case (read_done m s x data c os r l)
  with assms(2) mgr_receive_safe [of "world_of h c" m s x data os] show ?thesis
    by (cases r) (auto simp: after_def)
next
  case (write_done m s c l os)
  with assms(2) have ok: "mgr_ok (h_endian h) m" by simp
  with write_done WriteHandlerWrapper_safe [OF mgr_okD(3) [OF ok write_done(3)] assms(3), of os] assms(2) show ?thesis
    by (auto simp: after_def mgr_ok_def)
next
  case (queue_packet p c l m os)
  with assms(2) show ?thesis
    by (simp add: mgr_ok_def Mgr_AddPacketToQueue_def packets_ok_def AddPacket_def copy_DiscordPacket_def)
next
  case (run_returns m c l os)
  with assms(2) Mgr_Disconnect_safe [of "h_endian h" m] show ?thesis by (auto simp: finish_program_def)
qed

text \<open>With every attempt refused, the first handler gives up.\<close>

lemma unreachable_handler:
  assumes "\<forall>os. \<not> fst (w_connect w a os)" "mg_timer m" "mg_address m = Some a" "mg_clientSocket m = None"
    "mg_ready m = [RunConnect 1]" "mg_waits m = []"
  shows "\<exists>m' os'. run_next w os m = Inr (m', os') \<and> mg_timer m' \<and> mg_ready m' = [] \<and> mg_waits m' = [] \<and>
    mg_clientSocket m' = None"
proof -
  obtain os' where os': "w_connect w a os = (False, os')" using assms(1) by (metis prod.collapse)
  from Mgr_Disconnect_ok [of "m\<lparr>mg_ready := []\<rparr>"] assms(2) obtain m' where
    "Mgr_Disconnect (m\<lparr>mg_ready := []\<rparr>) = Inr m'" "mg_timer m'" "mg_clientSocket m' = None"
    "mg_ready m' = [] @ mg_waits m" "mg_waits m' = []" by auto
  with assms(3-6) os' show ?thesis by (simp add: run_next_def connect_handler_def)
qed

lemma out_of_work_only:
  assumes "program_step h (Running c l m os) p" "mg_ready m = []" "mg_waits m = []" "mg_clientSocket m = None"
    "mg_timer m"
  shows "p = Exited 0 \<or> (\<exists>q. p = Running c l (Mgr_AddPacketToQueue q m) os)"
  using assms(1)
proof cases
  case run_returns
  with Mgr_Disconnect_ok [OF assms(5)] show ?thesis by (auto simp: finish_program_def)
qed (use assms in auto)

section \<open>An example\<close>

definition example_files_of :: "bool \<Rightarrow> file_system" where
  "example_files_of enable name =
     (if name = ''x.dist'' then
        Some [LineRead (if enable then ''Discord.Server.Enable = 1'' else ''Discord.Server.Enable = 0'')]
      else None)"

definition example_host :: "bool \<Rightarrow> (unit, nat) host" where
  "example_host enable = \<lparr>h_configPath = ''etc/'', h_prints = \<lambda>_. True, h_files = example_files_of enable,
     h_env = example_env, h_order = \<lambda>_. [], h_endian = LittleEndian, h_resolve = \<lambda>_. Some (),
     h_connect = (\<lambda>_ _ os. (False, Suc os)), h_now = int, h_write_some = two_bytes_at_a_time,
     h_company = [87], h_version = [49]\<rparr>"

definition example_config :: "bool \<Rightarrow> config" where
  "example_config enable = \<lparr>cf_filename = ''x'',
     cf_options = [''Discord.Server.Enable'' \<mapsto> (if enable then ''1'' else ''0'')], cf_usingDistConfig = True\<rparr>"

lemma example_lines:
  "parse_line ''Discord.Server.Enable = 1'' = Option ''Discord.Server.Enable'' ''1''"
  "parse_line ''Discord.Server.Enable = 0'' = Option ''Discord.Server.Enable'' ''0''"
  by code_simp+

lemma example_loads:
  "LoadAppConfigs (\<lambda>_. True) (example_files_of enable) ''x'' config_new = (True, example_config enable)"
  by (cases enable) (simp_all add: LoadAppConfigs_def LoadInitial_def LoadAdditionalFile_def LoadFile_def ParseFile_def
      example_files_of_def example_lines config_new_def example_config_def AddKey_def)

lemma example_enabled: "discord_enabled (example_config enable) \<longleftrightarrow> enable"
proof -
  have "For_bool_FromString False ''1'' = Some True" "For_bool_FromString False ''0'' = Some False" by code_simp+
  then show ?thesis
    by (simp add: discord_enabled_def conf_get_def Discord_GetOption_def Discord_AddOption_def GetOption_string_def
        GetValueDefault_string_def example_config_def)
qed

lemma example_starts:
  "\<exists>l m. start_program (example_host enable) [''-c'', ''x''] 0 = Running (example_config enable) l m 0"
proof -
  have "parse_args (h_configPath (example_host enable) @ ''WarheadDiscordClient.conf'') [''-c'', ''x''] = Some ''x''"
    by simp
  moreover obtain l where "LoadFromConfig example_env (\<lambda>_. []) (example_config enable) log_new = Inr l"
    by (simp add: LoadFromConfig_def ReadChannelsFromConfig_def ReadLoggersFromConfig_def Let_def)
  moreover obtain m where "Mgr_Initialize (discord_enabled (example_config enable))
      (h_resolve (example_host enable) (string_of_value (conf_get (example_config enable) StringOption ''Discord.Server.Host'')))
      ClientSocketMgr_new = Inr m"
    by (cases enable) (simp_all add: example_enabled example_host_def Mgr_Initialize_def ClientSocketMgr_new_def mgr_defs)
  ultimately show ?thesis
    by (simp add: start_program_def example_loads example_host_def del: parse_args.simps)
qed

lemma example_fits: "strings_fit (world_of (example_host enable) (example_config enable))"
  by (simp add: strings_fit_def world_of_def example_host_def conf_bytes_def conf_get_def Discord_GetOption_def
      Discord_AddOption_def GetOption_string_def GetValueDefault_string_def example_config_def GetDefaultValueString_def)

section \<open>Properties\<close>



text \<open>
  C18: a client that is not enabled ends in undefined behaviour, always: once \<open>main\<close> has started,
  apart from packets being queued, nothing can happen but that \<open>run\<close> returns and the
  disconnect at the end of \<open>main\<close> cancels a timer that was never made.
\<close>
theorem disabled_program_crashes:
  assumes "start_program h args os = Running c l m os" "\<not> discord_enabled c"
  shows "(program_step h) (Running c l m os) (Crashed UndefinedBehaviour) \<and>
    (program_step h (Running c l m os) p \<longrightarrow>
      p = Crashed UndefinedBehaviour \<or> (\<exists>q. p = Running c l (Mgr_AddPacketToQueue q m) os))"
proof -
  have m: "m = ClientSocketMgr_new" using start_running(1) [OF assms(1)] assms(2) by (simp add: Mgr_Initialize_def)
  have idle: "mg_ready m = []" "mg_waits m = []" "mg_clientSocket m = None" "out_of_work m"
    by (simp_all add: m ClientSocketMgr_new_def out_of_work_def)
  have f: "finish_program (Running c l m os) = Crashed UndefinedBehaviour"
    by (simp add: finish_program_def m ClientSocketMgr_new_def mgr_defs)
  have "p = Crashed UndefinedBehaviour \<or> (\<exists>q. p = Running c l (Mgr_AddPacketToQueue q m) os)"
    if "program_step h (Running c l m os) p"
    using that by cases (use idle f in auto)
  then show ?thesis using program_step.run_returns [OF idle(4), of h c l os] f by simp
qed

theorem disabled_program_crashes_witness:
  "\<exists>l m. start_program (example_host False) [''-c'', ''x''] 0 = Running (example_config False) l m 0 \<and>
    program_step (example_host False) (Running (example_config False) l m 0) (Crashed UndefinedBehaviour)"
proof -
  obtain l m where s: "start_program (example_host False) [''-c'', ''x''] 0 = Running (example_config False) l m 0"
    using example_starts by blast
  have "\<not> discord_enabled (example_config False)" by (simp add: example_enabled)
  from disabled_program_crashes [OF s this] s show ?thesis by blast
qed



text \<open>
  The exit code is 1, and nothing is started, exactly when the last \<open>-c\<close> has no file name or the
  configuration cannot be loaded.
\<close>

lemma parse_args_fails: "parse_args f args = None \<longleftrightarrow> (\<exists>xs. args = xs @ [''-c''] \<and> parse_args f xs \<noteq> None)"
proof (induction f args rule: parse_args.induct)
  case (2 configFile arg args)
  show ?case
  proof (cases "arg = ''-c''")
    case False
    with 2(2) show ?thesis by (auto simp: Cons_eq_append_conv)
  next
    case True
    show ?thesis
    proof (cases args)
      case (Cons f rest)
      with True 2(1) show ?thesis by (auto simp: Cons_eq_append_conv)
    qed (simp add: True)
  qed
qed simp

text \<open>
  The program exits before it runs, with 1, exactly in these two cases; it never exits with
  another code there.
\<close>
theorem start_exit_code:
  "start_program h args os = Exited n \<longleftrightarrow> n = 1 \<and>
     ((\<exists>xs. args = xs @ [''-c''] \<and> parse_args (h_configPath h @ ''WarheadDiscordClient.conf'') xs \<noteq> None) \<or>
      (\<exists>f. parse_args (h_configPath h @ ''WarheadDiscordClient.conf'') args = Some f \<and>
        \<not> fst (LoadAppConfigs (h_prints h) (h_files h) f config_new)))"
  unfolding parse_args_fails [symmetric] start_program_def
  by (auto split: option.splits prod.splits sum.splits)

end
