(* ===== verification/TaskScheduler.thy ===== *)
theory TaskScheduler
  imports Prelude "HOL-Library.Multiset" "HOL-Library.Signed_Division"
begin

text \<open>
  \<^verbatim>\<open>src/common/Utilities/TaskScheduler.h\<close> and \<^verbatim>\<open>TaskScheduler.cpp\<close>: timed tasks in groups, the
  task_context a task runs in, and the dispatch loop.

  Tasks are shared objects: \<open>ts_heap\<close> holds them by address, the queue and the contexts hold
  addresses.  The queue is the sequence of the \<open>std::multiset\<close>: insertion goes behind the
  elements that compare equal.  Times and durations are clock ticks.  Callables belong to
  the program: a handler is a name, and \<open>program\<close> says what the handler of a name does, as the
  list of scheduler calls it makes and its effect on the rest of the program, \<open>'w\<close>.
\<close>

section \<open>Tasks and the queue\<close>

type_synonym group_t = uint32
type_synonym repeated_t = uint32

record 'h task =
  tk_end :: int
  tk_duration :: int
  tk_group :: "group_t option"
  tk_repeated :: repeated_t
  tk_task :: 'h

record ('h, 'a, 'w) scheduler =
  ts_now :: int
  ts_heap :: "nat \<Rightarrow> 'h task"
  ts_next :: nat
  ts_queue :: "nat list"
  ts_async :: "'a list"
  ts_predicate :: "'w \<Rightarrow> bool \<times> 'w"

definition Task :: "int \<Rightarrow> int \<Rightarrow> group_t option \<Rightarrow> repeated_t \<Rightarrow> 'h \<Rightarrow> 'h task" where
  "Task until duration grp repeated task =
     \<lparr>tk_end = until, tk_duration = duration, tk_group = grp, tk_repeated = repeated, tk_task = task\<rparr>"

definition Task_min :: "int \<Rightarrow> int \<Rightarrow> 'h \<Rightarrow> 'h task" where
  "Task_min until duration task = Task until duration None 0 task"

definition Task_less :: "'h task \<Rightarrow> 'h task \<Rightarrow> bool" where
  "Task_less t u \<longleftrightarrow> tk_end t < tk_end u"

definition Task_IsInGroup :: "group_t \<Rightarrow> 'h task \<Rightarrow> bool" where
  "Task_IsInGroup grp t \<longleftrightarrow> tk_group t = Some grp"

definition EmptyValidator :: "'w \<Rightarrow> bool \<times> 'w" where
  "EmptyValidator w = (True, w)"

text \<open>\<open>multiset::insert\<close> with \<open>Compare\<close>.\<close>

fun multiset_insert :: "(nat \<Rightarrow> 'h task) \<Rightarrow> nat \<Rightarrow> nat list \<Rightarrow> nat list" where
  "multiset_insert heap i [] = [i]"
| "multiset_insert heap i (j # js) =
     (if Task_less (heap i) (heap j) then i # j # js else j # multiset_insert heap i js)"

definition Queue_Push :: "nat \<Rightarrow> ('h, 'a, 'w) scheduler \<Rightarrow> ('h, 'a, 'w) scheduler" where
  "Queue_Push i s = s\<lparr>ts_queue := multiset_insert (ts_heap s) i (ts_queue s)\<rparr>"

definition Queue_Pop :: "('h, 'a, 'w) scheduler \<Rightarrow> (nat \<times> ('h, 'a, 'w) scheduler) result" where
  "Queue_Pop s = (case ts_queue s of [] \<Rightarrow> Inl UndefinedBehaviour | i # is \<Rightarrow> Inr (i, s\<lparr>ts_queue := is\<rparr>))"

definition Queue_First :: "('h, 'a, 'w) scheduler \<Rightarrow> nat result" where
  "Queue_First s = (case ts_queue s of [] \<Rightarrow> Inl UndefinedBehaviour | i # _ \<Rightarrow> Inr i)"

definition Queue_Clear :: "('h, 'a, 'w) scheduler \<Rightarrow> ('h, 'a, 'w) scheduler" where
  "Queue_Clear s = s\<lparr>ts_queue := []\<rparr>"

definition Queue_IsEmpty :: "('h, 'a, 'w) scheduler \<Rightarrow> bool" where
  "Queue_IsEmpty s \<longleftrightarrow> ts_queue s = []"

fun remove_loop :: "('h task \<Rightarrow> bool) \<Rightarrow> (nat \<Rightarrow> 'h task) \<Rightarrow> nat list \<Rightarrow> nat list" where
  "remove_loop f heap [] = []"
| "remove_loop f heap (i # is) = (if f (heap i) then remove_loop f heap is else i # remove_loop f heap is)"

definition Queue_RemoveIf :: "('h task \<Rightarrow> bool) \<Rightarrow> ('h, 'a, 'w) scheduler \<Rightarrow> ('h, 'a, 'w) scheduler" where
  "Queue_RemoveIf f s = s\<lparr>ts_queue := remove_loop f (ts_heap s) (ts_queue s)\<rparr>"

text \<open>The filter of \<open>ModifyIf\<close> may change the task; what it accepts is taken out and inserted again.\<close>

fun modify_loop :: "('h task \<Rightarrow> bool \<times> 'h task) \<Rightarrow> (nat \<Rightarrow> 'h task) \<Rightarrow> nat list \<Rightarrow> nat list \<Rightarrow> nat list \<Rightarrow>
    nat list \<times> nat list \<times> (nat \<Rightarrow> 'h task)" where
  "modify_loop f heap [] kept cache = (kept, cache, heap)"
| "modify_loop f heap (i # is) kept cache =
     (let (accepted, t) = f (heap i)
      in if accepted then modify_loop f (heap(i := t)) is kept (cache @ [i])
         else modify_loop f (heap(i := t)) is (kept @ [i]) cache)"

definition Queue_ModifyIf :: "('h task \<Rightarrow> bool \<times> 'h task) \<Rightarrow> ('h, 'a, 'w) scheduler \<Rightarrow> ('h, 'a, 'w) scheduler" where
  "Queue_ModifyIf f s =
     (let (kept, cache, heap) = modify_loop f (ts_heap s) (ts_queue s) [] []
      in s\<lparr>ts_heap := heap, ts_queue := foldl (\<lambda>q i. multiset_insert heap i q) kept cache\<rparr>)"

section \<open>The scheduler\<close>

definition TaskScheduler_pred :: "int \<Rightarrow> ('w \<Rightarrow> bool \<times> 'w) \<Rightarrow> 'h task \<Rightarrow> ('h, 'a, 'w) scheduler" where
  "TaskScheduler_pred clock_now predicate nothing =
     \<lparr>ts_now = clock_now, ts_heap = (\<lambda>_. nothing), ts_next = 0, ts_queue = [], ts_async = [], ts_predicate = predicate\<rparr>"

definition TaskScheduler_new :: "int \<Rightarrow> 'h task \<Rightarrow> ('h, 'a, 'w) scheduler" where
  "TaskScheduler_new clock_now nothing = TaskScheduler_pred clock_now EmptyValidator nothing"

definition SetValidator :: "('w \<Rightarrow> bool \<times> 'w) \<Rightarrow> ('h, 'a, 'w) scheduler \<Rightarrow> ('h, 'a, 'w) scheduler" where
  "SetValidator predicate s = s\<lparr>ts_predicate := predicate\<rparr>"

definition ClearValidator :: "('h, 'a, 'w) scheduler \<Rightarrow> ('h, 'a, 'w) scheduler" where
  "ClearValidator s = s\<lparr>ts_predicate := EmptyValidator\<rparr>"

definition TS_Async :: "'a \<Rightarrow> ('h, 'a, 'w) scheduler \<Rightarrow> ('h, 'a, 'w) scheduler" where
  "TS_Async callable s = s\<lparr>ts_async := ts_async s @ [callable]\<rparr>"

definition TS_CancelAll :: "('h, 'a, 'w) scheduler \<Rightarrow> ('h, 'a, 'w) scheduler" where
  "TS_CancelAll s = (Queue_Clear s)\<lparr>ts_async := []\<rparr>"

definition TS_CancelGroup :: "group_t \<Rightarrow> ('h, 'a, 'w) scheduler \<Rightarrow> ('h, 'a, 'w) scheduler" where
  "TS_CancelGroup grp s = Queue_RemoveIf (Task_IsInGroup grp) s"

definition TS_CancelGroupsOf :: "group_t list \<Rightarrow> ('h, 'a, 'w) scheduler \<Rightarrow> ('h, 'a, 'w) scheduler" where
  "TS_CancelGroupsOf groups s = foldl (\<lambda>s grp. TS_CancelGroup grp s) s groups"

definition InsertTask :: "nat \<Rightarrow> ('h, 'a, 'w) scheduler \<Rightarrow> ('h, 'a, 'w) scheduler" where
  "InsertTask i s = Queue_Push i s"

text \<open>\<open>new Task(...)\<close> and its insertion.\<close>

definition insert_new :: "'h task \<Rightarrow> ('h, 'a, 'w) scheduler \<Rightarrow> ('h, 'a, 'w) scheduler" where
  "insert_new t s = InsertTask (ts_next s) (s\<lparr>ts_heap := (ts_heap s)(ts_next s := t), ts_next := Suc (ts_next s)\<rparr>)"

definition TS_ScheduleAt :: "int \<Rightarrow> int \<Rightarrow> 'h \<Rightarrow> ('h, 'a, 'w) scheduler \<Rightarrow> ('h, 'a, 'w) scheduler" where
  "TS_ScheduleAt until time task s = insert_new (Task_min (until + time) time task) s"

definition TS_ScheduleAt_group :: "int \<Rightarrow> int \<Rightarrow> group_t \<Rightarrow> 'h \<Rightarrow> ('h, 'a, 'w) scheduler \<Rightarrow> ('h, 'a, 'w) scheduler" where
  "TS_ScheduleAt_group until time grp task s = insert_new (Task (until + time) time (Some grp) 0 task) s"

definition TS_Schedule :: "int \<Rightarrow> 'h \<Rightarrow> ('h, 'a, 'w) scheduler \<Rightarrow> ('h, 'a, 'w) scheduler" where
  "TS_Schedule time task s = TS_ScheduleAt (ts_now s) time task s"

definition TS_Schedule_group :: "int \<Rightarrow> group_t \<Rightarrow> 'h \<Rightarrow> ('h, 'a, 'w) scheduler \<Rightarrow> ('h, 'a, 'w) scheduler" where
  "TS_Schedule_group time grp task s = TS_ScheduleAt_group (ts_now s) time grp task s"

definition TS_DelayAll :: "int \<Rightarrow> ('h, 'a, 'w) scheduler \<Rightarrow> ('h, 'a, 'w) scheduler" where
  "TS_DelayAll duration s = Queue_ModifyIf (\<lambda>t. (True, t\<lparr>tk_end := tk_end t + duration\<rparr>)) s"

definition TS_DelayGroup :: "group_t \<Rightarrow> int \<Rightarrow> ('h, 'a, 'w) scheduler \<Rightarrow> ('h, 'a, 'w) scheduler" where
  "TS_DelayGroup grp duration s = Queue_ModifyIf
     (\<lambda>t. if Task_IsInGroup grp t then (True, t\<lparr>tk_end := tk_end t + duration\<rparr>) else (False, t)) s"

definition TS_RescheduleAll :: "int \<Rightarrow> ('h, 'a, 'w) scheduler \<Rightarrow> ('h, 'a, 'w) scheduler" where
  "TS_RescheduleAll duration s =
     (let until = ts_now s + duration in Queue_ModifyIf (\<lambda>t. (True, t\<lparr>tk_end := until\<rparr>)) s)"

definition TS_RescheduleGroup :: "group_t \<Rightarrow> int \<Rightarrow> ('h, 'a, 'w) scheduler \<Rightarrow> ('h, 'a, 'w) scheduler" where
  "TS_RescheduleGroup grp duration s =
     (let until = ts_now s + duration
      in Queue_ModifyIf (\<lambda>t. if Task_IsInGroup grp t then (True, t\<lparr>tk_end := until\<rparr>) else (False, t)) s)"

text \<open>
  The overloads with a range draw the duration first: \<open>urand\<close> is the random generator on the
  milliseconds cut to 32 bits, with ticks of a nanosecond.
\<close>

definition RandomDurationBetween :: "(uint32 \<Rightarrow> uint32 \<Rightarrow> uint32) \<Rightarrow> int \<Rightarrow> int \<Rightarrow> int" where
  "RandomDurationBetween urand mn mx =
     uint (urand (word_of_int (mn sdiv 1000000)) (word_of_int (mx sdiv 1000000))) * 1000000"

definition TS_Schedule_between where
  "TS_Schedule_between urand mn mx task s = TS_Schedule (RandomDurationBetween urand mn mx) task s"

definition TS_Schedule_group_between where
  "TS_Schedule_group_between urand mn mx grp task s = TS_Schedule_group (RandomDurationBetween urand mn mx) grp task s"

definition TS_DelayAll_between where
  "TS_DelayAll_between urand mn mx s = TS_DelayAll (RandomDurationBetween urand mn mx) s"

definition TS_DelayGroup_between where
  "TS_DelayGroup_between urand grp mn mx s = TS_DelayGroup grp (RandomDurationBetween urand mn mx) s"

definition TS_RescheduleAll_between where
  "TS_RescheduleAll_between urand mn mx s = TS_RescheduleAll (RandomDurationBetween urand mn mx) s"

definition TS_RescheduleGroup_between where
  "TS_RescheduleGroup_between urand grp mn mx s = TS_RescheduleGroup grp (RandomDurationBetween urand mn mx) s"

section \<open>The context of a task\<close>

text \<open>
  \<open>cx_owner\<close>: whether the scheduler is still there.  \<open>_consumed\<close> is shared by all copies of a
  context; a context and its copies are one value here.
\<close>

record task_context =
  cx_task :: nat
  cx_owner :: bool
  cx_consumed :: bool

definition TaskContext :: "nat \<Rightarrow> task_context" where
  "TaskContext i = \<lparr>cx_task = i, cx_owner = True, cx_consumed = False\<rparr>"

definition Context_Dispatch ::
    "task_context \<Rightarrow> (('h, 'a, 'w) scheduler \<Rightarrow> ('h, 'a, 'w) scheduler) \<Rightarrow> ('h, 'a, 'w) scheduler \<Rightarrow> ('h, 'a, 'w) scheduler" where
  "Context_Dispatch cx apply_ts s = (if cx_owner cx then apply_ts s else s)"

definition Context_IsExpired :: "task_context \<Rightarrow> bool" where
  "Context_IsExpired cx \<longleftrightarrow> \<not> cx_owner cx"

definition Context_IsInGroup :: "group_t \<Rightarrow> task_context \<Rightarrow> ('h, 'a, 'w) scheduler \<Rightarrow> bool" where
  "Context_IsInGroup grp cx s \<longleftrightarrow> Task_IsInGroup grp (ts_heap s (cx_task cx))"

definition update_task :: "task_context \<Rightarrow> ('h task \<Rightarrow> 'h task) \<Rightarrow> ('h, 'a, 'w) scheduler \<Rightarrow> ('h, 'a, 'w) scheduler" where
  "update_task cx f s = s\<lparr>ts_heap := (ts_heap s)(cx_task cx := f (ts_heap s (cx_task cx)))\<rparr>"

definition Context_SetGroup :: "group_t \<Rightarrow> task_context \<Rightarrow> ('h, 'a, 'w) scheduler \<Rightarrow> ('h, 'a, 'w) scheduler" where
  "Context_SetGroup grp cx s = update_task cx (\<lambda>t. t\<lparr>tk_group := Some grp\<rparr>) s"

definition Context_ClearGroup :: "task_context \<Rightarrow> ('h, 'a, 'w) scheduler \<Rightarrow> ('h, 'a, 'w) scheduler" where
  "Context_ClearGroup cx s = update_task cx (\<lambda>t. t\<lparr>tk_group := None\<rparr>) s"

definition Context_GetRepeatCounter :: "task_context \<Rightarrow> ('h, 'a, 'w) scheduler \<Rightarrow> repeated_t" where
  "Context_GetRepeatCounter cx s = tk_repeated (ts_heap s (cx_task cx))"

definition AssertOnConsumed :: "task_context \<Rightarrow> unit result" where
  "AssertOnConsumed cx = (if cx_consumed cx then Inl AssertionFailed else Inr ())"

definition Context_Repeat :: "int \<Rightarrow> task_context \<Rightarrow> ('h, 'a, 'w) scheduler \<Rightarrow> (task_context \<times> ('h, 'a, 'w) scheduler) result" where
  "Context_Repeat duration cx s =
     rbind (AssertOnConsumed cx) (\<lambda>_.
       let s1 = update_task cx (\<lambda>t. t\<lparr>tk_duration := duration, tk_end := tk_end t + duration,
                  tk_repeated := tk_repeated t + 1\<rparr>) s
       in Inr (cx\<lparr>cx_consumed := True\<rparr>, Context_Dispatch cx (InsertTask (cx_task cx)) s1))"

definition Context_Repeat_same :: "task_context \<Rightarrow> ('h, 'a, 'w) scheduler \<Rightarrow> (task_context \<times> ('h, 'a, 'w) scheduler) result" where
  "Context_Repeat_same cx s = Context_Repeat (tk_duration (ts_heap s (cx_task cx))) cx s"

definition Context_Repeat_between where
  "Context_Repeat_between urand mn mx cx s = Context_Repeat (RandomDurationBetween urand mn mx) cx s"

definition Context_Async where
  "Context_Async callable cx s = Context_Dispatch cx (TS_Async callable) s"

definition Context_Schedule :: "int \<Rightarrow> 'h \<Rightarrow> task_context \<Rightarrow> ('h, 'a, 'w) scheduler \<Rightarrow> ('h, 'a, 'w) scheduler" where
  "Context_Schedule time task cx s =
     (let until = tk_end (ts_heap s (cx_task cx)) in Context_Dispatch cx (TS_ScheduleAt until time task) s)"

definition Context_Schedule_group :: "int \<Rightarrow> group_t \<Rightarrow> 'h \<Rightarrow> task_context \<Rightarrow> ('h, 'a, 'w) scheduler \<Rightarrow> ('h, 'a, 'w) scheduler" where
  "Context_Schedule_group time grp task cx s =
     (let until = tk_end (ts_heap s (cx_task cx)) in Context_Dispatch cx (TS_ScheduleAt_group until time grp task) s)"

definition Context_Schedule_between where
  "Context_Schedule_between urand mn mx task cx s = Context_Schedule (RandomDurationBetween urand mn mx) task cx s"

definition Context_Schedule_group_between where
  "Context_Schedule_group_between urand mn mx grp task cx s =
     Context_Schedule_group (RandomDurationBetween urand mn mx) grp task cx s"

definition Context_CancelAll where
  "Context_CancelAll cx s = Context_Dispatch cx TS_CancelAll s"

definition Context_CancelGroup where
  "Context_CancelGroup grp cx s = Context_Dispatch cx (TS_CancelGroup grp) s"

definition Context_CancelGroupsOf where
  "Context_CancelGroupsOf groups cx s = Context_Dispatch cx (TS_CancelGroupsOf groups) s"

definition Context_DelayAll where
  "Context_DelayAll duration cx s = Context_Dispatch cx (TS_DelayAll duration) s"

definition Context_DelayAll_between where
  "Context_DelayAll_between urand mn mx cx s = Context_DelayAll (RandomDurationBetween urand mn mx) cx s"

definition Context_DelayGroup where
  "Context_DelayGroup grp duration cx s = Context_Dispatch cx (TS_DelayGroup grp duration) s"

definition Context_DelayGroup_between where
  "Context_DelayGroup_between urand grp mn mx cx s = Context_DelayGroup grp (RandomDurationBetween urand mn mx) cx s"

definition Context_RescheduleAll where
  "Context_RescheduleAll duration cx s = Context_Dispatch cx (TS_RescheduleAll duration) s"

definition Context_RescheduleAll_between where
  "Context_RescheduleAll_between urand mn mx cx s = Context_RescheduleAll (RandomDurationBetween urand mn mx) cx s"

definition Context_RescheduleGroup where
  "Context_RescheduleGroup grp duration cx s = Context_Dispatch cx (TS_RescheduleGroup grp duration) s"

definition Context_RescheduleGroup_between where
  "Context_RescheduleGroup_between urand grp mn mx cx s =
     Context_RescheduleGroup grp (RandomDurationBetween urand mn mx) cx s"

section \<open>Dispatch\<close>

text \<open>What an asynchronous callable may call, and what a task may call through its context.\<close>

datatype ('h, 'a) ts_call =
    CallAsync 'a | CallSchedule int 'h | CallScheduleGroup int group_t 'h
  | CallCancelAll | CallCancelGroup group_t | CallCancelGroupsOf "group_t list"
  | CallDelayAll int | CallDelayGroup group_t int | CallRescheduleAll int | CallRescheduleGroup group_t int

datatype ('h, 'a) cx_call =
    Through "('h, 'a) ts_call" | CallRepeat int | CallRepeatSame | CallSetGroup group_t | CallClearGroup

fun ts_apply :: "('h, 'a) ts_call \<Rightarrow> ('h, 'a, 'w) scheduler \<Rightarrow> ('h, 'a, 'w) scheduler" where
  "ts_apply (CallAsync a) s = TS_Async a s"
| "ts_apply (CallSchedule d h) s = TS_Schedule d h s"
| "ts_apply (CallScheduleGroup d g h) s = TS_Schedule_group d g h s"
| "ts_apply CallCancelAll s = TS_CancelAll s"
| "ts_apply (CallCancelGroup g) s = TS_CancelGroup g s"
| "ts_apply (CallCancelGroupsOf gs) s = TS_CancelGroupsOf gs s"
| "ts_apply (CallDelayAll d) s = TS_DelayAll d s"
| "ts_apply (CallDelayGroup g d) s = TS_DelayGroup g d s"
| "ts_apply (CallRescheduleAll d) s = TS_RescheduleAll d s"
| "ts_apply (CallRescheduleGroup g d) s = TS_RescheduleGroup g d s"

fun cx_apply :: "('h, 'a) cx_call \<Rightarrow> task_context \<Rightarrow> ('h, 'a, 'w) scheduler \<Rightarrow> (task_context \<times> ('h, 'a, 'w) scheduler) result" where
  "cx_apply (Through (CallAsync a)) cx s = Inr (cx, Context_Async a cx s)"
| "cx_apply (Through (CallSchedule d h)) cx s = Inr (cx, Context_Schedule d h cx s)"
| "cx_apply (Through (CallScheduleGroup d g h)) cx s = Inr (cx, Context_Schedule_group d g h cx s)"
| "cx_apply (Through CallCancelAll) cx s = Inr (cx, Context_CancelAll cx s)"
| "cx_apply (Through (CallCancelGroup g)) cx s = Inr (cx, Context_CancelGroup g cx s)"
| "cx_apply (Through (CallCancelGroupsOf gs)) cx s = Inr (cx, Context_CancelGroupsOf gs cx s)"
| "cx_apply (Through (CallDelayAll d)) cx s = Inr (cx, Context_DelayAll d cx s)"
| "cx_apply (Through (CallDelayGroup g d)) cx s = Inr (cx, Context_DelayGroup g d cx s)"
| "cx_apply (Through (CallRescheduleAll d)) cx s = Inr (cx, Context_RescheduleAll d cx s)"
| "cx_apply (Through (CallRescheduleGroup g d)) cx s = Inr (cx, Context_RescheduleGroup g d cx s)"
| "cx_apply (CallRepeat d) cx s = Context_Repeat d cx s"
| "cx_apply CallRepeatSame cx s = Context_Repeat_same cx s"
| "cx_apply (CallSetGroup g) cx s = Inr (cx, Context_SetGroup g cx s)"
| "cx_apply CallClearGroup cx s = Inr (cx, Context_ClearGroup cx s)"

fun cx_run :: "('h, 'a) cx_call list \<Rightarrow> task_context \<Rightarrow> ('h, 'a, 'w) scheduler \<Rightarrow> (task_context \<times> ('h, 'a, 'w) scheduler) result" where
  "cx_run [] cx s = Inr (cx, s)"
| "cx_run (call # calls) cx s = rbind (cx_apply call cx s) (\<lambda>(cx, s). cx_run calls cx s)"

record ('h, 'a, 'w) program =
  pr_async :: "'a \<Rightarrow> 'w \<Rightarrow> ('h, 'a) ts_call list \<times> 'w"
  pr_task :: "'h task \<Rightarrow> 'w \<Rightarrow> ('h, 'a) cx_call list \<times> 'w"

definition Context_Invoke :: "('h, 'a, 'w) program \<Rightarrow> task_context \<Rightarrow> ('h, 'a, 'w) scheduler \<Rightarrow> 'w \<Rightarrow>
    (('h, 'a, 'w) scheduler \<times> 'w) result" where
  "Context_Invoke p cx s w =
     (let (calls, w') = pr_task p (ts_heap s (cx_task cx)) w
      in rbind (cx_run calls cx s) (\<lambda>(_, s'). Inr (s', w')))"

text \<open>
  The two loops of \<open>Dispatch\<close>; \<open>None\<close> is a loop that never ends.  The first component of the
  result says whether the dispatch went on to the end, or was aborted by the validator.  The
  callable at the front of the asynchronous queue is called before it is popped.
\<close>

partial_function (option) async_loop :: "('h, 'a, 'w) program \<Rightarrow> ('h, 'a, 'w) scheduler \<Rightarrow> 'w \<Rightarrow>
    (bool \<times> ('h, 'a, 'w) scheduler \<times> 'w) result option" where
  "async_loop p s w =
     (case ts_async s of
        [] \<Rightarrow> Some (Inr (True, s, w))
      | a # _ \<Rightarrow>
          let (calls, w1) = pr_async p a w;
              s1 = foldl (\<lambda>s c. ts_apply c s) s calls
          in (case ts_async s1 of
                [] \<Rightarrow> Some (Inl UndefinedBehaviour)
              | _ # rest \<Rightarrow>
                  let s2 = s1\<lparr>ts_async := rest\<rparr>;
                      (valid, w2) = ts_predicate s2 w1
                  in if \<not> valid then Some (Inr (False, s2, w2)) else async_loop p s2 w2))"

partial_function (option) task_loop :: "('h, 'a, 'w) program \<Rightarrow> ('h, 'a, 'w) scheduler \<Rightarrow> 'w \<Rightarrow>
    (bool \<times> ('h, 'a, 'w) scheduler \<times> 'w) result option" where
  "task_loop p s w =
     (case ts_queue s of
        [] \<Rightarrow> Some (Inr (True, s, w))
      | i # is \<Rightarrow>
          if tk_end (ts_heap s i) > ts_now s then Some (Inr (True, s, w))
          else (case Context_Invoke p (TaskContext i) (s\<lparr>ts_queue := is\<rparr>) w of
                  Inl err \<Rightarrow> Some (Inl err)
                | Inr (s1, w1) \<Rightarrow>
                    let (valid, w2) = ts_predicate s1 w1
                    in if \<not> valid then Some (Inr (False, s1, w2)) else task_loop p s1 w2))"

definition TS_Dispatch :: "('h, 'a, 'w) program \<Rightarrow> ('w \<Rightarrow> 'w) \<Rightarrow> ('h, 'a, 'w) scheduler \<Rightarrow> 'w \<Rightarrow>
    (('h, 'a, 'w) scheduler \<times> 'w) result option" where
  "TS_Dispatch p callback s w =
     (let (valid, w1) = ts_predicate s w
      in if \<not> valid then Some (Inr (s, w1))
         else (case async_loop p s w1 of
                 None \<Rightarrow> None
               | Some (Inl err) \<Rightarrow> Some (Inl err)
               | Some (Inr (False, s2, w2)) \<Rightarrow> Some (Inr (s2, w2))
               | Some (Inr (True, s2, w2)) \<Rightarrow>
                   map_option (map_sum id (\<lambda>(finished, s3, w3). (s3, if finished then callback w3 else w3)))
                     (task_loop p s2 w2)))"

definition TS_Update_now where
  "TS_Update_now p clock_now callback s w = TS_Dispatch p callback (s\<lparr>ts_now := clock_now\<rparr>) w"

definition TS_Update where
  "TS_Update p difftime callback s w = TS_Dispatch p callback (s\<lparr>ts_now := ts_now s + difftime\<rparr>) w"

text \<open>The milliseconds are a \<open>size_t\<close>, the ticks nanoseconds.\<close>

definition TS_Update_ms where
  "TS_Update_ms p milliseconds callback s w = TS_Update p (int milliseconds * 1000000) callback s w"

section \<open>The invariant of the queue\<close>

named_theorems ts_defs

declare Queue_Push_def [ts_defs] Queue_Clear_def [ts_defs] InsertTask_def [ts_defs] insert_new_def [ts_defs]
  TS_ScheduleAt_def [ts_defs] TS_ScheduleAt_group_def [ts_defs] TS_Schedule_def [ts_defs] TS_Schedule_group_def [ts_defs]
  TS_CancelAll_def [ts_defs] TS_CancelGroup_def [ts_defs] Queue_RemoveIf_def [ts_defs] TS_Async_def [ts_defs]
  TS_DelayAll_def [ts_defs] TS_DelayGroup_def [ts_defs] TS_RescheduleAll_def [ts_defs] TS_RescheduleGroup_def [ts_defs]

text \<open>The queue is sorted by the tasks' ends, holds every task once, and only allocated ones.\<close>

definition by_end :: "(nat \<Rightarrow> 'h task) \<Rightarrow> nat list \<Rightarrow> bool" where
  "by_end heap q \<longleftrightarrow> sorted (map (\<lambda>i. tk_end (heap i)) q)"

definition ts_inv :: "('h, 'a, 'w) scheduler \<Rightarrow> bool" where
  "ts_inv s \<longleftrightarrow> by_end (ts_heap s) (ts_queue s) \<and> distinct (ts_queue s) \<and> (\<forall>i\<in>set (ts_queue s). i < ts_next s)"

text \<open>The tasks in the queue, as a multiset of values.\<close>

definition tasks :: "('h, 'a, 'w) scheduler \<Rightarrow> 'h task multiset" where
  "tasks s = mset (map (ts_heap s) (ts_queue s))"

lemma by_end_Cons [simp]:
  "by_end heap []" "by_end heap (i # q) \<longleftrightarrow> (\<forall>j\<in>set q. tk_end (heap i) \<le> tk_end (heap j)) \<and> by_end heap q"
  by (auto simp: by_end_def)

lemma by_end_cong: "\<forall>i\<in>set q. tk_end (heap i) = tk_end (heap' i) \<Longrightarrow> by_end heap q = by_end heap' q"
  by (induction q) auto

lemma mset_multiset_insert [simp]: "mset (multiset_insert heap i q) = add_mset i (mset q)"
  by (induction q) auto

lemma set_multiset_insert [simp]: "set (multiset_insert heap i q) = insert i (set q)"
  using mset_multiset_insert [of heap i q] by (metis set_mset_add_mset_insert set_mset_mset)

lemma distinct_multiset_insert [simp]: "distinct (multiset_insert heap i q) \<longleftrightarrow> i \<notin> set q \<and> distinct q"
  by (induction q) auto

lemma by_end_multiset_insert: "by_end heap q \<Longrightarrow> by_end heap (multiset_insert heap i q)"
proof (induction q)
  case (Cons j q)
  then show ?case by (auto simp: Task_less_def)
qed simp

lemma remove_loop_filter: "remove_loop f heap q = filter (\<lambda>i. \<not> f (heap i)) q"
  by (induction q) simp_all

lemma by_end_filter: "by_end heap q \<Longrightarrow> by_end heap (filter P q)"
  by (induction q) auto

lemma foldl_multiset_insert:
  "by_end heap q \<Longrightarrow> by_end heap (foldl (\<lambda>q i. multiset_insert heap i q) q is) \<and>
    mset (foldl (\<lambda>q i. multiset_insert heap i q) q is) = mset q + mset is"
  by (induction "is" arbitrary: q) (auto simp: by_end_multiset_insert)

lemma modify_loop_spec:
  "distinct is \<Longrightarrow> modify_loop f heap is kept cache =
    (kept @ filter (\<lambda>i. \<not> fst (f (heap i))) is, cache @ filter (\<lambda>i. fst (f (heap i))) is,
     \<lambda>i. if i \<in> set is then snd (f (heap i)) else heap i)"
proof (induction "is" arbitrary: heap kept cache)
  case (Cons i "is")
  obtain a t where ft: "f (heap i) = (a, t)" by (cases "f (heap i)")
  let ?h = "heap(i := t)"
  have e: "filter (\<lambda>j. \<not> fst (f (?h j))) is = filter (\<lambda>j. \<not> fst (f (heap j))) is"
    "filter (\<lambda>j. fst (f (?h j))) is = filter (\<lambda>j. fst (f (heap j))) is"
    using Cons.prems by (auto intro!: filter_cong)
  have h: "(\<lambda>j. if j \<in> set is then snd (f (?h j)) else ?h j) =
      (\<lambda>j. if j \<in> set (i # is) then snd (f (heap j)) else heap j)"
    using Cons.prems ft by auto
  have "distinct is" using Cons.prems by simp
  note IH = Cons.IH [OF this, of ?h, unfolded e h]
  show ?case by (cases a) (simp_all only: modify_loop.simps ft Let_def prod.case if_True if_False IH, simp_all add: ft)
qed simp

text \<open>
  \<open>ModifyIf\<close> with a filter that leaves the end of what it rejects: the queue stays in
  order, and as a multiset every task is replaced by what the filter made of it.
\<close>

lemma ModifyIf_ok:
  assumes "ts_inv s" "\<forall>t. \<not> fst (f t) \<longrightarrow> tk_end (snd (f t)) = tk_end t"
  shows "ts_inv (Queue_ModifyIf f s)" "tasks (Queue_ModifyIf f s) = image_mset (\<lambda>t. snd (f t)) (tasks s)"
    "ts_now (Queue_ModifyIf f s) = ts_now s" "ts_next (Queue_ModifyIf f s) = ts_next s"
    "set (ts_queue (Queue_ModifyIf f s)) = set (ts_queue s)"
    "ts_async (Queue_ModifyIf f s) = ts_async s" "ts_predicate (Queue_ModifyIf f s) = ts_predicate s"
proof -
  let ?q = "ts_queue s" and ?h = "ts_heap s"
  let ?h' = "\<lambda>i. if i \<in> set ?q then snd (f (?h i)) else ?h i"
  let ?kept = "filter (\<lambda>i. \<not> fst (f (?h i))) ?q" and ?cache = "filter (\<lambda>i. fst (f (?h i))) ?q"
  let ?q' = "foldl (\<lambda>q i. multiset_insert ?h' i q) ?kept ?cache"
  have inv: "by_end ?h ?q" "distinct ?q" "\<forall>i\<in>set ?q. i < ts_next s" using assms(1) by (simp_all add: ts_inv_def)
  have eq: "Queue_ModifyIf f s = s\<lparr>ts_heap := ?h', ts_queue := ?q'\<rparr>"
    using modify_loop_spec [OF inv(2), of f ?h "[]" "[]"] by (simp add: Queue_ModifyIf_def)
  have "by_end ?h' ?kept = by_end ?h ?kept" using assms(2) by (intro by_end_cong) auto
  then have "by_end ?h' ?kept" using inv(1) by_end_filter by blast
  then have q': "by_end ?h' ?q'" "mset ?q' = mset ?kept + mset ?cache"
    using foldl_multiset_insert [of ?h' ?kept ?cache] by simp_all
  have m: "mset ?q' = mset ?q" using q'(2) multiset_partition [of "mset ?q" "\<lambda>i. fst (f (?h i))"] by simp
  have st: "set ?q' = set ?q" "distinct ?q'"
    using mset_eq_setD [OF m] mset_eq_imp_distinct_iff [OF m] inv(2) by (simp_all only: simp_thms)
  show "ts_inv (Queue_ModifyIf f s)" using q'(1) st inv(3) by (simp add: eq ts_inv_def)
  show "set (ts_queue (Queue_ModifyIf f s)) = set (ts_queue s)" using st by (simp add: eq)
  have "image_mset ?h' (mset ?q) = image_mset (\<lambda>i. snd (f (?h i))) (mset ?q)" by (intro image_mset_cong) simp
  then show "tasks (Queue_ModifyIf f s) = image_mset (\<lambda>t. snd (f t)) (tasks s)"
    using m by (simp add: eq tasks_def multiset.map_comp comp_def)
qed (simp_all add: Queue_ModifyIf_def split: prod.split)

section \<open>Every call keeps the invariant\<close>

text \<open>What a scheduler call keeps: the invariant, the clock and the validator; and no old task comes back.\<close>

definition ts_kept :: "('h, 'a, 'w) scheduler \<Rightarrow> ('h, 'a, 'w) scheduler \<Rightarrow> bool" where
  "ts_kept s s' \<longleftrightarrow> (ts_inv s \<longrightarrow> ts_inv s') \<and> ts_now s' = ts_now s \<and> ts_predicate s' = ts_predicate s \<and>
     ts_next s \<le> ts_next s' \<and> (\<forall>i<ts_next s. i \<in> set (ts_queue s') \<longrightarrow> i \<in> set (ts_queue s))"

lemma ts_kept_refl [simp]: "ts_kept s s"
  by (simp add: ts_kept_def)

lemma ts_kept_trans [trans]: "ts_kept s s1 \<Longrightarrow> ts_kept s1 s2 \<Longrightarrow> ts_kept s s2"
  by (auto simp: ts_kept_def)

lemma insert_new_kept [simp]: "ts_kept s (insert_new t s)"
proof -
  let ?h = "(ts_heap s)(ts_next s := t)"
  have "by_end ?h (ts_queue s) = by_end (ts_heap s) (ts_queue s)" if "ts_inv s"
    using that by (intro by_end_cong) (auto simp: ts_inv_def)
  then show ?thesis
    by (auto simp: ts_kept_def ts_inv_def insert_new_def InsertTask_def Queue_Push_def by_end_multiset_insert)
qed

lemma RemoveIf_kept [simp]: "ts_kept s (Queue_RemoveIf f s)"
  by (auto simp: ts_kept_def ts_inv_def Queue_RemoveIf_def remove_loop_filter by_end_filter)

lemma ModifyIf_kept:
  assumes "ts_inv s" "\<forall>t. \<not> fst (f t) \<longrightarrow> tk_end (snd (f t)) = tk_end t"
  shows "ts_kept s (Queue_ModifyIf f s)"
  using ModifyIf_ok [OF assms] by (simp add: ts_kept_def)

lemma CancelGroupsOf_kept: "ts_kept s (TS_CancelGroupsOf gs s)"
proof (induction gs arbitrary: s)
  case (Cons g gs)
  have "ts_kept s (TS_CancelGroup g s)" by (simp add: TS_CancelGroup_def)
  also have "ts_kept (TS_CancelGroup g s) (TS_CancelGroupsOf gs (TS_CancelGroup g s))" by (rule Cons.IH)
  finally show ?case by (simp add: TS_CancelGroupsOf_def)
qed (simp add: TS_CancelGroupsOf_def)

lemma ScheduleAt_kept [simp]: "ts_kept s (TS_ScheduleAt at d h s)" "ts_kept s (TS_ScheduleAt_group at d g h s)"
  by (simp_all add: TS_ScheduleAt_def TS_ScheduleAt_group_def)

lemma ts_apply_kept:
  assumes "ts_inv s"
  shows "ts_kept s (ts_apply c s)"
proof (cases c)
  case (CallCancelGroupsOf gs)
  then show ?thesis by (simp add: CancelGroupsOf_kept)
qed (auto simp: TS_Schedule_def TS_Schedule_group_def TS_CancelGroup_def TS_DelayAll_def TS_DelayGroup_def
    TS_RescheduleAll_def TS_RescheduleGroup_def Let_def intro!: ModifyIf_kept [OF assms],
    auto simp: TS_Async_def TS_CancelAll_def Queue_Clear_def ts_kept_def ts_inv_def)

lemma ts_apply_list_kept: "ts_inv s \<Longrightarrow> ts_kept s (foldl (\<lambda>s c. ts_apply c s) s cs)"
proof (induction cs arbitrary: s)
  case (Cons c cs)
  have k: "ts_kept s (ts_apply c s)" by (rule ts_apply_kept [OF Cons.prems])
  also have "ts_kept (ts_apply c s) (foldl (\<lambda>s c. ts_apply c s) (ts_apply c s) cs)"
    using k Cons.prems by (intro Cons.IH) (simp add: ts_kept_def)
  finally show ?case by simp
qed simp

text \<open>A context whose task has not been repeated holds a task outside the queue.\<close>

definition cx_inv :: "task_context \<Rightarrow> ('h, 'a, 'w) scheduler \<Rightarrow> bool" where
  "cx_inv cx s \<longleftrightarrow> cx_task cx < ts_next s \<and> (\<not> cx_consumed cx \<longrightarrow> cx_task cx \<notin> set (ts_queue s))"

lemma cx_inv_kept: "cx_inv cx s \<Longrightarrow> ts_kept s s' \<Longrightarrow> cx_inv cx s'"
  by (auto simp: cx_inv_def ts_kept_def)

lemma update_task_kept: "\<forall>t. tk_end (f t) = tk_end t \<Longrightarrow> ts_kept s (update_task cx f s)"
proof -
  assume "\<forall>t. tk_end (f t) = tk_end t"
  then have "by_end ((ts_heap s)(cx_task cx := f (ts_heap s (cx_task cx)))) (ts_queue s) = by_end (ts_heap s) (ts_queue s)"
    by (intro by_end_cong) auto
  then show ?thesis by (simp add: ts_kept_def ts_inv_def update_task_def)
qed

lemma set_group_kept: "ts_kept s (Context_SetGroup g cx s)" "ts_kept s (Context_ClearGroup cx s)"
  by (simp_all add: Context_SetGroup_def Context_ClearGroup_def update_task_kept)

lemma Repeat_ok:
  assumes "ts_inv s" "cx_inv cx s" "Context_Repeat d cx s = Inr (cx', s')"
  shows "ts_inv s'" "cx_inv cx' s'" "ts_now s' = ts_now s" "ts_predicate s' = ts_predicate s" "ts_next s' = ts_next s"
proof -
  let ?i = "cx_task cx"
  have fresh: "?i \<notin> set (ts_queue s)" "?i < ts_next s" and cx': "cx' = cx\<lparr>cx_consumed := True\<rparr>"
    using assms by (auto simp: Context_Repeat_def AssertOnConsumed_def cx_inv_def split: if_splits)
  let ?t = "ts_heap s ?i"
  let ?u = "?t\<lparr>tk_duration := d, tk_end := tk_end ?t + d, tk_repeated := tk_repeated ?t + 1\<rparr>"
  let ?h = "(ts_heap s)(?i := ?u)"
  have s': "s' = s\<lparr>ts_heap := ?h, ts_queue := if cx_owner cx then multiset_insert ?h ?i (ts_queue s) else ts_queue s\<rparr>"
    using assms(3)
    by (auto simp: Context_Repeat_def AssertOnConsumed_def Context_Dispatch_def InsertTask_def Queue_Push_def
        update_task_def Let_def split: if_splits)
  have "by_end ?h (ts_queue s) = by_end (ts_heap s) (ts_queue s)" using fresh by (intro by_end_cong) auto
  then show "ts_inv s'" using assms(1) fresh by (auto simp: s' ts_inv_def by_end_multiset_insert)
  show "cx_inv cx' s'" using assms(2) by (simp add: s' cx' cx_inv_def)
qed (use assms(3) in \<open>auto simp: Context_Repeat_def AssertOnConsumed_def Context_Dispatch_def InsertTask_def
      Queue_Push_def update_task_def Let_def split: if_splits\<close>)

lemma through_kept:
  assumes "ts_inv s"
  shows "\<exists>s'. cx_apply (Through t) cx s = Inr (cx, s') \<and> ts_kept s s'"
  using ts_apply_kept [OF assms, of t]
  by (cases t) (simp_all add: Context_Dispatch_def Let_def Context_Async_def Context_Schedule_def
      Context_Schedule_group_def Context_CancelAll_def Context_CancelGroup_def Context_CancelGroupsOf_def
      Context_DelayAll_def Context_DelayGroup_def Context_RescheduleAll_def Context_RescheduleGroup_def)

lemma cx_apply_ok:
  assumes "ts_inv s" "cx_inv cx s" "cx_apply c cx s = Inr (cx', s')"
  shows "ts_inv s' \<and> cx_inv cx' s' \<and> ts_now s' = ts_now s \<and> ts_predicate s' = ts_predicate s \<and> ts_next s \<le> ts_next s'"
proof -
  have through: "ts_inv s2 \<and> cx_inv cx s2 \<and> ts_now s2 = ts_now s \<and> ts_predicate s2 = ts_predicate s \<and> ts_next s \<le> ts_next s2"
    if "ts_kept s s2" for s2
    using that assms(1,2) cx_inv_kept [OF assms(2) that] by (simp add: ts_kept_def)
  show ?thesis
  proof (cases c)
    case (Through t)
    obtain s2 where s2: "cx_apply c cx s = Inr (cx, s2)" "ts_kept s s2"
      using through_kept [OF assms(1), of t cx] Through by auto
    then have "cx' = cx" "s' = s2" using assms(3) by simp_all
    then show ?thesis using through [OF s2(2)] by simp
  next
    case (CallRepeat d)
    then have "Context_Repeat d cx s = Inr (cx', s')" using assms(3) by simp
    from Repeat_ok [OF assms(1,2) this] show ?thesis by simp
  next
    case CallRepeatSame
    then have "Context_Repeat (tk_duration (ts_heap s (cx_task cx))) cx s = Inr (cx', s')"
      using assms(3) by (simp add: Context_Repeat_same_def)
    from Repeat_ok [OF assms(1,2) this] show ?thesis by simp
  next
    case (CallSetGroup g)
    then have "cx' = cx" "s' = Context_SetGroup g cx s" using assms(3) by auto
    then show ?thesis using through [OF set_group_kept(1) [of s g cx]] by simp
  next
    case CallClearGroup
    then have "cx' = cx" "s' = Context_ClearGroup cx s" using assms(3) by auto
    then show ?thesis using through [OF set_group_kept(2) [of s cx]] by simp
  qed
qed

lemma cx_run_ok:
  assumes "ts_inv s" "cx_inv cx s" "cx_run cs cx s = Inr (cx', s')"
  shows "ts_inv s' \<and> ts_now s' = ts_now s \<and> ts_predicate s' = ts_predicate s"
  using assms
proof (induction cs arbitrary: cx s)
  case (Cons c cs)
  then obtain cx1 s1 where s1: "cx_apply c cx s = Inr (cx1, s1)" "cx_run cs cx1 s1 = Inr (cx', s')"
    by (auto simp: rbind_eq_Inr)
  from Cons.IH [OF _ _ s1(2)] cx_apply_ok [OF Cons.prems(1,2) s1(1)] show ?case by simp
qed simp

section \<open>Dispatch\<close>

lemma Context_Invoke_ok:
  assumes "ts_inv s" "ts_queue s = i # is" "Context_Invoke p (TaskContext i) (s\<lparr>ts_queue := is\<rparr>) w = Inr (s', w')"
  shows "ts_inv s' \<and> ts_now s' = ts_now s \<and> ts_predicate s' = ts_predicate s"
proof -
  let ?s = "s\<lparr>ts_queue := is\<rparr>"
  have "ts_inv ?s" "cx_inv (TaskContext i) ?s"
    using assms(1,2) by (simp_all add: ts_inv_def cx_inv_def TaskContext_def)
  moreover obtain calls cx' where "cx_run calls (TaskContext i) ?s = Inr (cx', s')"
    using assms(3) by (auto simp: Context_Invoke_def rbind_eq_Inr split: prod.splits)
  ultimately show ?thesis using cx_run_ok [of ?s "TaskContext i" calls cx' s'] by simp
qed

lemma async_loop_ok:
  assumes "async_loop p s w = Some r" "ts_inv s" "r = Inr (fin, s', w')"
  shows "ts_inv s' \<and> ts_now s' = ts_now s \<and> ts_predicate s' = ts_predicate s \<and> (fin \<longrightarrow> ts_async s' = []) \<and>
    (\<not> fin \<longrightarrow> (\<exists>w. \<not> fst (ts_predicate s w)))"
  using assms
proof (induction arbitrary: fin s' w' rule: async_loop.raw_induct [rotated, consumes 1])
  case (1 loop p s w r)
  show ?case
  proof (cases "ts_async s")
    case Nil
    with 1 show ?thesis by auto
  next
    case (Cons a as)
    obtain calls w1 where c: "pr_async p a w = (calls, w1)" by (cases "pr_async p a w")
    let ?s1 = "foldl (\<lambda>s c. ts_apply c s) s calls"
    have k: "ts_kept s ?s1" by (rule ts_apply_list_kept [OF 1(3)])
    obtain b rest where b: "ts_async ?s1 = b # rest" using 1(2,4) Cons c by (cases "ts_async ?s1") auto
    let ?s2 = "?s1\<lparr>ts_async := rest\<rparr>"
    have s2: "ts_inv ?s2" "ts_now ?s2 = ts_now s" "ts_predicate ?s2 = ts_predicate s"
      using k 1(3) by (simp_all add: ts_kept_def ts_inv_def)
    obtain v w2 where v: "ts_predicate ?s2 w1 = (v, w2)" by (cases "ts_predicate ?s2 w1")
    show ?thesis
    proof (cases v)
      case True
      with 1(2) Cons c b v have "loop p ?s2 w2 = Some r" by simp
      from 1(1) [OF this s2(1) 1(4)] s2(2,3) show ?thesis by simp
    next
      case False
      then have "\<exists>w. \<not> fst (ts_predicate s w)" using v s2(3) by (intro exI [of _ w1]) simp
      then show ?thesis using False 1(2,4) Cons c b v s2 by auto
    qed
  qed
qed

lemma task_loop_ok:
  assumes "task_loop p s w = Some r" "ts_inv s" "r = Inr (fin, s', w')"
  shows "ts_inv s' \<and> ts_now s' = ts_now s \<and> (fin \<longrightarrow> (\<forall>i\<in>set (ts_queue s'). ts_now s < tk_end (ts_heap s' i))) \<and>
    (\<not> fin \<longrightarrow> (\<exists>w. \<not> fst (ts_predicate s w)))"
  using assms
proof (induction arbitrary: fin s' w' rule: task_loop.raw_induct [rotated, consumes 1])
  case (1 loop p s w r)
  show ?case
  proof (cases "ts_queue s")
    case Nil
    with 1 show ?thesis by auto
  next
    case (Cons i "is")
    show ?thesis
    proof (cases "tk_end (ts_heap s i) > ts_now s")
      case True
      then have "r = Inr (True, s, w)" using 1(2) Cons by auto
      then show ?thesis using 1(3,4) True Cons by (auto simp: ts_inv_def)
    next
      case False
      obtain s1 w1 where s1: "Context_Invoke p (TaskContext i) (s\<lparr>ts_queue := is\<rparr>) w = Inr (s1, w1)"
        using 1(2,4) Cons False by (cases "Context_Invoke p (TaskContext i) (s\<lparr>ts_queue := is\<rparr>) w") auto
      note k = Context_Invoke_ok [OF 1(3) Cons s1]
      obtain v w2 where v: "ts_predicate s1 w1 = (v, w2)" by (cases "ts_predicate s1 w1")
      show ?thesis
      proof (cases v)
        case True
        with 1(2) Cons False s1 v have "loop p s1 w2 = Some r" by simp
        from 1(1) [OF this _ 1(4)] k show ?thesis by simp
      next
        case False
        then have "\<exists>w. \<not> fst (ts_predicate s w)" using v k by (intro exI [of _ w1]) simp
        then show ?thesis using False 1(2,4) Cons \<open>\<not> tk_end (ts_heap s i) > ts_now s\<close> s1 v k by auto
      qed
    qed
  qed
qed

text \<open>Tasks that call nothing: the due ones run, in the order of their ends.\<close>

lemma task_loop_plain:
  assumes "\<forall>t w. pr_task p t w = ([], f t w)" "\<forall>w. ts_predicate s w = (True, w)"
  shows "task_loop p s w = Some (Inr (True,
      s\<lparr>ts_queue := dropWhile (\<lambda>i. tk_end (ts_heap s i) \<le> ts_now s) (ts_queue s)\<rparr>,
      fold f (map (ts_heap s) (takeWhile (\<lambda>i. tk_end (ts_heap s i) \<le> ts_now s) (ts_queue s))) w))"
  using assms(2)
proof (induction "ts_queue s" arbitrary: s w)
  case Nil
  then show ?case by (subst task_loop.simps) simp
next
  case (Cons i "is")
  have q: "ts_queue s = i # is" using Cons.hyps(2) by simp
  show ?case
  proof (cases "tk_end (ts_heap s i) > ts_now s")
    case True
    then show ?thesis using q by (subst task_loop.simps) simp
  next
    case False
    then have "task_loop p s w = task_loop p (s\<lparr>ts_queue := is\<rparr>) (f (ts_heap s i) w)"
      using q assms(1) Cons.prems by (subst task_loop.simps) (simp add: Context_Invoke_def TaskContext_def)
    then show ?thesis using Cons.hyps(1) [of "s\<lparr>ts_queue := is\<rparr>"] Cons.prems False q by simp
  qed
qed

text \<open>A task alone in the queue that repeats itself.\<close>

lemma task_loop_repeat:
  assumes "\<forall>t w. pr_task p t w = ([CallRepeatSame], f w)" "\<forall>w. ts_predicate s w = (True, w)" "ts_queue s = [i]"
    and "ts_now s < tk_end (ts_heap s i) + int n * tk_duration (ts_heap s i)"
    and "n = 0 \<or> tk_end (ts_heap s i) + int (n - 1) * tk_duration (ts_heap s i) \<le> ts_now s"
    and "0 < tk_duration (ts_heap s i)"
  shows "\<exists>s'. task_loop p s w = Some (Inr (True, s', (f ^^ n) w)) \<and> ts_queue s' = [i] \<and>
    tk_end (ts_heap s' i) = tk_end (ts_heap s i) + int n * tk_duration (ts_heap s i) \<and>
    tk_repeated (ts_heap s' i) = tk_repeated (ts_heap s i) + word_of_nat n"
  using assms(2-)
proof (induction n arbitrary: s w)
  case 0
  then show ?case by (subst task_loop.simps) auto
next
  case (Suc n)
  let ?t = "ts_heap s i"
  let ?u = "?t\<lparr>tk_end := tk_end ?t + tk_duration ?t, tk_repeated := tk_repeated ?t + 1\<rparr>"
  let ?s = "s\<lparr>ts_heap := (ts_heap s)(i := ?u), ts_queue := [i]\<rparr>"
  have "0 \<le> int n * tk_duration ?t" using Suc.prems(5) by simp
  then have due: "\<not> ts_now s < tk_end ?t" using Suc.prems(4) by simp
  have step: "task_loop p s w = task_loop p ?s (f w)"
    using Suc.prems(1,2) due assms(1)
    by (subst task_loop.simps) (simp add: Context_Invoke_def TaskContext_def Context_Repeat_same_def Context_Repeat_def
        AssertOnConsumed_def update_task_def Context_Dispatch_def InsertTask_def Queue_Push_def Let_def)
  have "ts_now s < tk_end ?t + tk_duration ?t + int n * tk_duration ?t" using Suc.prems(3) by (simp add: algebra_simps)
  moreover have "n = 0 \<or> tk_end ?t + tk_duration ?t + int (n - 1) * tk_duration ?t \<le> ts_now s"
    using Suc.prems(4) by (cases n) (auto simp: algebra_simps)
  ultimately have "\<exists>s'. task_loop p ?s (f w) = Some (Inr (True, s', (f ^^ n) (f w))) \<and> ts_queue s' = [i] \<and>
    tk_end (ts_heap s' i) = tk_end ?t + tk_duration ?t + int n * tk_duration ?t \<and>
    tk_repeated (ts_heap s' i) = tk_repeated ?t + 1 + word_of_nat n"
    using Suc.IH [of ?s "f w"] Suc.prems(1,5) by simp
  then show ?case by (simp add: step funpow_swap1 algebra_simps)
qed

text \<open>A scheduler with two tasks, for the instances below; the handlers log the groups that ran.\<close>

definition example_scheduler :: "(unit, unit, nat list) scheduler" where
  "example_scheduler = \<lparr>ts_now = 25, ts_heap = (\<lambda>i. if i = 0 then Task 30 10 (Some 1) 0 () else Task 20 10 (Some 2) 0 ()),
     ts_next = 2, ts_queue = [1, 0], ts_async = [], ts_predicate = EmptyValidator\<rparr>"

definition example_program :: "(unit, unit, nat list) program" where
  "example_program = \<lparr>pr_async = (\<lambda>_ w. ([CallCancelAll], w)),
     pr_task = (\<lambda>t w. ([], w @ [case tk_group t of Some g \<Rightarrow> unat g | None \<Rightarrow> 0]))\<rparr>"

lemma example_scheduler_inv: "ts_inv example_scheduler"
  by (simp add: ts_inv_def example_scheduler_def by_end_def Task_def)

section \<open>Properties\<close>

text \<open>
  C28: the scheduler's invariant, and what a dispatch leaves.  Whatever the tasks and the
  asynchronous callables do through the interface (schedule, repeat, cancel, delay,
  reschedule, regroup), a dispatch that returns leaves the queue sorted by end with every
  task in it once; and if the validator allowed everything, no task whose time has come is
  left.
\<close>
theorem dispatch_invariant:
  assumes "ts_inv s" "TS_Dispatch p callback s w = Some (Inr (s', w'))"
  shows "ts_inv s' \<and> ts_now s' = ts_now s \<and>
    ((\<forall>w. fst (ts_predicate s w)) \<longrightarrow> (\<forall>i\<in>set (ts_queue s'). ts_now s < tk_end (ts_heap s' i)))"
proof -
  obtain v w1 where v: "ts_predicate s w = (v, w1)" by (cases "ts_predicate s w")
  show ?thesis
  proof (cases v)
    case False
    then have "\<not> fst (ts_predicate s w)" "s' = s" using assms(2) v by (auto simp: TS_Dispatch_def)
    then show ?thesis using assms(1) by blast
  next
    case True
    obtain fin s2 w2 where a: "async_loop p s w1 = Some (Inr (fin, s2, w2))"
      using assms(2) v True by (auto simp: TS_Dispatch_def split: option.splits sum.splits)
    note a' = async_loop_ok [OF a assms(1) refl]
    show ?thesis
    proof (cases fin)
      case True
      with assms(2) v \<open>v\<close> a obtain r where r: "task_loop p s2 w2 = Some r"
        "map_sum id (\<lambda>(finished, s3, w3). (s3, if finished then callback w3 else w3)) r = Inr (s', w')"
        by (auto simp: TS_Dispatch_def)
      then obtain fin3 w3 where t: "task_loop p s2 w2 = Some (Inr (fin3, s', w3))" by (cases r) auto
      from task_loop_ok [OF t _ refl] a' show ?thesis by metis
    next
      case False
      then have "s' = s2" using assms(2) v \<open>v\<close> a by (auto simp: TS_Dispatch_def)
      then show ?thesis using a' False by blast
    qed
  qed
qed

theorem dispatch_invariant_witness:
  "\<exists>s' w'. TS_Dispatch example_program id example_scheduler [] = Some (Inr (s', w')) \<and> ts_inv s' \<and>
    (\<forall>i\<in>set (ts_queue s'). 25 < tk_end (ts_heap s' i))"
proof -
  have "\<exists>s' w'. TS_Dispatch example_program id example_scheduler [] = Some (Inr (s', w'))"
    by (simp add: TS_Dispatch_def async_loop.simps task_loop.simps example_program_def example_scheduler_def
        EmptyValidator_def Task_def Context_Invoke_def TaskContext_def)
  then show ?thesis
    using dispatch_invariant [OF example_scheduler_inv, of example_program id "[]"]
    by (auto simp: example_scheduler_def EmptyValidator_def)
qed

text \<open>
  C29: due tasks run exactly once, in the order of their ends.  When the tasks call nothing on
  the scheduler and nothing asynchronous is queued, an update returns: it has run the tasks
  whose end is not after the new time, earliest first, then the callback, and the others
  are still in the queue.
\<close>
theorem dispatch_runs_due_tasks:
  assumes "\<forall>t w. pr_task p t w = ([], f t w)" "\<forall>w. ts_predicate s w = (True, w)" "ts_async s = []" "ts_inv s"
  defines "due \<equiv> \<lambda>i. tk_end (ts_heap s i) \<le> ts_now s"
  shows "TS_Dispatch p callback s w =
      Some (Inr (s\<lparr>ts_queue := filter (\<lambda>i. \<not> due i) (ts_queue s)\<rparr>,
        callback (fold f (map (ts_heap s) (filter due (ts_queue s))) w))) \<and>
    sorted (map (\<lambda>i. tk_end (ts_heap s i)) (filter due (ts_queue s)))"
proof -
  have s: "by_end (ts_heap s) (ts_queue s)" using assms(4) by (simp add: ts_inv_def)
  have split: "takeWhile due q = filter due q \<and> dropWhile due q = filter (\<lambda>i. \<not> due i) q" if "by_end (ts_heap s) q" for q
    using that
  proof (induction q)
    case (Cons i q)
    show ?case
    proof (cases "due i")
      case False
      then have "\<forall>j\<in>set q. \<not> due j" using Cons.prems by (auto simp: due_def)
      then show ?thesis using False by simp
    qed (use Cons in simp)
  qed simp
  have "async_loop p s w = Some (Inr (True, s, w))" using assms(3) by (subst async_loop.simps) simp
  then show ?thesis
    using task_loop_plain [OF assms(1,2), of w] assms(2) split [OF s] by_end_filter [OF s, of due]
    by (simp add: TS_Dispatch_def by_end_def due_def)
qed

theorem dispatch_runs_due_tasks_witness:
  "\<exists>s'. TS_Dispatch example_program id example_scheduler [] = Some (Inr (s', [2])) \<and> ts_queue s' = [0]"
  using dispatch_runs_due_tasks [of example_program _ example_scheduler, OF _ _ _ example_scheduler_inv, of _ id "[]"]
  by (simp add: example_program_def example_scheduler_def EmptyValidator_def Task_def)

text \<open>
  C30: a repeating task keeps its rate.  A single task that repeats itself with a positive
  period is caught up by an update, which returns: after the \<open>n\<close> runs that were due, its
  next end is \<open>n\<close> periods later, the first after the new time, whenever the update came;
  and the repeat counter has grown by \<open>n\<close>, modulo 32 bits.
\<close>
theorem repeat_keeps_rate:
  assumes "\<forall>t w. pr_task p t w = ([CallRepeatSame], f w)" "\<forall>w. ts_predicate s w = (True, w)"
    and "ts_async s = []" "ts_queue s = [i]" "0 < d" "tk_duration (ts_heap s i) = d"
  shows "\<exists>n s'. TS_Dispatch p callback s w = Some (Inr (s', callback ((f ^^ n) w))) \<and> ts_queue s' = [i] \<and>
    tk_end (ts_heap s' i) = tk_end (ts_heap s i) + int n * d \<and> ts_now s < tk_end (ts_heap s' i) \<and>
    (n = 0 \<or> tk_end (ts_heap s' i) - d \<le> ts_now s) \<and> tk_repeated (ts_heap s' i) = tk_repeated (ts_heap s i) + word_of_nat n"
proof -
  let ?e = "tk_end (ts_heap s i)" and ?now = "ts_now s"
  define n where "n = (if ?now < ?e then 0 else nat ((?now - ?e) div d + 1))"
  have n: "?now < ?e + int n * d" "n = 0 \<or> ?e + int (n - 1) * d \<le> ?now"
  proof -
    let ?q = "(?now - ?e) div d"
    have q: "0 \<le> ?q" if "\<not> ?now < ?e" using that assms(5) by (simp add: pos_imp_zdiv_nonneg_iff)
    have m: "?q * d \<le> ?now - ?e" "?now - ?e < ?q * d + d"
      using assms(5) div_mult_mod_eq [of "?now - ?e" d] pos_mod_bound [OF assms(5), of "?now - ?e"]
        pos_mod_sign [OF assms(5), of "?now - ?e"] by linarith+
    have "int n * d = ?q * d + d" if "\<not> ?now < ?e" using q [OF that] that by (simp add: n_def distrib_right)
    then show "?now < ?e + int n * d" using m(2) by (cases "?now < ?e") (simp_all add: n_def)
    have "int (n - 1) = (?now - ?e) div d" if "\<not> ?now < ?e" using q [OF that] that by (simp add: n_def nat_add_distrib)
    then show "n = 0 \<or> ?e + int (n - 1) * d \<le> ?now" using m by (cases "?now < ?e") (auto simp: n_def)
  qed
  have "async_loop p s w = Some (Inr (True, s, w))" using assms(3) by (subst async_loop.simps) simp
  moreover obtain s' where s': "task_loop p s w = Some (Inr (True, s', (f ^^ n) w))" "ts_queue s' = [i]"
    "tk_end (ts_heap s' i) = ?e + int n * d" "tk_repeated (ts_heap s' i) = tk_repeated (ts_heap s i) + word_of_nat n"
    using task_loop_repeat [OF assms(1,2,4), of n w] n assms(5,6) by auto
  ultimately have "TS_Dispatch p callback s w = Some (Inr (s', callback ((f ^^ n) w)))"
    using assms(2) by (simp add: TS_Dispatch_def)
  moreover have "n = 0 \<or> tk_end (ts_heap s' i) - d \<le> ?now" using n(2) s'(3) by (cases n) (auto simp: algebra_simps)
  ultimately show ?thesis using s' n(1) by (intro exI [of _ n] exI [of _ s']) simp
qed

theorem repeat_keeps_rate_witness:
  "\<exists>n s'. TS_Dispatch (example_program\<lparr>pr_task := (\<lambda>t w. ([CallRepeatSame], w @ [7]))\<rparr>) id
      (example_scheduler\<lparr>ts_queue := [1]\<rparr>) [] = Some (Inr (s', ((\<lambda>w. w @ [7]) ^^ n) [])) \<and>
    25 < tk_end (ts_heap s' 1) \<and> tk_end (ts_heap s' 1) - 10 \<le> 25"
  using repeat_keeps_rate [of "example_program\<lparr>pr_task := (\<lambda>t w. ([CallRepeatSame], w @ [7]))\<rparr>" "\<lambda>w. w @ [7]"
      "example_scheduler\<lparr>ts_queue := [1]\<rparr>" 1 10 id "[]"]
  by (auto simp: example_program_def example_scheduler_def EmptyValidator_def Task_def)

text \<open>
  The group operations act on exactly the tasks of the group.  As a multiset of tasks,
  delaying a group moves the end of each of its tasks by the duration, rescheduling sets it
  to the duration from now, cancelling removes them; all other tasks keep every field.
\<close>
theorem group_operations:
  assumes "ts_inv s"
  shows "tasks (TS_DelayGroup g d s) =
      image_mset (\<lambda>t. if tk_group t = Some g then t\<lparr>tk_end := tk_end t + d\<rparr> else t) (tasks s) \<and>
    tasks (TS_RescheduleGroup g d s) =
      image_mset (\<lambda>t. if tk_group t = Some g then t\<lparr>tk_end := ts_now s + d\<rparr> else t) (tasks s) \<and>
    tasks (TS_CancelGroup g s) = filter_mset (\<lambda>t. tk_group t \<noteq> Some g) (tasks s)"
proof (intro conjI)
  have f: "(\<lambda>t. snd (if tk_group t = Some g then (True, t\<lparr>tk_end := e t\<rparr>) else (False, t))) =
      (\<lambda>t. if tk_group t = Some g then t\<lparr>tk_end := e t\<rparr> else t)" for e :: "'a task \<Rightarrow> int"
    by auto
  show "tasks (TS_DelayGroup g d s) =
      image_mset (\<lambda>t. if tk_group t = Some g then t\<lparr>tk_end := tk_end t + d\<rparr> else t) (tasks s)"
    unfolding TS_DelayGroup_def Task_IsInGroup_def f [symmetric] by (rule ModifyIf_ok(2) [OF assms]) simp
  show "tasks (TS_RescheduleGroup g d s) =
      image_mset (\<lambda>t. if tk_group t = Some g then t\<lparr>tk_end := ts_now s + d\<rparr> else t) (tasks s)"
    unfolding TS_RescheduleGroup_def Let_def Task_IsInGroup_def f [symmetric] by (rule ModifyIf_ok(2) [OF assms]) simp
  show "tasks (TS_CancelGroup g s) = filter_mset (\<lambda>t. tk_group t \<noteq> Some g) (tasks s)"
    by (simp add: tasks_def TS_CancelGroup_def Queue_RemoveIf_def remove_loop_filter Task_IsInGroup_def
        filter_mset_image_mset comp_def flip: mset_filter)
qed

theorem group_operations_witness:
  "tasks (TS_CancelGroup 1 example_scheduler) = {#Task 20 10 (Some 2) 0 ()#}"
  using group_operations [OF example_scheduler_inv, of 1 5]
  by (simp add: tasks_def example_scheduler_def Task_def)

text \<open>
  An asynchronous callable that cancels everything corrupts the queue it runs from.
  \<open>Dispatch\<close> calls the front of the asynchronous queue and pops it afterwards; \<open>CancelAll\<close>
  empties that queue, and popping an empty queue is undefined.
\<close>
theorem async_cancel_all_undefined:
  assumes "ts_async s = a # rest" "pr_async p a w1 = ([CallCancelAll], w2)" "ts_predicate s w = (True, w1)"
  shows "TS_Dispatch p callback s w = Some (Inl UndefinedBehaviour)"
proof -
  have "async_loop p s w1 = Some (Inl UndefinedBehaviour)"
    using assms(1,2) by (subst async_loop.simps) (simp add: TS_CancelAll_def Queue_Clear_def)
  then show ?thesis using assms(3) by (simp add: TS_Dispatch_def)
qed

theorem async_cancel_all_undefined_witness:
  "TS_Dispatch example_program id (example_scheduler\<lparr>ts_async := [()]\<rparr>) [] = Some (Inl UndefinedBehaviour)"
  using async_cancel_all_undefined [of "example_scheduler\<lparr>ts_async := [()]\<rparr>" "()" "[]" example_program "[]" "[]" "[]" id]
  by (simp add: example_program_def example_scheduler_def EmptyValidator_def)

end
