(* ===== verification/Timers.thy ===== *)
theory Timers
  imports Text "HOL-Library.Signed_Division"
begin

text \<open>
  \<^verbatim>\<open>src/common/Utilities/Timer.h\<close> and \<^verbatim>\<open>Timer.cpp\<close> (the timer structures, differences of
  millisecond counters and durations as text) and \<^verbatim>\<open>src/client/Time/UpdateTime.h\<close> and
  \<^verbatim>\<open>UpdateTime.cpp\<close> (statistics over the last 500 updates).  \<open>time_t\<close> is a signed 64-bit
  integer: arithmetic that leaves it is undefined.  The clocks are arguments.
\<close>

section \<open>Differences of counters\<close>

definition fits :: "nat \<Rightarrow> int \<Rightarrow> bool" where
  "fits bits v \<longleftrightarrow> - (2 ^ (bits - 1)) \<le> v \<and> v < 2 ^ (bits - 1)"

definition checked :: "nat \<Rightarrow> int \<Rightarrow> int result" where
  "checked bits v = (if fits bits v then Inr v else Inl UndefinedBehaviour)"

definition GetMSTimeDiff :: "int \<Rightarrow> int \<Rightarrow> int result" where
  "GetMSTimeDiff oldMSTime newMSTime =
     checked 64 (if oldMSTime > newMSTime then oldMSTime - newMSTime else newMSTime - oldMSTime)"

text \<open>\<open>getMSTime\<close>: the milliseconds of \<open>steady_clock\<close> since the start, in nanoseconds, cut to 32 bits.\<close>

definition getMSTime :: "int \<Rightarrow> int \<Rightarrow> uint32" where
  "getMSTime start now = word_of_int ((now - start) sdiv 1000000)"

definition getMSTimeDiff :: "uint32 \<Rightarrow> uint32 \<Rightarrow> uint32" where
  "getMSTimeDiff oldMSTime newMSTime =
     (if oldMSTime > newMSTime then (0xFFFFFFFF - oldMSTime) + newMSTime else newMSTime - oldMSTime)"

definition getMSTimeDiff_point :: "uint32 \<Rightarrow> int \<Rightarrow> int \<Rightarrow> uint32" where
  "getMSTimeDiff_point oldMSTime start newTime =
     (let newMSTime = word_of_int ((newTime - start) sdiv 1000000) in getMSTimeDiff oldMSTime newMSTime)"

definition GetMSTimeDiffToNow :: "uint32 \<Rightarrow> int \<Rightarrow> int \<Rightarrow> uint32" where
  "GetMSTimeDiffToNow oldMSTime start now = getMSTimeDiff oldMSTime (getMSTime start now)"

text \<open>Across the overflow of the counter the difference is one millisecond short.\<close>

lemma getMSTimeDiff_wrap:
  "getMSTimeDiff old new = (if old > new then new - old - 1 else new - old)"
proof -
  have m: "(0xFFFFFFFF :: uint32) = - 1" by simp
  show ?thesis unfolding getMSTimeDiff_def m by simp
qed

section \<open>The timer structures\<close>

record interval_timer =
  itm_interval :: int
  itm_current :: int

definition IntervalTimer_new :: interval_timer where
  "IntervalTimer_new = \<lparr>itm_interval = 0, itm_current = 0\<rparr>"

definition IntervalTimer_Update :: "int \<Rightarrow> interval_timer \<Rightarrow> interval_timer result" where
  "IntervalTimer_Update diff t =
     rbind (checked 64 (itm_current t + diff)) (\<lambda>c. Inr (t\<lparr>itm_current := if c < 0 then 0 else c\<rparr>))"

definition IntervalTimer_Passed :: "interval_timer \<Rightarrow> bool" where
  "IntervalTimer_Passed t \<longleftrightarrow> itm_current t \<ge> itm_interval t"

definition IntervalTimer_Reset :: "interval_timer \<Rightarrow> interval_timer result" where
  "IntervalTimer_Reset t =
     (if itm_current t \<ge> itm_interval t then
        (if itm_interval t = 0 then Inl UndefinedBehaviour
         else Inr (t\<lparr>itm_current := itm_current t smod itm_interval t\<rparr>))
      else Inr t)"

definition IntervalTimer_SetCurrent :: "int \<Rightarrow> interval_timer \<Rightarrow> interval_timer" where
  "IntervalTimer_SetCurrent current t = t\<lparr>itm_current := current\<rparr>"

definition IntervalTimer_SetInterval :: "int \<Rightarrow> interval_timer \<Rightarrow> interval_timer" where
  "IntervalTimer_SetInterval interval t = t\<lparr>itm_interval := interval\<rparr>"

record time_tracker =
  tt_expiryTime :: int

definition TimeTracker_new :: "int \<Rightarrow> time_tracker" where
  "TimeTracker_new expiry = \<lparr>tt_expiryTime = expiry\<rparr>"

definition TimeTracker_Update :: "int \<Rightarrow> time_tracker \<Rightarrow> time_tracker result" where
  "TimeTracker_Update diff t = rbind (checked 64 (tt_expiryTime t - diff)) (\<lambda>e. Inr (t\<lparr>tt_expiryTime := e\<rparr>))"

definition TimeTracker_Passed :: "time_tracker \<Rightarrow> bool" where
  "TimeTracker_Passed t \<longleftrightarrow> tt_expiryTime t \<le> 0"

definition TimeTracker_Reset :: "int \<Rightarrow> time_tracker \<Rightarrow> time_tracker" where
  "TimeTracker_Reset interval t = t\<lparr>tt_expiryTime := interval\<rparr>"

text \<open>\<open>TimeTrackerSmall\<close> keeps an \<open>int32\<close> and takes unsigned values.\<close>

definition TimeTrackerSmall_new :: "uint32 \<Rightarrow> time_tracker" where
  "TimeTrackerSmall_new expiry = \<lparr>tt_expiryTime = sint expiry\<rparr>"

definition TimeTrackerSmall_Update :: "int \<Rightarrow> time_tracker \<Rightarrow> time_tracker result" where
  "TimeTrackerSmall_Update diff t = rbind (checked 32 (tt_expiryTime t - diff)) (\<lambda>e. Inr (t\<lparr>tt_expiryTime := e\<rparr>))"

definition TimeTrackerSmall_Passed :: "time_tracker \<Rightarrow> bool" where
  "TimeTrackerSmall_Passed t \<longleftrightarrow> tt_expiryTime t \<le> 0"

definition TimeTrackerSmall_Reset :: "uint32 \<Rightarrow> time_tracker \<Rightarrow> time_tracker" where
  "TimeTrackerSmall_Reset interval t = t\<lparr>tt_expiryTime := sint interval\<rparr>"

record periodic_timer =
  pt_period :: "32 word"
  pt_expireTime :: "32 word"

definition PeriodicTimer_new :: "32 word \<Rightarrow> 32 word \<Rightarrow> periodic_timer" where
  "PeriodicTimer_new period start_time = \<lparr>pt_period = period, pt_expireTime = start_time\<rparr>"

text \<open>Mixing \<open>int32\<close> and \<open>uint32\<close>, the arithmetic is unsigned and wraps; the comparisons are signed.\<close>

definition PeriodicTimer_Update :: "uint32 \<Rightarrow> periodic_timer \<Rightarrow> bool \<times> periodic_timer" where
  "PeriodicTimer_Update diff t =
     (let e = pt_expireTime t - diff
      in if sint e > 0 then (False, t\<lparr>pt_expireTime := e\<rparr>)
         else (True, t\<lparr>pt_expireTime := e + (if sint (pt_period t) > sint diff then pt_period t else diff)\<rparr>))"

definition PeriodicTimer_SetPeriodic :: "32 word \<Rightarrow> 32 word \<Rightarrow> periodic_timer \<Rightarrow> periodic_timer" where
  "PeriodicTimer_SetPeriodic period start_time t = t\<lparr>pt_expireTime := start_time, pt_period := period\<rparr>"

definition PeriodicTimer_TUpdate :: "32 word \<Rightarrow> periodic_timer \<Rightarrow> periodic_timer result" where
  "PeriodicTimer_TUpdate diff t =
     rbind (checked 32 (sint (pt_expireTime t) - sint diff)) (\<lambda>e. Inr (t\<lparr>pt_expireTime := word_of_int e\<rparr>))"

definition PeriodicTimer_TPassed :: "periodic_timer \<Rightarrow> bool" where
  "PeriodicTimer_TPassed t \<longleftrightarrow> sint (pt_expireTime t) \<le> 0"

definition PeriodicTimer_TReset :: "32 word \<Rightarrow> 32 word \<Rightarrow> periodic_timer \<Rightarrow> periodic_timer result" where
  "PeriodicTimer_TReset diff period t =
     rbind (checked 32 (sint (pt_expireTime t) + (if sint period > sint diff then sint period else sint diff)))
       (\<lambda>e. Inr (t\<lparr>pt_expireTime := word_of_int e\<rparr>))"

section \<open>Durations as text\<close>

datatype TimeFormat = FullText | ShortText | Numeric

text \<open>The parts of a duration in microseconds; a signed count divided by an unsigned constant is unsigned.\<close>

definition time_parts :: "int \<Rightarrow> uint64 list" where
  "time_parts duration =
     (let c = word_of_int duration :: uint64
      in [c div 86400000000, (c div 3600000000) mod 24, (c div 60000000) mod 60, (c div 1000000) mod 60,
          (c div 1000) mod 1000, word_of_int (duration smod 1000)])"

definition pad2 :: "uint64 \<Rightarrow> string" where
  "pad2 n = (if n < 10 then CHR ''0'' # nat_digits (unat n) else nat_digits (unat n))"

fun numeric_out :: "nat \<Rightarrow> uint64 list \<Rightarrow> bool \<Rightarrow> nat \<Rightarrow> string \<Rightarrow> string" where
  "numeric_out outCount [] isFirst count out = out"
| "numeric_out outCount (time # rest) isFirst count out =
     (if time = 0 \<or> count \<ge> outCount then numeric_out outCount rest isFirst count out
      else numeric_out outCount rest True (Suc count)
        (out @ (if \<not> isFirst then nat_digits (unat time) else pad2 time) @ '':''))"

fun text_out :: "TimeFormat \<Rightarrow> nat \<Rightarrow> (uint64 \<times> string \<times> string \<times> string) list \<Rightarrow> nat \<Rightarrow> string \<Rightarrow> string" where
  "text_out fmt outCount [] count out = out"
| "text_out fmt outCount ((time, shortText, fullText1, fullText) # rest) count out =
     (if time = 0 \<or> count \<ge> outCount then text_out fmt outCount rest count out
      else let timeCount = ucast time :: uint32
           in text_out fmt outCount rest (Suc count)
             (out @ nat_digits (unat timeCount) @
              (case fmt of ShortText \<Rightarrow> shortText
               | FullText \<Rightarrow> if timeCount = 1 then fullText1 else fullText
               | Numeric \<Rightarrow> ''<Unknown time format>'')))"

definition ToTimeString :: "int \<Rightarrow> nat \<Rightarrow> TimeFormat \<Rightarrow> string" where
  "ToTimeString durationTime outCount timeFormat =
     (if timeFormat = Numeric then butlast (numeric_out outCount (time_parts durationTime) False 0 [])
      else TrimRightInPlace (text_out timeFormat outCount
        (zip (time_parts durationTime)
          [(''d '', '' Day '', '' Days ''), (''h '', '' Hour '', '' Hours ''), (''m '', '' Minute '', '' Minutes ''),
           (''s '', '' Second '', '' Seconds ''), (''ms '', '' Millisecond '', '' Milliseconds ''),
           (''us '', '' Microsecond '', '' Microseconds '')]) 0 []))"

section \<open>Update times\<close>

definition AVG_DIFF_COUNT :: nat where
  "AVG_DIFF_COUNT = 500"

record update_time =
  ut_table :: "uint32 list"
  ut_average :: uint32
  ut_total :: uint32
  ut_index :: nat
  ut_max :: uint32
  ut_maxOfLastTable :: uint32
  ut_maxOfCurrentTable :: uint32
  ut_recordedTime :: uint32

definition UpdateTime_new :: update_time where
  "UpdateTime_new = \<lparr>ut_table = replicate AVG_DIFF_COUNT 0, ut_average = 0, ut_total = 0, ut_index = 0, ut_max = 0,
     ut_maxOfLastTable = 0, ut_maxOfCurrentTable = 0, ut_recordedTime = 0\<rparr>"

definition GetTimeWeightedAverageUpdateTime :: "update_time \<Rightarrow> uint32" where
  "GetTimeWeightedAverageUpdateTime u =
     (let (sum, weightsum) = foldl (\<lambda>(sum, weightsum) diff. (sum + diff * diff, weightsum + diff)) (0, 0) (ut_table u)
      in if weightsum = 0 then 0 else sum div weightsum)"

definition GetMaxUpdateTimeOfCurrentTable :: "update_time \<Rightarrow> uint32" where
  "GetMaxUpdateTimeOfCurrentTable u = max (ut_maxOfCurrentTable u) (ut_maxOfLastTable u)"

definition GetLastUpdateTime :: "update_time \<Rightarrow> uint32" where
  "GetLastUpdateTime u = ut_table u ! (if ut_index u \<noteq> 0 then ut_index u - 1 else AVG_DIFF_COUNT - 1)"

definition UpdateWithDiff :: "uint32 \<Rightarrow> update_time \<Rightarrow> update_time" where
  "UpdateWithDiff diff u =
     (let tot = ut_total u - ut_table u ! ut_index u + diff;
          table = (ut_table u)[ut_index u := diff];
          mx = (if diff > ut_max u then diff else ut_max u);
          mxc = (if diff > ut_maxOfCurrentTable u then diff else ut_maxOfCurrentTable u);
          i = ut_index u + 1;
          (index, mxl, mxc') = (if i \<ge> AVG_DIFF_COUNT then (0, mxc, 0) else (i, ut_maxOfLastTable u, mxc));
          average =
            (if table ! (AVG_DIFF_COUNT - 1) \<noteq> 0 then tot div word_of_nat AVG_DIFF_COUNT
             else if index \<noteq> 0 then tot div word_of_nat index else ut_average u)
      in u\<lparr>ut_total := tot, ut_table := table, ut_max := mx, ut_index := index, ut_maxOfLastTable := mxl,
           ut_maxOfCurrentTable := mxc', ut_average := average\<rparr>)"

definition RecordUpdateTimeReset :: "uint32 \<Rightarrow> update_time \<Rightarrow> update_time" where
  "RecordUpdateTimeReset now u = u\<lparr>ut_recordedTime := now\<rparr>"

text \<open>The first component: the difference that is logged, if any.\<close>

definition RecordUpdateTimeDuration :: "uint32 \<Rightarrow> uint32 \<Rightarrow> update_time \<Rightarrow> uint32 option \<times> update_time" where
  "RecordUpdateTimeDuration thisTime minUpdateTime u =
     (let diff = getMSTimeDiff (ut_recordedTime u) thisTime
      in (if diff > minUpdateTime then Some diff else None, u\<lparr>ut_recordedTime := thisTime\<rparr>))"

record discord_update_time = update_time +
  du_recordUpdateTimeInverval :: uint32
  du_recordUpdateTimeMin :: uint32
  du_lastRecordTime :: uint32

definition RecordUpdateTime :: "uint32 \<Rightarrow> discord_update_time \<Rightarrow> uint32 option \<times> discord_update_time" where
  "RecordUpdateTime gameTimeMs u =
     (if du_recordUpdateTimeInverval u > 0 \<and> getMSTimeDiff (du_lastRecordTime u) gameTimeMs > du_recordUpdateTimeInverval u
      then (Some (ut_average u), u\<lparr>du_lastRecordTime := gameTimeMs\<rparr>) else (None, u))"

section \<open>The window of the last 500 updates\<close>

text \<open>
  The state after the updates \<open>ds\<close>, latest last: the table holds the last 500 of them, counted
  backwards from the slot before the index, and zeros where there were not so many.
\<close>

definition history :: "uint32 list \<Rightarrow> uint32 list" where
  "history ds = rev ds @ replicate 500 0"

definition ut_state :: "uint32 list \<Rightarrow> update_time \<Rightarrow> bool" where
  "ut_state ds u \<longleftrightarrow> length (ut_table u) = 500 \<and> ut_index u = length ds mod 500 \<and>
     (\<forall>k<500. ut_table u ! ((length ds + 499 - k) mod 500) = history ds ! k) \<and>
     ut_total u = sum_list (take 500 (history ds))"

lemma ut_state_new: "ut_state [] UpdateTime_new"
  by (simp add: ut_state_def UpdateTime_new_def history_def AVG_DIFF_COUNT_def sum_list_replicate)

lemma slot_other:
  assumes "(k :: nat) < 499"
  shows "(n + 499 - k) mod 500 \<noteq> n mod 500"
proof
  assume "(n + 499 - k) mod 500 = n mod 500"
  then have "(500 :: nat) dvd (n + 499 - k) - n" using assms by (subst mod_eq_dvd_iff_nat [symmetric]) simp_all
  then have "500 dvd 499 - k" using assms by simp
  then show False using assms by (auto dest!: dvd_imp_le)
qed

lemma slot_before: "(n + 499) mod 500 = (if n mod 500 \<noteq> 0 then n mod 500 - 1 else (499 :: nat))"
proof (cases "n mod 500")
  case 0
  then show ?thesis using mod_add_left_eq [of n 500 499] by simp
next
  case (Suc m)
  then have "m < 500" using mod_less_divisor [of 500 n] by simp
  moreover have "(n + 499) mod 500 = (Suc m + 499) mod 500" using mod_add_left_eq [of n 500 499] Suc by simp
  moreover have "Suc m + 499 = m + 500" by simp
  ultimately show ?thesis using Suc by (simp only: mod_add_self2) simp
qed

lemma UpdateWithDiff_fields:
  "ut_table (UpdateWithDiff d u) = (ut_table u)[ut_index u := d]"
  "ut_total (UpdateWithDiff d u) = ut_total u - ut_table u ! ut_index u + d"
  "ut_index (UpdateWithDiff d u) = (if ut_index u + 1 \<ge> 500 then 0 else ut_index u + 1)"
  "ut_average (UpdateWithDiff d u) =
     (let table = (ut_table u)[ut_index u := d]; index = (if ut_index u + 1 \<ge> 500 then 0 else ut_index u + 1);
          tot = ut_total u - ut_table u ! ut_index u + d
      in if table ! 499 \<noteq> 0 then tot div 500 else if index \<noteq> 0 then tot div word_of_nat index else ut_average u)"
  by (simp_all add: UpdateWithDiff_def Let_def AVG_DIFF_COUNT_def)

lemma ut_state_step:
  assumes "ut_state ds u"
  shows "ut_state (ds @ [d]) (UpdateWithDiff d u)"
proof -
  let ?n = "length ds"
  have len: "length (history ds) = ?n + 500" by (simp add: history_def)
  have hist: "history (ds @ [d]) = d # history ds" by (simp add: history_def)
  have i: "ut_index u = ?n mod 500" and t: "length (ut_table u) = 500"
    and tot: "ut_total u = sum_list (take 500 (history ds))"
    and slot: "\<And>k. k < 500 \<Longrightarrow> ut_table u ! ((?n + 499 - k) mod 500) = history ds ! k"
    using assms by (simp_all add: ut_state_def)
  have old: "ut_table u ! (?n mod 500) = history ds ! 499" using slot [of 499] by simp
  have "take 500 (history ds) = take 499 (history ds) @ [history ds ! 499]"
    using len take_Suc_conv_app_nth [of 499 "history ds"] by simp
  then have total: "ut_total (UpdateWithDiff d u) = sum_list (take 500 (history (ds @ [d])))"
    using tot old i by (simp add: UpdateWithDiff_fields hist)
  have index: "ut_index (UpdateWithDiff d u) = length (ds @ [d]) mod 500"
    using i mod_less_divisor [of 500 ?n] by (auto simp: UpdateWithDiff_fields mod_Suc)
  have "ut_table (UpdateWithDiff d u) ! ((length (ds @ [d]) + 499 - k) mod 500) = history (ds @ [d]) ! k" if k: "k < 500" for k
  proof (cases k)
    case 0
    have "(length (ds @ [d]) + 499 - 0) mod 500 = ?n mod 500" by simp
    then show ?thesis using 0 t i by (simp add: UpdateWithDiff_fields hist)
  next
    case (Suc j)
    then have "(length (ds @ [d]) + 499 - k) mod 500 = (?n + 499 - j) mod 500" by (simp add: add.commute)
    then show ?thesis using slot_other [of j ?n] slot [of j] i k Suc by (simp add: UpdateWithDiff_fields hist)
  qed
  then show ?thesis using total index t by (simp add: ut_state_def UpdateWithDiff_fields)
qed

definition updates :: "uint32 list \<Rightarrow> update_time" where
  "updates ds = foldl (\<lambda>u d. UpdateWithDiff d u) UpdateTime_new ds"

lemma updates_state: "ut_state ds (updates ds)"
  by (induction ds rule: rev_induct) (simp_all add: updates_def ut_state_new ut_state_step)

text \<open>The last slot of the table, which the code takes for the sign that the table is full.\<close>

lemma last_slot: "ut_table (updates ds) ! 499 = history ds ! (length ds mod 500)"
proof -
  have "(length ds + 499 - length ds mod 500) mod 500 = 499"
  proof -
    have "length ds + 499 - length ds mod 500 = 499 + length ds div 500 * 500"
      using div_mult_mod_eq [of "length ds" 500] by linarith
    then show ?thesis by simp
  qed
  then show ?thesis using updates_state [of ds] by (auto simp: ut_state_def dest!: spec [of _ "length ds mod 500"])
qed

lemma updates_snoc_average:
  "ut_average (updates (ds @ [d])) =
    (if ut_table (updates (ds @ [d])) ! 499 \<noteq> 0 then ut_total (updates (ds @ [d])) div 500
     else if ut_index (updates (ds @ [d])) \<noteq> 0
       then ut_total (updates (ds @ [d])) div word_of_nat (ut_index (updates (ds @ [d])))
     else ut_average (updates ds))"
  by (simp add: updates_def UpdateWithDiff_fields Let_def)

section \<open>Properties\<close>

text \<open>
  C40: the average update time is the average over the last 500 updates.  After any sequence
  of non-zero differences the reported average is the sum of the last 500 of them (modulo 32
  bits) divided by their number, or by the number of updates when there were fewer; and the
  last update time is the last difference.
\<close>
theorem average_update_time:
  assumes "ds \<noteq> []" "0 \<notin> set ds"
  shows "ut_average (updates ds) = sum_list (take 500 (rev ds)) div word_of_nat (min 500 (length ds)) \<and>
    GetLastUpdateTime (updates ds) = last ds"
proof -
  let ?n = "length ds"
  obtain ds' d where ds: "ds = ds' @ [d]" using assms(1) by (cases ds rule: rev_cases) auto
  have st: "ut_state ds (updates ds)" by (rule updates_state)
  have sum: "ut_total (updates ds) = sum_list (take 500 (rev ds))"
    using st by (simp add: ut_state_def history_def sum_list_replicate)
  have avg: "ut_average (updates ds) = sum_list (take 500 (rev ds)) div word_of_nat (min 500 ?n)"
  proof (cases "500 \<le> ?n")
    case True
    have "?n mod 500 < ?n" using True by (intro order_less_le_trans [OF mod_less_divisor]) simp_all
    then have "history ds ! (?n mod 500) \<in> set ds" by (auto simp: history_def nth_append rev_nth)
    then have "ut_table (updates ds) ! 499 \<noteq> 0" using last_slot [of ds] assms(2) by auto
    then show ?thesis using updates_snoc_average [of ds' d] ds sum True by simp
  next
    case False
    then have "ut_table (updates ds) ! 499 = 0" using last_slot [of ds] by (simp add: history_def nth_append)
    moreover have "ut_index (updates ds) = ?n" "?n \<noteq> 0" using st False assms(1) by (simp_all add: ut_state_def)
    ultimately show ?thesis using updates_snoc_average [of ds' d] ds sum False by simp
  qed
  have "history ds ! 0 = last ds" using ds by (simp add: history_def)
  moreover have "(?n + 499) mod 500 = (if ?n mod 500 \<noteq> 0 then ?n mod 500 - 1 else 499)" by (rule slot_before)
  moreover have "ut_table (updates ds) ! ((?n + 499) mod 500) = history ds ! 0"
    using st by (auto simp: ut_state_def dest!: spec [of _ 0])
  ultimately have "GetLastUpdateTime (updates ds) = last ds"
    using st by (simp add: GetLastUpdateTime_def ut_state_def AVG_DIFF_COUNT_def split: if_splits)
  with avg show ?thesis by simp
qed

theorem average_update_time_witness: "ut_average (updates [10, 20, 60]) = 30 \<and> GetLastUpdateTime (updates [10, 20, 60]) = 60"
  using average_update_time [of "[10, 20, 60]"] by simp

text \<open>
  Non-zero differences are needed: with a zero in the last slot the table is taken for not
  full, and the sum over 500 updates is divided by the index.
\<close>

lemma average_with_zero_slot:
  assumes "500 < length ds" "ut_table (updates ds) ! 499 = 0" "length ds mod 500 \<noteq> 0"
  shows "ut_average (updates ds) = sum_list (take 500 (rev ds)) div word_of_nat (length ds mod 500)"
proof -
  obtain ds' d where ds: "ds = ds' @ [d]" using assms(1) by (cases ds rule: rev_cases) auto
  have "ut_index (updates ds) = length ds mod 500" "ut_total (updates ds) = sum_list (take 500 (rev ds))"
    using updates_state [of ds] by (simp_all add: ut_state_def history_def sum_list_replicate)
  then show ?thesis using updates_snoc_average [of ds' d] ds assms(2,3) by simp
qed

end
