(* ===== verification/Utilities.thy ===== *)
theory Utilities
  imports Timers "HOL-Library.Multiset"
begin

text \<open>
  Small parts of the common library: the flag operators of \<^verbatim>\<open>src/common/EnumUtil/EnumFlag.h\<close>, the
  callback list of \<^verbatim>\<open>src/common/Utilities/AsyncCallbackProcessor.h\<close>, the clock of
  \<^verbatim>\<open>src/client/Time/GameTime.cpp\<close>, the stop watch of \<^verbatim>\<open>src/common/Utilities/StopWatch.h\<close> and the
  default netmask of \<^verbatim>\<open>src/common/Asio/IpNetwork.h\<close>, and floating-point numbers as text.
\<close>

section \<open>Flags\<close>

text \<open>An enumeration of flags over an underlying type of any width; signed types have the same bits.\<close>

type_synonym 'a enum_flag = "'a word"

definition flag_and :: "'a::len enum_flag \<Rightarrow> 'a enum_flag \<Rightarrow> 'a enum_flag" where
  "flag_and left right = left AND right"

definition flag_or :: "'a::len enum_flag \<Rightarrow> 'a enum_flag \<Rightarrow> 'a enum_flag" where
  "flag_or left right = left OR right"

definition flag_not :: "'a::len enum_flag \<Rightarrow> 'a enum_flag" where
  "flag_not f = NOT f"

definition RemoveFlag :: "'a::len enum_flag \<Rightarrow> 'a enum_flag \<Rightarrow> 'a enum_flag" where
  "RemoveFlag flag f = flag_and f (flag_not flag)"

definition HasFlag :: "'a::len enum_flag \<Rightarrow> 'a enum_flag \<Rightarrow> bool" where
  "HasFlag flag f \<longleftrightarrow> flag_and f flag \<noteq> 0"

definition HasAllFlags :: "'a::len enum_flag \<Rightarrow> 'a enum_flag \<Rightarrow> bool" where
  "HasAllFlags flags f \<longleftrightarrow> flag_and f flags = flags"

text \<open>A set of flags is the set of the bits of its value.\<close>

definition flag_bits :: "'a::len enum_flag \<Rightarrow> nat set" where
  "flag_bits v = {i. bit v i}"

lemma flag_bits_inj: "flag_bits v = flag_bits w \<longleftrightarrow> v = w"
  by (auto simp: flag_bits_def set_eq_iff intro: bit_eqI)

lemma flag_bits_ops:
  fixes v w :: "'a::len enum_flag"
  shows "flag_bits (flag_and v w) = flag_bits v \<inter> flag_bits w" "flag_bits (flag_or v w) = flag_bits v \<union> flag_bits w"
    "flag_bits (flag_not v) = {..<LENGTH('a)} - flag_bits v" "flag_bits (0 :: 'a word) = {}"
    "flag_bits v \<subseteq> {..<LENGTH('a)}"
  by (auto simp: flag_bits_def flag_and_def flag_or_def flag_not_def bit_simps dest: bit_imp_le_length)

text \<open>
  The flag operators are the set operations: intersection, union, complement within the type and
  difference; \<open>HasFlag\<close> with several flags asks for one of them, \<open>HasAllFlags\<close> for all.
\<close>
theorem flags_are_sets:
  fixes f g :: "'a::len enum_flag"
  shows "flag_bits (flag_and f g) = flag_bits f \<inter> flag_bits g \<and> flag_bits (flag_or f g) = flag_bits f \<union> flag_bits g \<and>
    flag_bits (flag_not f) = {..<LENGTH('a)} - flag_bits f \<and> flag_bits (RemoveFlag g f) = flag_bits f - flag_bits g \<and>
    (HasFlag g f \<longleftrightarrow> flag_bits f \<inter> flag_bits g \<noteq> {}) \<and> (HasAllFlags g f \<longleftrightarrow> flag_bits g \<subseteq> flag_bits f)"
proof -
  have "HasFlag g f \<longleftrightarrow> flag_bits f \<inter> flag_bits g \<noteq> {}"
    unfolding HasFlag_def flag_bits_inj [symmetric, of _ 0] flag_bits_ops(1,4) by (rule refl)
  moreover have "HasAllFlags g f \<longleftrightarrow> flag_bits g \<subseteq> flag_bits f"
    unfolding HasAllFlags_def flag_bits_inj [symmetric, of _ g] flag_bits_ops(1) by blast
  moreover have "flag_bits (RemoveFlag g f) = flag_bits f - flag_bits g"
    using flag_bits_ops(5) [of f] by (auto simp: RemoveFlag_def flag_bits_ops(1,3))
  ultimately show ?thesis by (simp add: flag_bits_ops(1-3))
qed

section \<open>Callbacks\<close>

text \<open>
  \<open>invoke\<close> is \<open>InvokeIfReady\<close>: whether the callback was ready and ran, the callbacks it
  added to the processor meanwhile, and the state it left.
\<close>

definition AddCallback :: "'cb \<Rightarrow> 'cb list \<Rightarrow> 'cb list" where
  "AddCallback query callbacks = callbacks @ [query]"

text \<open>The call of \<open>std::remove_if\<close>: those that stay, and what was added while it ran.\<close>

fun invoke_all :: "('cb \<Rightarrow> 's \<Rightarrow> bool \<times> 'cb list \<times> 's) \<Rightarrow> 'cb list \<Rightarrow> 'cb list \<Rightarrow> 's \<Rightarrow> 'cb list \<times> 'cb list \<times> 's" where
  "invoke_all invoke [] added s = ([], added, s)"
| "invoke_all invoke (callback # rest) added s =
     (let (ready, new, s1) = invoke callback s;
          (kept, added', s2) = invoke_all invoke rest (foldl (\<lambda>cs c. AddCallback c cs) added new) s1
      in (if ready then kept else callback # kept, added', s2))"

definition ProcessReadyCallbacks :: "('cb \<Rightarrow> 's \<Rightarrow> bool \<times> 'cb list \<times> 's) \<Rightarrow> 'cb list \<Rightarrow> 's \<Rightarrow> 'cb list \<times> 's" where
  "ProcessReadyCallbacks invoke callbacks s =
     (if callbacks = [] then (callbacks, s)
      else let (kept, added, s') = invoke_all invoke callbacks [] s in (added @ kept, s'))"

text \<open>The calls in order: each callback with the state it sees, and what it answers.\<close>

fun invocations :: "('cb \<Rightarrow> 's \<Rightarrow> bool \<times> 'cb list \<times> 's) \<Rightarrow> 'cb list \<Rightarrow> 's \<Rightarrow> ('cb \<times> bool \<times> 'cb list) list" where
  "invocations invoke [] s = []"
| "invocations invoke (c # cs) s = (case invoke c s of (r, new, s') \<Rightarrow> (c, r, new) # invocations invoke cs s')"

lemma foldl_AddCallback: "foldl (\<lambda>cs c. AddCallback c cs) added new = added @ new"
  by (induction new arbitrary: added) (simp_all add: AddCallback_def)

lemma invocations_fst: "map fst (invocations invoke cs s) = cs"
  by (induction invoke cs s rule: invocations.induct) (auto split: prod.split)

lemma invoke_all_spec:
  "\<exists>s'. invoke_all invoke cs added s =
    (map fst (filter (\<lambda>(c, r, new). \<not> r) (invocations invoke cs s)),
     added @ concat (map (snd \<circ> snd) (invocations invoke cs s)), s')"
proof (induction invoke cs added s rule: invoke_all.induct)
  case (2 invoke c cs added s)
  obtain r new s1 where c: "invoke c s = (r, new, s1)" by (cases "invoke c s") auto
  from 2 [OF c [symmetric] refl] show ?case by (auto simp: c foldl_AddCallback)
qed simp

text \<open>
  Every callback is invoked exactly once, in order; those that were ready are dropped and
  nothing else is lost: the list afterwards holds the callbacks added meanwhile and
  then those that were not ready, each in order.
\<close>
theorem callbacks_processed_once:
  "fst (ProcessReadyCallbacks invoke cs s) =
     concat (map (snd \<circ> snd) (invocations invoke cs s)) @ map fst (filter (\<lambda>(c, r, new). \<not> r) (invocations invoke cs s)) \<and>
   map fst (invocations invoke cs s) = cs"
  using invoke_all_spec [of invoke cs "[]" s] invocations_fst [of invoke cs s]
  by (auto simp: ProcessReadyCallbacks_def)

section \<open>Clocks\<close>

text \<open>The two clocks of the standard library, in nanoseconds, are arguments.\<close>

definition GetEpochTime :: "int \<Rightarrow> int" where
  "GetEpochTime system_now = system_now sdiv 1000000000"

definition GetTimeMS :: "int \<Rightarrow> int \<Rightarrow> int" where
  "GetTimeMS appStart steady_now = (steady_now - appStart) sdiv 1000000"

record game_time =
  gt_StartTime :: int
  gt_GameTime :: int
  gt_GameMSTime :: int
  gt_systemPoint :: int
  gt_steadyPoint :: int

definition GameTime_init :: "int \<Rightarrow> game_time" where
  "GameTime_init system_now = \<lparr>gt_StartTime = GetEpochTime system_now, gt_GameTime = GetEpochTime system_now,
     gt_GameMSTime = 0, gt_systemPoint = - (2 ^ 63), gt_steadyPoint = - (2 ^ 63)\<rparr>"

definition GetUptime :: "game_time \<Rightarrow> int" where
  "GetUptime g = gt_GameTime g - gt_StartTime g"

definition UpdateGameTimers :: "int \<Rightarrow> int \<Rightarrow> int \<Rightarrow> game_time \<Rightarrow> game_time" where
  "UpdateGameTimers appStart system_now steady_now g =
     g\<lparr>gt_GameTime := GetEpochTime system_now, gt_GameMSTime := GetTimeMS appStart steady_now,
       gt_systemPoint := system_now, gt_steadyPoint := steady_now\<rparr>"

record stop_watch =
  sw_startTime :: int
  sw_outCount :: uint8

definition StopWatch_new :: "int \<Rightarrow> uint8 \<Rightarrow> stop_watch" where
  "StopWatch_new now outCount = \<lparr>sw_startTime = now, sw_outCount = outCount\<rparr>"

definition StopWatch_Elapsed :: "int \<Rightarrow> stop_watch \<Rightarrow> int" where
  "StopWatch_Elapsed now w = (now - sw_startTime w) sdiv 1000"

definition StopWatch_Reset :: "int \<Rightarrow> stop_watch \<Rightarrow> stop_watch" where
  "StopWatch_Reset now w = w\<lparr>sw_startTime := now\<rparr>"

lemma sdiv_mono:
  assumes "0 \<le> (a :: int)" "a \<le> b" "0 < c"
  shows "a sdiv c \<le> b sdiv c" "0 \<le> a sdiv c"
  using assms by (simp_all add: signed_divide_int_def zdiv_mono1 sgn_if pos_imp_zdiv_nonneg_iff)

text \<open>
  With clocks that do not run backwards the uptime is never negative and never decreases, and a
  stop watch shows the whole microseconds since it was last started.
\<close>
theorem clocks_run_forward:
  assumes "0 \<le> t0" "t0 \<le> t1" "t1 \<le> t2" "start \<le> s1" "s1 \<le> s2"
  shows "0 \<le> GetUptime (UpdateGameTimers start t1 s1 (GameTime_init t0)) \<and>
    GetUptime (UpdateGameTimers start t1 s1 (GameTime_init t0)) \<le>
      GetUptime (UpdateGameTimers start t2 s2 (UpdateGameTimers start t1 s1 (GameTime_init t0))) \<and>
    gt_GameMSTime (UpdateGameTimers start t1 s1 (GameTime_init t0)) \<le>
      gt_GameMSTime (UpdateGameTimers start t2 s2 (UpdateGameTimers start t1 s1 (GameTime_init t0))) \<and>
    StopWatch_Elapsed s2 (StopWatch_Reset s1 w) = (s2 - s1) div 1000"
  using assms sdiv_mono(1) [of t0 t1 1000000000] sdiv_mono(1) [of t1 t2 1000000000]
    sdiv_mono(1) [of "s1 - start" "s2 - start" 1000000]
  by (simp add: GetUptime_def UpdateGameTimers_def GameTime_init_def GetEpochTime_def GetTimeMS_def
      StopWatch_Elapsed_def StopWatch_Reset_def) (simp add: signed_divide_int_def sgn_if)

section \<open>Netmasks\<close>

definition GetDefaultNetmaskV4 :: "uint32 \<Rightarrow> uint32" where
  "GetDefaultNetmaskV4 networkAddress =
     (if networkAddress AND 0x80000000 = 0 then 0xFF000000
      else if networkAddress AND 0xC0000000 = 0x80000000 then 0xFFFF0000
      else if networkAddress AND 0xE0000000 = 0xC0000000 then 0xFFFFFF00
      else 0xFFFFFFFF)"

lemma and_prefix: "(w :: 'a::len word) AND NOT (mask k) = push_bit k (drop_bit k w)"
  by (rule bit_eqI) (auto simp: bit_simps)

lemma and_prefix_eq:
  assumes "k \<le> LENGTH('a)" "unat v = c * 2 ^ k"
  shows "(w :: 'a::len word) AND NOT (mask k) = v \<longleftrightarrow> unat w div 2 ^ k = c"
proof -
  have "unat w div 2 ^ k * 2 ^ k \<le> unat w" by simp
  then have "unat w div 2 ^ k * 2 ^ k < 2 ^ LENGTH('a)" using unat_less [of w] by linarith
  then have "unat (w AND NOT (mask k)) = unat w div 2 ^ k * 2 ^ k"
    by (simp add: and_prefix unat_push_bit unat_drop_bit)
  then have "w AND NOT (mask k) = v \<longleftrightarrow> unat w div 2 ^ k * 2 ^ k = c * 2 ^ k"
    using assms(2) by (metis unsigned_word_eqI)
  then show ?thesis by simp
qed

text \<open>
  The default netmask is that of the class of the address: 8 bits below 128.0.0.0, 16 bits below
  192.0.0.0, 24 bits below 224.0.0.0, and a single host from there on.
\<close>
theorem netmask_by_class:
  "GetDefaultNetmaskV4 a =
     (if unat a < 128 * 2 ^ 24 then NOT (mask 24) else if unat a < 192 * 2 ^ 24 then NOT (mask 16)
      else if unat a < 224 * 2 ^ 24 then NOT (mask 8) else NOT (mask 0))"
proof -
  have c: "(0x80000000 :: uint32) = NOT (mask 31)" "(0xC0000000 :: uint32) = NOT (mask 30)"
    "(0xE0000000 :: uint32) = NOT (mask 29)" "(0xFF000000 :: uint32) = NOT (mask 24)"
    "(0xFFFF0000 :: uint32) = NOT (mask 16)" "(0xFFFFFF00 :: uint32) = NOT (mask 8)"
    "(0xFFFFFFFF :: uint32) = NOT (mask 0)"
    by (simp_all add: mask_eq_decr_exp)
  have "a AND NOT (mask 31) = 0 \<longleftrightarrow> unat a div 2 ^ 31 = 0"
    by (rule and_prefix_eq) simp_all
  moreover have "a AND NOT (mask 30) = 0x80000000 \<longleftrightarrow> unat a div 2 ^ 30 = 2"
    by (rule and_prefix_eq) simp_all
  moreover have "a AND NOT (mask 29) = 0xC0000000 \<longleftrightarrow> unat a div 2 ^ 29 = 6"
    by (rule and_prefix_eq) simp_all
  ultimately have "a AND 0x80000000 = 0 \<longleftrightarrow> unat a div 2 ^ 31 = 0" "a AND 0xC0000000 = 0x80000000 \<longleftrightarrow> unat a div 2 ^ 30 = 2"
    "a AND 0xE0000000 = 0xC0000000 \<longleftrightarrow> unat a div 2 ^ 29 = 6"
    unfolding c(1) [symmetric] c(2) [symmetric] c(3) [symmetric] by simp_all
  then show ?thesis
    unfolding GetDefaultNetmaskV4_def c(4-7) [symmetric] by (simp add: div_eq_0_iff) linarith
qed

section \<open>Floating-point text\<close>

text \<open>
  \<open>For<T>\<close> for the floating-point types (\<^verbatim>\<open>common/Utilities/StringConvert.h\<close>).  \<open>std::stold\<close> with its narrowing
  is a parameter: the value and the number of characters it used, or nothing when it throws.
\<close>

definition For_float_FromString :: "(string \<Rightarrow> ('f \<times> nat) option) \<Rightarrow> string \<Rightarrow> nat \<Rightarrow> 'f option" where
  "For_float_FromString stold str base =
     (if str = [] then None
      else if base = 10 \<and> StringEqualI (take 2 str) ''0x'' then None
      else let tmp = (if base = 16 then ''0x'' else []) @ str
        in case stold tmp of
             None \<Rightarrow> None
           | Some (val, n) \<Rightarrow> if n \<noteq> length tmp then None else Some val)"

definition For_float_ToString :: "('f \<Rightarrow> string) \<Rightarrow> 'f \<Rightarrow> string" where
  "For_float_ToString to_string val = to_string val"

text \<open>
  A text the standard library reads completely is converted, and nothing else: a text with a prefix of
  hexadecimals is refused for base 10, and for base 16 it is given a second prefix.
\<close>
theorem float_text:
  assumes "stold s = Some (v, length s)" "s \<noteq> []" "\<not> StringEqualI (take 2 s) ''0x''"
  shows "For_float_FromString stold s 10 = Some v \<and> For_float_FromString stold s 0 = Some v \<and>
    For_float_FromString stold [] base = None \<and> For_float_FromString stold (''0x'' @ t) 10 = None \<and>
    (For_float_FromString stold s 16 = Some w \<longrightarrow> stold (''0x'' @ s) = Some (w, length s + 2))"
  using assms
  by (auto simp: For_float_FromString_def StringEqualI_def tolower_def code_def Let_def split: option.splits if_splits)

end
