(* ===== verification/Calendar.thy ===== *)
theory Calendar
  imports ByteBuffer Utilities
begin

text \<open>
  The calendar functions of \<^verbatim>\<open>common/Utilities/Timer.cpp\<close>.  The C library's \<open>localtime_r\<close> and
  \<open>mktime\<close>, which know the time zone, its offset \<open>timezone\<close>, \<open>std::put_time\<close> and the system clock
  (in nanoseconds) are parameters; \<open>time_t\<close> has 64 bits.
\<close>

section \<open>Operations\<close>

definition TimeBreakdown :: "(int \<Rightarrow> tm) \<Rightarrow> int \<Rightarrow> int \<Rightarrow> tm" where
  "TimeBreakdown localtime system_now time =
     (let time = (if time = 0 then GetEpochTime system_now else time) in localtime time)"

definition LocalTimeToUTCTime :: "int \<Rightarrow> int \<Rightarrow> int result" where
  "LocalTimeToUTCTime timezone time = checked 64 (time + timezone)"

definition GetLocalHourTimestamp ::
    "(int \<Rightarrow> tm) \<Rightarrow> (tm \<Rightarrow> int) \<Rightarrow> int \<Rightarrow> int \<Rightarrow> uint8 \<Rightarrow> bool \<Rightarrow> int result" where
  "GetLocalHourTimestamp localtime mktime system_now time hour onlyAfterTime =
     (let timeLocal = (TimeBreakdown localtime system_now time)\<lparr>tm_hour := 0, tm_min := 0, tm_sec := 0\<rparr>;
          midnightLocal = mktime timeLocal
      in rbind (checked 64 (midnightLocal + uint hour * 3600)) (\<lambda>hourLocal.
           if onlyAfterTime \<and> hourLocal \<le> time then checked 64 (hourLocal + 86400) else Inr hourLocal))"

definition TimeToTimestampStr :: "(int \<Rightarrow> tm) \<Rightarrow> (tm \<Rightarrow> string \<Rightarrow> string) \<Rightarrow> int \<Rightarrow> string \<Rightarrow> string" where
  "TimeToTimestampStr localtime put_time time fmt =
     put_time (localtime time) (if fmt = [] then ''%Y-%m-%d %X'' else fmt)"

definition TimeToHumanReadable :: "(int \<Rightarrow> tm) \<Rightarrow> (tm \<Rightarrow> string \<Rightarrow> string) \<Rightarrow> int \<Rightarrow> string \<Rightarrow> string" where
  "TimeToHumanReadable localtime put_time time fmt =
     put_time (localtime time) (if fmt = [] then ''%a %b %d %Y %X'' else fmt)"

section \<open>The time zone as an interface\<close>

text \<open>
  What is relied on at a given time: the broken-down time of day is in its range, and \<open>mktime\<close> of
  the same day at midnight is that many seconds earlier (no clock change since midnight).
\<close>

definition day_seconds :: "tm \<Rightarrow> int" where
  "day_seconds t = tm_hour t * 3600 + tm_min t * 60 + tm_sec t"

definition regular_day :: "(int \<Rightarrow> tm) \<Rightarrow> (tm \<Rightarrow> int) \<Rightarrow> int \<Rightarrow> bool" where
  "regular_day localtime mktime time \<longleftrightarrow>
     0 \<le> day_seconds (localtime time) \<and> day_seconds (localtime time) < 86400 \<and>
     mktime ((localtime time)\<lparr>tm_hour := 0, tm_min := 0, tm_sec := 0\<rparr>) = time - day_seconds (localtime time)"

text \<open>A time zone with a fixed offset from the universal time, with the day counted in \<open>tm_mday\<close>.\<close>

definition fixed_localtime :: "int \<Rightarrow> int \<Rightarrow> tm" where
  "fixed_localtime offset t =
     (let t = t + offset; s = t mod 86400
      in tm_zero\<lparr>tm_mday := t div 86400, tm_hour := s div 3600, tm_min := s mod 3600 div 60, tm_sec := s mod 60\<rparr>)"

definition fixed_mktime :: "int \<Rightarrow> tm \<Rightarrow> int" where
  "fixed_mktime offset t = tm_mday t * 86400 + day_seconds t - offset"

lemma fixed_day_seconds: "day_seconds (fixed_localtime offset t) = (t + offset) mod 86400"
proof -
  have "s div 3600 * 3600 + s mod 3600 div 60 * 60 + s mod 60 = s" for s :: int
  proof -
    have "s mod 3600 div 60 * 60 + s mod 60 = s mod 3600"
      using div_mult_mod_eq [of "s mod 3600" 60] mod_mod_cancel [of 60 3600 s] by simp
    then show ?thesis using div_mult_mod_eq [of s 3600] by linarith
  qed
  then show ?thesis by (simp add: day_seconds_def fixed_localtime_def Let_def)
qed

lemma fixed_regular: "regular_day (fixed_localtime offset) (fixed_mktime offset) t"
proof -
  have "(t + offset) div 86400 * 86400 = t + offset - (t + offset) mod 86400"
    by (simp add: minus_mod_eq_div_mult)
  then show ?thesis
    by (simp add: regular_day_def fixed_day_seconds)
      (simp add: fixed_mktime_def fixed_localtime_def day_seconds_def Let_def)
qed

section \<open>Properties\<close>

text \<open>
  \<open>GetLocalHourTimestamp\<close> on a day without a clock change: the result is at the given hour of the
  local day, and with \<open>onlyAfterTime\<close> it is the next such moment, at most a day after the time.  The
  time 0 is excluded: it stands for the current time in the break-down but not in the comparison.
\<close>
theorem local_hour_is_next:
  assumes "regular_day localtime mktime time" "time \<noteq> 0" "unat hour < 24" "\<bar>time\<bar> < 2 ^ 62"
  shows "\<exists>r. GetLocalHourTimestamp localtime mktime now time hour only = Inr r \<and>
    (r - (time - day_seconds (localtime time))) mod 86400 = uint hour * 3600 \<and>
    (only \<longrightarrow> time < r \<and> r \<le> time + 86400)"
proof -
  define d where "d = day_seconds (localtime time)"
  have d: "0 \<le> d" "d < 86400"
    "mktime ((localtime time)\<lparr>tm_hour := 0, tm_min := 0, tm_sec := 0\<rparr>) = time - d"
    using assms(1) by (simp_all add: regular_day_def d_def)
  define h where "h = uint hour * 3600"
  have "uint hour < 24" using assms(3) by (metis int_ops(3) nat_uint_eq of_nat_less_iff uint_nat of_nat_numeral)
  then have h: "0 \<le> h" "h < 86400" by (simp_all add: h_def)
  define r where "r = (if only \<and> time - d + h \<le> time then time - d + h + 86400 else time - d + h)"
  have "fits 64 (time - d + h)" "fits 64 (time - d + h + 86400)"
    using d h assms(4) by (simp_all add: fits_def abs_less_iff)
  then have "GetLocalHourTimestamp localtime mktime now time hour only = Inr r"
    using assms(2) d(3) by (simp add: GetLocalHourTimestamp_def TimeBreakdown_def checked_def Let_def r_def h_def)
  moreover have "(r - (time - d)) mod 86400 = h" using h by (simp add: r_def)
  moreover have "time < r \<and> r \<le> time + 86400" if only using that d h by (simp add: r_def)
  ultimately show ?thesis by (auto simp: d_def h_def)
qed

theorem local_hour_is_next_witness:
  "\<exists>r. GetLocalHourTimestamp (fixed_localtime 3600) (fixed_mktime 3600) 0 1700000000 8 True = Inr r \<and>
    1700000000 < r \<and> r \<le> 1700086400"
  using local_hour_is_next [of "fixed_localtime 3600" "fixed_mktime 3600" 1700000000 8 0 True] fixed_regular by force

end
