(* ===== verification/PocoDateTime.thy ===== *)
theory PocoDateTime
  imports PocoLogging Complex_Main "HOL-Library.Signed_Division"
begin

text \<open>
  The calendar of the log's time stamps: \<^verbatim>\<open>DateTime.h\<close> and \<^verbatim>\<open>DateTime.cpp\<close> of Poco.  A time is a count of
  tenths of microseconds from the first day of the Gregorian calendar, \<open>pd_utcTime\<close>, and the constructor
  finds its date through a Julian day, which is a \<open>double\<close>; \<open>computeDaytime\<close> then replaces the time of day
  by that of the count and corrects the date.  A \<open>double\<close> is a rational number here.  The one
  value that rounding changes is the Julian day itself, which is a parameter, \<open>julian\<close>, of the
  constructor, with far more error than a \<open>double\<close> has (\<open>near_julian\<close>).  What \<open>computeGregorian\<close> computes
  from it is exact, since a Julian day below \<^verbatim>\<open>2^23\<close> and at least \<^verbatim>\<open>2^21\<close> has at most 31 bits after the
  point and each of the products fits into the 53 bits of a \<open>double\<close>, or is a quotient by a fixed
  divisor of which only the floor is used, and too far from the next integer for rounding to reach it.

  The proofs count days: \<open>day_number\<close> numbers the dates, \<open>date_of\<close> is its inverse and follows the calendar from
  day to day, and both \<open>computeGregorian\<close> and the correction are steps along it.
\<close>

section \<open>The Gregorian calendar\<close>

definition isLeapYear :: "int \<Rightarrow> bool" where
  "isLeapYear year \<longleftrightarrow> year mod 4 = 0 \<and> (year mod 100 \<noteq> 0 \<or> year mod 400 = 0)"

definition daysOfMonthTable :: "int list" where
  "daysOfMonthTable = [0, 31, 28, 31, 30, 31, 30, 31, 31, 30, 31, 30, 31]"

definition daysOfMonth :: "int \<Rightarrow> int \<Rightarrow> int" where
  "daysOfMonth year month = (if month = 2 \<and> isLeapYear year then 29 else daysOfMonthTable ! nat month)"

definition lookup :: "int list" where
  "lookup = [-91, -60, -30, 0, 31, 61, 92, 122, 153, 184, 214, 245, 275, 306, 337]"

text \<open>Days of a date, as whole numbers.\<close>

definition march_days :: "int \<Rightarrow> int \<Rightarrow> int" where
  "march_days c y = c + 365 * y + y div 4 - y div 100 + y div 400"

definition day_number :: "int \<Rightarrow> int \<Rightarrow> int \<Rightarrow> int" where
  "day_number year month day =
     (if month < 3 then march_days (day + lookup ! nat (month + 12)) (year - 1)
      else march_days (day + lookup ! nat month) year)"

definition valid_date :: "int \<Rightarrow> int \<Rightarrow> int \<Rightarrow> bool" where
  "valid_date y m d \<longleftrightarrow> 1 \<le> m \<and> m \<le> 12 \<and> 1 \<le> d \<and> d \<le> daysOfMonth y m"

text \<open>The century, the year that begins in March and the day in it, from the number of a day.\<close>

definition century :: "int \<Rightarrow> int" where
  "century z = (4 * z - 1) div 146097"

definition march_year :: "int \<Rightarrow> int" where
  "march_year z = (4 * (century z - century z div 4) + 4 * z - 1) div 1461"

definition march_day :: "int \<Rightarrow> int" where
  "march_day z = century z - century z div 4 + z - (1461 * march_year z) div 4"

lemma mod_succ: "(y + 1) mod n = (if y mod n = n - 1 then 0 else y mod n + 1)" if "0 < n" for y n :: int
proof (cases "y mod n = n - 1")
  case True
  have "(y + 1) mod n = (y mod n + 1) mod n" by (simp add: mod_simps)
  with True show ?thesis by simp
next
  case False
  have "0 \<le> y mod n" "y mod n < n" using that by simp_all
  then have "(y mod n + 1) mod n = y mod n + 1" using False by (intro mod_pos_pos_trivial) simp_all
  moreover have "(y + 1) mod n = (y mod n + 1) mod n" by (simp add: mod_simps)
  ultimately show ?thesis using False by simp
qed

lemma march_inverse:
  assumes "1 \<le> c" "c \<le> 365 \<or> c = 366 \<and> isLeapYear (y + 1)"
  shows "century (march_days c y) = y div 100" "march_year (march_days c y) = y" "march_day (march_days c y) = c"
proof -
  let ?z = "march_days c y"
  define A where "A = y div 100"
  define r where "r = y mod 100"
  have r: "0 \<le> r" "r < 100" "y = 100 * A + r" by (simp_all add: A_def r_def)
  have "y = r + 25 * A * 4" using r(3) by simp
  then have "y div 4 = 25 * A + r div 4" "y mod 4 = r mod 4" by (simp_all only: div_mult_self1 mod_mult_self1)
  moreover have "y div 400 = A div 4" using zdiv_zmult2_eq [of 4 y 100] by (simp add: A_def)
  ultimately have parts: "y div 100 = A" "y div 4 = 25 * A + r div 4" "y div 400 = A div 4" "y mod 4 = r mod 4"
    by (simp_all add: A_def)
  have leap: "r mod 4 = 3 \<and> (r = 99 \<longrightarrow> A mod 4 = 3)" if "isLeapYear (y + 1)"
  proof -
    have n: "y mod 4 + 1 \<noteq> 0" "y mod 400 + 1 \<noteq> 0" by linarith+
    have "y mod 4 = 3" using that mod_succ [of 4 y] n(1) by (simp add: isLeapYear_def split: if_splits)
    moreover have "A mod 4 = 3" if "r = 99"
    proof -
      have "(y + 1) mod 100 = 0" using mod_succ [of 100 y] that by (simp add: r_def)
      then have "(y + 1) mod 400 = 0" using \<open>isLeapYear (y + 1)\<close> by (simp add: isLeapYear_def)
      then have "y mod 400 = 399" using mod_succ [of 400 y] n(2) by (simp split: if_splits)
      moreover have "y mod 400 = 100 * (A mod 4) + r" using zmod_zmult2_eq [of 4 y 100] by (simp add: A_def r_def)
      ultimately show ?thesis using that by simp
    qed
    ultimately show ?thesis using parts(4) by simp
  qed
  have z: "?z = c + 36524 * A + A div 4 + 365 * r + r div 4"
    unfolding march_days_def parts(1-3) using r(3) by simp
  have A4: "A = 4 * (A div 4) + A mod 4" "0 \<le> A mod 4" "A mod 4 \<le> 3" by simp_all
  have r4: "r = 4 * (r div 4) + r mod 4" "0 \<le> r mod 4" "r mod 4 \<le> 3" "0 \<le> r div 4"
    using r(1) by (simp_all add: pos_imp_zdiv_nonneg_iff)
  have "4 * ?z - 1 = 146097 * A + (4 * c - 1 - A mod 4 + 1460 * r + 4 * (r div 4))" using z A4(1) by linarith
  moreover have "0 \<le> 4 * c - 1 - A mod 4 + 1460 * r + 4 * (r div 4)" using assms(1) A4 r r4 by linarith
  moreover have "4 * c - 1 - A mod 4 + 1460 * r + 4 * (r div 4) < 146097"
    using assms(2) leap A4 r r4 by (cases "r = 99") auto
  ultimately have C: "century ?z = A" unfolding century_def by (rule int_div_pos_eq)
  then show "century ?z = y div 100" using parts by simp
  have y4: "y = 4 * (y div 4) + r mod 4" using parts(4) by (metis mult_div_mod_eq)
  have b: "century ?z - century ?z div 4 + ?z = c + 365 * y + y div 4"
    by (simp add: C) (simp add: march_days_def parts)
  have sums: "x + z = c + 365 * y + q \<Longrightarrow> y = 4 * q + s \<Longrightarrow> 4 * x + 4 * z - 1 = 1461 * y + (4 * c - 1 - s)" for x z q s
    by linarith
  have "4 * (century ?z - century ?z div 4) + 4 * ?z - 1 = 1461 * y + (4 * c - 1 - r mod 4)" using b y4 by (rule sums)
  moreover have "0 \<le> 4 * c - 1 - r mod 4" using assms(1) r4 by linarith
  moreover have "4 * c - 1 - r mod 4 < 1461" using assms(2) leap r4 by auto
  ultimately show Y: "march_year ?z = y" unfolding march_year_def by (rule int_div_pos_eq)
  have "1461 * y = y + 365 * y * 4" by simp
  then have "1461 * y div 4 = 365 * y + y div 4" by (simp only: div_mult_self1)
  then show "march_day ?z = c" unfolding march_day_def Y using b by linarith
qed

text \<open>The date of the number of a day.\<close>

definition date_of :: "int \<Rightarrow> int \<times> int \<times> int" where
  "date_of z =
     (let y = march_year z; c = march_day z; m = (5 * c + 456) div 153; d = c - (153 * m - 457) div 5
      in if m > 12 then (y + 1, m - 12, d) else (y, m, d))"

lemma months: "1 \<le> (m :: int) \<Longrightarrow> m \<le> 12 \<Longrightarrow>
    m = 1 \<or> m = 2 \<or> m = 3 \<or> m = 4 \<or> m = 5 \<or> m = 6 \<or> m = 7 \<or> m = 8 \<or> m = 9 \<or> m = 10 \<or> m = 11 \<or> m = 12"
proof (cases "m \<le> 6")
  case True
  assume "1 \<le> m"
  with True have "m = 1 \<or> m = 2 \<or> m = 3 \<or> m = 4 \<or> m = 5 \<or> m = 6" by linarith
  then show ?thesis by blast
next
  case False
  assume "m \<le> 12"
  with False have "m = 7 \<or> m = 8 \<or> m = 9 \<or> m = 10 \<or> m = 11 \<or> m = 12" by linarith
  then show ?thesis by blast
qed

lemmas calendar_tables = lookup_def daysOfMonthTable_def daysOfMonth_def

lemma valid_march:
  fixes y m d
  defines "m' \<equiv> (if m < 3 then m + 12 else m)" and "y' \<equiv> (if m < 3 then y - 1 else y)"
  defines "c \<equiv> d + lookup ! nat m'"
  assumes "valid_date y m d"
  shows "day_number y m d = march_days c y'" "1 \<le> c" "c \<le> 365 \<or> c = 366 \<and> isLeapYear (y' + 1)"
    "(5 * c + 456) div 153 = m'" "c - (153 * m' - 457) div 5 = d"
proof -
  have m: "1 \<le> m" "m \<le> 12" and d: "1 \<le> d" "d \<le> daysOfMonth y m" using assms(4) by (simp_all add: valid_date_def)
  show "1 \<le> c" "c \<le> 365 \<or> c = 366 \<and> isLeapYear (y' + 1)"
    using months [OF m] d by (auto simp: c_def m'_def y'_def calendar_tables split: if_splits)
  show "(5 * c + 456) div 153 = m'" "c - (153 * m' - 457) div 5 = d"
    using months [OF m] d by (auto simp: c_def m'_def calendar_tables split: if_splits)
  show "day_number y m d = march_days c y'" by (simp add: day_number_def c_def m'_def y'_def)
qed

lemma date_of_day_number:
  assumes "valid_date y m d"
  shows "date_of (day_number y m d) = (y, m, d)"
  using assms valid_march [OF assms] march_inverse(2,3) [OF valid_march(2,3) [OF assms]]
  by (auto simp: date_of_def Let_def valid_date_def)

text \<open>The day after and the day before a date.\<close>

definition next_day :: "int \<times> int \<times> int \<Rightarrow> int \<times> int \<times> int" where
  "next_day = (\<lambda>(y, m, d).
     if d + 1 > daysOfMonth y m then (if m + 1 > 12 then (y + 1, 1, 1) else (y, m + 1, 1)) else (y, m, d + 1))"

definition prev_day :: "int \<times> int \<times> int \<Rightarrow> int \<times> int \<times> int" where
  "prev_day = (\<lambda>(y, m, d).
     if d - 1 = 0 then (if m - 1 = 0 then (y - 1, 12, daysOfMonth (y - 1) 12) else (y, m - 1, daysOfMonth y (m - 1)))
     else (y, m, d - 1))"

lemma div_step:
  fixes y n :: int
  assumes "0 < n"
  shows "(y - 1) div n = y div n - (if y mod n = 0 then 1 else 0)"
proof (cases "y mod n = 0")
  case True
  have "y - 1 = n * (y div n - 1) + (n - 1)" using mult_div_mod_eq [of n y] True by (simp add: algebra_simps)
  then have "(y - 1) div n = y div n - 1" by (rule int_div_pos_eq) (use assms in simp_all)
  with True show ?thesis by simp
next
  case False
  have "0 \<le> y mod n" "y mod n < n" using assms by simp_all
  then have "0 \<le> y mod n - 1" "y mod n - 1 < n" using False by simp_all
  moreover have "y - 1 = n * (y div n) + (y mod n - 1)" by simp
  ultimately have "(y - 1) div n = y div n" by (metis int_div_pos_eq)
  with False show ?thesis by simp
qed

lemma mod_100_4: "(y :: int) mod 100 = 0 \<Longrightarrow> y mod 4 = 0" "y mod 400 = 0 \<Longrightarrow> y mod 100 = 0"
  using mod_mod_cancel [of 4 100 y] mod_mod_cancel [of 100 400 y] by simp_all

lemma march_days_prev: "march_days c (y - 1) = march_days c y - 365 - (if isLeapYear y then 1 else 0)"
proof -
  have d: "(y - 1) div 4 = y div 4 - (if y mod 4 = 0 then 1 else 0)"
    "(y - 1) div 100 = y div 100 - (if y mod 100 = 0 then 1 else 0)"
    "(y - 1) div 400 = y div 400 - (if y mod 400 = 0 then 1 else 0)" by (rule div_step; simp)+
  show ?thesis
    unfolding march_days_def isLeapYear_def d using mod_100_4 [of y]
    by (cases "y mod 4 = 0"; cases "y mod 100 = 0"; cases "y mod 400 = 0") simp_all
qed

lemma day_number_add: "day_number y m d = day_number y m 0 + d"
  by (simp add: day_number_def march_days_def)

lemma month_step:
  assumes "1 \<le> m" "m < 12"
  shows "day_number y (m + 1) 0 = day_number y m 0 + daysOfMonth y m"
proof -
  have shift: "march_days c y = march_days 0 y + c" for c y by (simp add: march_days_def)
  show ?thesis
  proof (cases "m = 2")
    case True
    then show ?thesis by (simp add: day_number_def calendar_tables march_days_prev [of 0 y] shift [of 337])
  next
    case False
    then have "m = 1 \<or> m = 3 \<or> m = 4 \<or> m = 5 \<or> m = 6 \<or> m = 7 \<or> m = 8 \<or> m = 9 \<or> m = 10 \<or> m = 11"
      using months [of m] assms by auto
    then show ?thesis
      by (elim disjE)
        (simp_all add: day_number_def calendar_tables shift [of 31] shift [of 61] shift [of 92] shift [of 122] shift [of 153]
          shift [of 184] shift [of 214] shift [of 245] shift [of 275] shift [of 306] shift [of 337])
  qed
qed

lemma year_step: "day_number (y + 1) 1 0 = day_number y 12 0 + 31"
  by (simp add: day_number_def lookup_def march_days_def)

lemma daysOfMonth_pos: "1 \<le> m \<Longrightarrow> m \<le> 12 \<Longrightarrow> 28 \<le> daysOfMonth y m"
  by (drule (1) months, elim disjE; simp add: calendar_tables)

lemma next_day_number:
  assumes "valid_date y m d" "next_day (y, m, d) = (y', m', d')"
  shows "valid_date y' m' d' \<and> day_number y' m' d' = day_number y m d + 1"
proof -
  have m: "1 \<le> m" "m \<le> 12" and d: "1 \<le> d" "d \<le> daysOfMonth y m" using assms by (simp_all add: valid_date_def)
  consider "d < daysOfMonth y m" | "d = daysOfMonth y m" "m < 12" | "d = daysOfMonth y m" "m = 12" using m d by linarith
  then show ?thesis
  proof cases
    case 1
    with assms m d show ?thesis
      using day_number_add [of y m d] day_number_add [of y m "d + 1"]
      by (auto simp: next_day_def valid_date_def)
  next
    case 2
    with assms(2) m d have "y' = y" "m' = m + 1" "d' = 1" by (auto simp: next_day_def)
    with 2 m month_step [of m y] daysOfMonth_pos [of "m + 1" y] show ?thesis
      by (simp add: valid_date_def day_number_add [of y "m + 1" 1] day_number_add [of y m "daysOfMonth y m"])
  next
    case 3
    with assms(2) m d have "y' = y + 1" "m' = 1" "d' = 1" by (auto simp: next_day_def)
    moreover have "daysOfMonth y 12 = 31" by (simp add: calendar_tables)
    ultimately show ?thesis
      using 3 year_step [of y] daysOfMonth_pos [of 1 "y + 1"]
      by (simp add: valid_date_def day_number_add [of "y + 1" 1 1] day_number_add [of y 12 31])
  qed
qed

lemma prev_day_number:
  assumes "valid_date y m d" "prev_day (y, m, d) = (y', m', d')"
  shows "valid_date y' m' d' \<and> day_number y' m' d' = day_number y m d - 1"
proof -
  have m: "1 \<le> m" "m \<le> 12" and d: "1 \<le> d" "d \<le> daysOfMonth y m" using assms by (simp_all add: valid_date_def)
  consider "1 < d" | "d = 1" "1 < m" | "d = 1" "m = 1" using m d by linarith
  then show ?thesis
  proof cases
    case 1
    with assms m d show ?thesis
      using day_number_add [of y m d] day_number_add [of y m "d - 1"] by (auto simp: prev_day_def valid_date_def)
  next
    case 2
    with assms(2) have "y' = y" "m' = m - 1" "d' = daysOfMonth y (m - 1)" by (auto simp: prev_day_def)
    with 2 m month_step [of "m - 1" y] daysOfMonth_pos [of "m - 1" y] show ?thesis
      by (simp add: valid_date_def day_number_add [of y m 1] day_number_add [of y "m - 1" "daysOfMonth y (m - 1)"])
  next
    case 3
    with assms(2) have "y' = y - 1" "m' = 12" "d' = 31" by (auto simp: prev_day_def calendar_tables)
    moreover have "daysOfMonth (y - 1) 12 = 31" by (simp add: calendar_tables)
    ultimately show ?thesis
      using 3 year_step [of "y - 1"] by (simp add: valid_date_def day_number_add [of y 1 1] day_number_add [of "y - 1" 12 31])
  qed
qed

lemma day_number_surj: "\<exists>y m d. valid_date y m d \<and> day_number y m d = z"
proof (induction z rule: int_induct [where k = 1])
  case base
  have "valid_date 0 3 1 \<and> day_number 0 3 1 = 1"
    by (simp add: valid_date_def day_number_def calendar_tables march_days_def)
  then show ?case by blast
next
  case (step1 z)
  then obtain y m d where "valid_date y m d" "day_number y m d = z" by blast
  then show ?case using next_day_number [of y m d] by (metis prod_cases3)
next
  case (step2 z)
  then obtain y m d where "valid_date y m d" "day_number y m d = z" by blast
  then show ?case using prev_day_number [of y m d] by (metis prod_cases3)
qed

text \<open>\<open>date_of\<close> is the inverse of the numbering of days, and follows the calendar from day to day.\<close>

lemma date_of_valid:
  assumes "date_of z = (y, m, d)"
  shows "valid_date y m d" "day_number y m d = z"
  using assms day_number_surj [of z] date_of_day_number by force+

lemma date_of_next: "next_day (date_of z) = date_of (z + 1)"
proof -
  obtain y m d y' m' d' where "date_of z = (y, m, d)" "next_day (y, m, d) = (y', m', d')" by (metis prod_cases3)
  with next_day_number [of y m d y' m' d'] date_of_valid [of z y m d] date_of_day_number [of y' m' d'] show ?thesis by simp
qed

lemma date_of_prev: "prev_day (date_of z) = date_of (z - 1)"
proof -
  obtain y m d y' m' d' where "date_of z = (y, m, d)" "prev_day (y, m, d) = (y', m', d')" by (metis prod_cases3)
  with prev_day_number [of y m d y' m' d'] date_of_valid [of z y m d] date_of_day_number [of y' m' d'] show ?thesis by simp
qed

section \<open>The class DateTime\<close>

record poco_date =
  pd_utcTime :: int
  pd_year :: int
  pd_month :: int
  pd_day :: int
  pd_hour :: int
  pd_minute :: int
  pd_second :: int
  pd_millisecond :: int
  pd_microsecond :: int

text \<open>Conversions to \<open>short\<close>, of integers and of floating-point numbers, which are cut off.\<close>

definition short :: "int \<Rightarrow> int" where
  "short x = (x + 32768) mod 65536 - 32768"

definition cut_off :: "rat \<Rightarrow> int" where
  "cut_off x = (if x < 0 then - \<lfloor>- x\<rfloor> else \<lfloor>x\<rfloor>)"

definition toJulianDay :: "int \<Rightarrow> int \<Rightarrow> int \<Rightarrow> rat" where
  "toJulianDay year month day =
     (let (year, month) = (if month < 3 then (year - 1, month + 12) else (year, month)); dyear = of_int year :: rat
      in of_int day + of_int (lookup ! nat month) + of_int (365 * year) + of_int \<lfloor>dyear / 4\<rfloor> - of_int \<lfloor>dyear / 100\<rfloor> +
           of_int \<lfloor>dyear / 400\<rfloor> + 3442237 / 2)"

definition toUtcTime :: "rat \<Rightarrow> int" where
  "toUtcTime julianDay = cut_off ((julianDay - 4598321 / 2) * 864000000000)"

definition checkLimit :: "int \<Rightarrow> int \<Rightarrow> int \<Rightarrow> int \<times> int" where
  "checkLimit lower higher limit =
     (if lower \<ge> limit then (short (lower mod limit), short (higher + lower div limit)) else (lower, higher))"

definition normalize_date :: "poco_date \<Rightarrow> poco_date" where
  "normalize_date dt =
     (let (us, ms) = checkLimit (pd_microsecond dt) (pd_millisecond dt) 1000;
          (ms, s) = checkLimit ms (pd_second dt) 1000;
          (s, mi) = checkLimit s (pd_minute dt) 60;
          (mi, h) = checkLimit mi (pd_hour dt) 60;
          (h, d) = checkLimit h (pd_day dt) 24;
          (y, m, d) =
            (if d > daysOfMonth (pd_year dt) (pd_month dt) then
               let d = d - daysOfMonth (pd_year dt) (pd_month dt)
               in if pd_month dt + 1 > 12 then (pd_year dt + 1, pd_month dt + 1 - 12, d) else (pd_year dt, pd_month dt + 1, d)
             else (pd_year dt, pd_month dt, d))
      in dt\<lparr>pd_year := y, pd_month := m, pd_day := d, pd_hour := h, pd_minute := mi, pd_second := s,
           pd_millisecond := ms, pd_microsecond := us\<rparr>)"

text \<open>The two halves of \<open>computeGregorian\<close>: the date of a day with the part of it that has passed, and the time of day.\<close>

definition gregorian_date :: "int \<Rightarrow> rat \<Rightarrow> int \<times> int \<times> int" where
  "gregorian_date z r =
     (let g = of_int z - 1 / 4 :: rat;
          a = \<lfloor>g / (146097 / 4)\<rfloor>;
          b = a - \<lfloor>of_int a / (4 :: rat)\<rfloor>;
          year = short \<lfloor>(of_int b + g) / (1461 / 4)\<rfloor>;
          c = b + z - \<lfloor>1461 / 4 * of_int year :: rat\<rfloor>;
          month = short \<lfloor>of_int (5 * c + 456) / (153 :: rat)\<rfloor>;
          dday = of_int (c - \<lfloor>of_int (153 * month - 457) / (5 :: rat)\<rfloor>) + r;
          day = short (cut_off dday)
      in if month > 12 then (short (year + 1), month - 12, day) else (year, month, day))"

definition gregorian_time :: "rat \<Rightarrow> int \<times> int \<times> int \<times> int \<times> int" where
  "gregorian_time r =
     (let r = r * 24; hour = \<lfloor>r\<rfloor>; r = (r - of_int \<lfloor>r\<rfloor>) * 60;
          minute = \<lfloor>r\<rfloor>; r = (r - of_int \<lfloor>r\<rfloor>) * 60;
          second = \<lfloor>r\<rfloor>; r = (r - of_int \<lfloor>r\<rfloor>) * 1000;
          millisecond = \<lfloor>r\<rfloor>; r = (r - of_int \<lfloor>r\<rfloor>) * 1000;
          microsecond = cut_off (r + 1 / 2)
      in (short hour, short minute, short second, short millisecond, short microsecond))"

definition computeGregorian :: "rat \<Rightarrow> poco_date \<Rightarrow> poco_date" where
  "computeGregorian julianDay dt =
     (let z = \<lfloor>julianDay - 3442237 / 2\<rfloor>;
          r = julianDay - 3442237 / 2 - of_int z;
          (year, month, day) = gregorian_date z r;
          (hour, minute, second, millisecond, microsecond) = gregorian_time r
      in normalize_date (dt\<lparr>pd_year := year, pd_month := month, pd_day := day, pd_hour := hour, pd_minute := minute,
           pd_second := second, pd_millisecond := millisecond, pd_microsecond := microsecond\<rparr>))"

definition computeDaytime :: "poco_date \<Rightarrow> poco_date" where
  "computeDaytime dt =
     (let span = pd_utcTime dt sdiv 10;
          hour = (span sdiv HOURS) smod 24;
          (y, m, d) =
            (if hour = 23 \<and> pd_hour dt = 0 then
               (if pd_day dt - 1 = 0 then
                  (if pd_month dt - 1 = 0 then (pd_year dt - 1, 12, daysOfMonth (pd_year dt - 1) 12)
                   else (pd_year dt, pd_month dt - 1, daysOfMonth (pd_year dt) (pd_month dt - 1)))
                else (pd_year dt, pd_month dt, pd_day dt - 1))
             else if hour = 0 \<and> pd_hour dt = 23 then
               (if pd_day dt + 1 > daysOfMonth (pd_year dt) (pd_month dt) then
                  (if pd_month dt + 1 > 12 then (pd_year dt + 1, 1, 1) else (pd_year dt, pd_month dt + 1, 1))
                else (pd_year dt, pd_month dt, pd_day dt + 1))
             else (pd_year dt, pd_month dt, pd_day dt))
      in dt\<lparr>pd_year := y, pd_month := m, pd_day := d, pd_hour := hour, pd_minute := (span sdiv MINUTES) smod 60,
           pd_second := (span sdiv SECONDS) smod 60, pd_millisecond := (span sdiv 1000) smod 1000,
           pd_microsecond := span smod 1000\<rparr>)"

definition isValid :: "int \<Rightarrow> int \<Rightarrow> int \<Rightarrow> int \<Rightarrow> int \<Rightarrow> int \<Rightarrow> int \<Rightarrow> int \<Rightarrow> bool" where
  "isValid year month day hour minute second millisecond microsecond \<longleftrightarrow>
     (year \<ge> 0 \<and> year \<le> 9999) \<and> (month \<ge> 1 \<and> month \<le> 12) \<and> (day \<ge> 1 \<and> day \<le> daysOfMonth year month) \<and>
     (hour \<ge> 0 \<and> hour \<le> 23) \<and> (minute \<ge> 0 \<and> minute \<le> 59) \<and> (second \<ge> 0 \<and> second \<le> 60) \<and>
     (millisecond \<ge> 0 \<and> millisecond \<le> 999) \<and> (microsecond \<ge> 0 \<and> microsecond \<le> 999)"

text \<open>\<open>assign\<close>, and the constructor with the same arguments; nothing is a failed \<open>poco_assert\<close>.\<close>

definition DateTime_assign :: "int \<Rightarrow> int \<Rightarrow> int \<Rightarrow> int \<Rightarrow> int \<Rightarrow> int \<Rightarrow> int \<Rightarrow> int \<Rightarrow> poco_date option" where
  "DateTime_assign year month day hour minute second millisecond microsecond =
     (if isValid year month day hour minute second millisecond microsecond then
        Some \<lparr>pd_utcTime = toUtcTime (toJulianDay year month day) +
            10 * (hour * HOURS + minute * MINUTES + second * SECONDS + millisecond * 1000 + microsecond),
          pd_year = year, pd_month = month, pd_day = day, pd_hour = hour, pd_minute = minute, pd_second = second,
          pd_millisecond = millisecond, pd_microsecond = microsecond\<rparr>
      else None)"

text \<open>The constructor from a time; \<open>julian\<close> is the rounded Julian day of \<open>toJulianDay(utcTime)\<close>.\<close>

definition DateTime_of :: "(int \<Rightarrow> rat) \<Rightarrow> int \<Rightarrow> poco_date" where
  "DateTime_of julian utcTime =
     computeDaytime (computeGregorian (julian utcTime)
       \<lparr>pd_utcTime = utcTime, pd_year = 0, pd_month = 0, pd_day = 0, pd_hour = 0, pd_minute = 0, pd_second = 0,
        pd_millisecond = 0, pd_microsecond = 0\<rparr>)"

section \<open>The date of a time\<close>

lemmas span_units = HOURS_def MINUTES_def SECONDS_def

lemma short_id: "-32768 \<le> x \<Longrightarrow> x < 32768 \<Longrightarrow> short x = x"
  by (simp add: short_def)

lemma checkLimit_eq:
  assumes "0 \<le> lower" "lower < 32768" "0 \<le> higher" "higher < 16384" "0 < limit" "lower div limit \<le> 1"
  shows "checkLimit lower higher limit = (lower mod limit, higher + lower div limit)"
proof (cases "lower \<ge> limit")
  case True
  have "0 \<le> lower mod limit" "lower mod limit \<le> lower" "0 \<le> lower div limit"
    using assms by (simp_all add: zmod_le_nonneg_dividend pos_imp_zdiv_nonneg_iff)
  then have "short (lower mod limit) = lower mod limit" "short (higher + lower div limit) = higher + lower div limit"
    using assms by (intro short_id; linarith)+
  with True show ?thesis by (simp add: checkLimit_def)
next
  case False
  with assms show ?thesis by (simp add: checkLimit_def)
qed

lemma floors:
  "\<lfloor>(of_int z - 1 / 4) / (146097 / 4 :: rat)\<rfloor> = (4 * z - 1) div 146097"
  "\<lfloor>(of_int b + (of_int z - 1 / 4)) / (1461 / 4 :: rat)\<rfloor> = (4 * b + 4 * z - 1) div 1461"
  "\<lfloor>1461 / 4 * of_int y :: rat\<rfloor> = 1461 * y div 4"
proof -
  have "(of_int z - 1 / 4) / (146097 / 4 :: rat) = of_int (4 * z - 1) / of_int 146097" by simp
  then show "\<lfloor>(of_int z - 1 / 4) / (146097 / 4 :: rat)\<rfloor> = (4 * z - 1) div 146097" by (metis floor_divide_of_int_eq)
  have "(of_int b + (of_int z - 1 / 4)) / (1461 / 4 :: rat) = of_int (4 * b + 4 * z - 1) / of_int 1461" by simp
  then show "\<lfloor>(of_int b + (of_int z - 1 / 4)) / (1461 / 4 :: rat)\<rfloor> = (4 * b + 4 * z - 1) div 1461" by (metis floor_divide_of_int_eq)
  have "1461 / 4 * of_int y = (of_int (1461 * y) / of_int 4 :: rat)" by simp
  then show "\<lfloor>1461 / 4 * of_int y :: rat\<rfloor> = 1461 * y div 4" by (metis floor_divide_of_int_eq)
qed

lemma floor_int_div: "\<lfloor>of_int x / (numeral k :: rat)\<rfloor> = x div numeral k"
  using floor_divide_of_int_eq [of x "numeral k", where 'a = rat] by simp

lemma frac_times:
  assumes "0 < k"
  shows "0 \<le> (x - of_int \<lfloor>x\<rfloor>) * of_int k" "(x - of_int \<lfloor>x\<rfloor>) * of_int k < (of_int k :: rat)"
proof -
  have f: "0 \<le> x - of_int \<lfloor>x\<rfloor>" "x - of_int \<lfloor>x\<rfloor> < 1" by linarith+
  have k: "0 < (of_int k :: rat)" using assms by simp
  show "0 \<le> (x - of_int \<lfloor>x\<rfloor>) * of_int k" using f k by simp
  show "(x - of_int \<lfloor>x\<rfloor>) * of_int k < (of_int k :: rat)" using mult_strict_right_mono [OF f(2) k] by simp
qed

lemma floor_range: "0 \<le> x \<Longrightarrow> x < of_int n \<Longrightarrow> 0 \<le> \<lfloor>x\<rfloor> \<and> \<lfloor>x\<rfloor> < n" for x :: rat
  by linarith

lemma floor_int_add: "\<lfloor>of_int n + x\<rfloor> = n + \<lfloor>x\<rfloor>" for x :: rat
  by linarith

text \<open>The date part of \<open>computeGregorian\<close>, before the time of day is carried over.\<close>

definition calendar_range :: "int \<Rightarrow> bool" where
  "calendar_range z \<longleftrightarrow> 0 \<le> z \<and> z \<le> 4000000"

lemma march_year_range:
  assumes "calendar_range z"
  shows "-2 \<le> march_year z" "march_year z < 12000"
proof -
  have c: "-1 \<le> century z" "century z \<le> 110" using assms by (simp_all add: century_def calendar_range_def) linarith+
  then have b: "-1 \<le> century z - century z div 4" "century z - century z div 4 \<le> 110" by linarith+
  then have "-1461 * 2 \<le> 4 * (century z - century z div 4) + 4 * z - 1" "4 * (century z - century z div 4) + 4 * z - 1 < 1461 * 12000"
    using assms by (simp_all add: calendar_range_def)
  then show "-2 \<le> march_year z" "march_year z < 12000" unfolding march_year_def by linarith+
qed

lemma march_day_range: "1 \<le> march_day z" "march_day z \<le> 366"
proof -
  obtain y m d where v: "valid_date y m d" and z: "day_number y m d = z" using day_number_surj by blast
  from valid_march(1) [OF v] march_inverse(3) [OF valid_march(2,3) [OF v]] z valid_march(2,3) [OF v]
  show "1 \<le> march_day z" "march_day z \<le> 366" by auto
qed

lemma carry:
  assumes "0 \<le> lower" "lower \<le> limit" "0 < (limit :: int)"
  shows "0 \<le> lower mod limit" "lower mod limit < limit" "0 \<le> lower div limit" "lower div limit \<le> 1"
    "lower = limit * (lower div limit) + lower mod limit"
  using assms by (cases "lower = limit"; simp)+

lemma normalize_fields:
  fixes h mi s ms us :: int
  defines "T \<equiv> (((h * 60 + mi) * 60 + s) * 1000 + ms) * 1000 + us"
  defines "h1 \<equiv> T div 3600000000"
  assumes dt: "pd_hour dt = h" "pd_minute dt = mi" "pd_second dt = s" "pd_millisecond dt = ms" "pd_microsecond dt = us"
    and ranges: "0 \<le> h" "h < 24" "0 \<le> mi" "mi < 60" "0 \<le> s" "s < 60" "0 \<le> ms" "ms < 1000" "0 \<le> us" "us \<le> 1000"
    and date: "(pd_year dt, pd_month dt, pd_day dt) = date_of z"
  shows "pd_hour (normalize_date dt) = h1 mod 24"
    "(pd_year (normalize_date dt), pd_month (normalize_date dt), pd_day (normalize_date dt)) = date_of (z + h1 div 24)"
    "pd_utcTime (normalize_date dt) = pd_utcTime dt" "0 \<le> h1" "h1 \<le> 24"
proof -
  define k1 where "k1 = us div 1000"
  note c1 = carry [OF ranges(9,10), folded k1_def]
  define k2 where "k2 = (ms + k1) div 1000"
  have "0 \<le> ms + k1" "ms + k1 \<le> 1000" using ranges c1 by simp_all
  note c2 = carry [OF this, folded k2_def]
  define k3 where "k3 = (s + k2) div 60"
  have "0 \<le> s + k2" "s + k2 \<le> 60" using ranges c2 by simp_all
  note c3 = carry [OF this, folded k3_def]
  define k4 where "k4 = (mi + k3) div 60"
  have "0 \<le> mi + k3" "mi + k3 \<le> 60" using ranges c3 by simp_all
  note c4 = carry [OF this, folded k4_def]
  have h1: "h1 = h + k4"
    unfolding h1_def
  proof (rule int_div_pos_eq)
    show "T = 3600000000 * (h + k4) +
        ((((mi + k3) mod 60 * 60 + (s + k2) mod 60) * 1000 + (ms + k1) mod 1000) * 1000 + us mod 1000)"
      using c1(5) c2(5) c3(5) c4(5) unfolding T_def by simp
  next
    show "0 \<le> (((mi + k3) mod 60 * 60 + (s + k2) mod 60) * 1000 + (ms + k1) mod 1000) * 1000 + us mod 1000"
      using c1(1) c2(1) c3(1) c4(1) by simp
    show "(((mi + k3) mod 60 * 60 + (s + k2) mod 60) * 1000 + (ms + k1) mod 1000) * 1000 + us mod 1000 < 3600000000"
      using c1(2) c2(2) c3(2) c4(2) by simp
  qed
  show H: "0 \<le> h1" "h1 \<le> 24" using h1 ranges c4 by simp_all
  obtain y m d where ymd: "date_of z = (y, m, d)" by (metis prod_cases3)
  then have v: "valid_date y m d" by (rule date_of_valid)
  then have d: "1 \<le> d" "d \<le> daysOfMonth y m" "1 \<le> m" "m \<le> 12" by (simp_all add: valid_date_def)
  have dm: "daysOfMonth y m \<le> 31" using months [OF d(3,4)] by (elim disjE; simp add: calendar_tables)
  have n: "next_day (y, m, d) = date_of (z + 1)" using date_of_next [of z] ymd by simp
  have l1: "checkLimit us ms 1000 = (us mod 1000, ms + k1)"
    unfolding k1_def by (rule checkLimit_eq) (use ranges c1(4) in \<open>simp_all flip: k1_def\<close>)
  have l2: "checkLimit (ms + k1) s 1000 = ((ms + k1) mod 1000, s + k2)"
    unfolding k2_def by (rule checkLimit_eq) (use ranges c1 c2(4) in \<open>simp_all flip: k2_def\<close>)
  have l3: "checkLimit (s + k2) mi 60 = ((s + k2) mod 60, mi + k3)"
    unfolding k3_def by (rule checkLimit_eq) (use ranges c2 c3(4) in \<open>simp_all flip: k3_def\<close>)
  have l4: "checkLimit (mi + k3) h 60 = ((mi + k3) mod 60, h + k4)"
    unfolding k4_def by (rule checkLimit_eq) (use ranges c3 c4(4) in \<open>simp_all flip: k4_def\<close>)
  note lims = l1 l2 l3 l4
  have lim5: "checkLimit h1 d 24 = (h1 mod 24, d + h1 div 24)" "h1 div 24 = 0 \<or> h1 div 24 = 1 \<and> h1 mod 24 = 0"
    using checkLimit_eq [of h1 d 24] H d dm by (cases "h1 = 24"; simp)+
  show "pd_hour (normalize_date dt) = h1 mod 24" "pd_utcTime (normalize_date dt) = pd_utcTime dt"
    using date ymd by (simp_all add: normalize_date_def dt lims h1 [symmetric] lim5 Let_def)
  show "(pd_year (normalize_date dt), pd_month (normalize_date dt), pd_day (normalize_date dt)) = date_of (z + h1 div 24)"
    using date ymd lim5(2) d n
    by (auto simp: normalize_date_def dt lims h1 [symmetric] lim5(1) Let_def next_day_def split: if_splits)
qed

lemma date_part:
  assumes "calendar_range z" "0 \<le> r" "r < 1"
  shows "gregorian_date z r = date_of z"
proof -
  have y: "short (march_year z) = march_year z" "short (march_year z + 1) = march_year z + 1"
    using march_year_range [OF assms(1)] by (intro short_id; linarith)+
  define c where "c = march_day z"
  have c: "1 \<le> c" "c \<le> 366" using march_day_range by (simp_all add: c_def)
  define m where "m = (5 * c + 456) div 153"
  have m: "short m = m" using c unfolding m_def by (intro short_id; linarith)
  define d where "d = c - (153 * m - 457) div 5"
  have d: "1 \<le> d" "d \<le> 31"
  proof -
    have "\<exists>y' m'. date_of z = (y', m', d)" by (simp add: date_of_def Let_def c_def m_def d_def)
    then obtain y' m' where "date_of z = (y', m', d)" by blast
    from date_of_valid(1) [OF this] months [of m'] show "1 \<le> d" "d \<le> 31"
      by (auto simp: valid_date_def calendar_tables split: if_splits)
  qed
  have "cut_off (of_int d + r) = d"
  proof -
    have "\<lfloor>of_int d + r\<rfloor> = d" using assms(2,3) by linarith
    then show ?thesis using d assms(2) by (simp add: cut_off_def)
  qed
  moreover have "short d = d" using d by (intro short_id; linarith)
  moreover have "(4 * z - 1) div 146097 = century z" by (simp add: century_def)
  moreover have "(4 * (century z - century z div 4) + 4 * z - 1) div 1461 = march_year z" by (simp add: march_year_def)
  moreover have "century z - century z div 4 + z - 1461 * march_year z div 4 = c" by (simp add: march_day_def c_def)
  moreover have "date_of z = (if m > 12 then (march_year z + 1, m - 12, d) else (march_year z, m, d))"
    by (simp only: date_of_def Let_def c_def m_def d_def)
  ultimately show ?thesis
    by (simp only: gregorian_date_def Let_def floors floor_int_div y m m_def [symmetric] d_def [symmetric])
qed

lemma time_part:
  fixes r :: rat
  assumes "0 \<le> r" "r < 1"
  defines "H \<equiv> \<lfloor>r * 24\<rfloor>"
  defines "M \<equiv> \<lfloor>(r * 24 - of_int H) * 60\<rfloor>"
  defines "S \<equiv> \<lfloor>((r * 24 - of_int H) * 60 - of_int M) * 60\<rfloor>"
  defines "ms \<equiv> \<lfloor>(((r * 24 - of_int H) * 60 - of_int M) * 60 - of_int S) * 1000\<rfloor>"
  defines "us \<equiv> cut_off (((((r * 24 - of_int H) * 60 - of_int M) * 60 - of_int S) * 1000 - of_int ms) * 1000 + 1 / 2)"
  shows "0 \<le> H \<and> H < 24" "0 \<le> M \<and> M < 60" "0 \<le> S \<and> S < 60" "0 \<le> ms \<and> ms < 1000" "0 \<le> us \<and> us \<le> 1000"
    "(((H * 60 + M) * 60 + S) * 1000 + ms) * 1000 + us = \<lfloor>86400000000 * r + 1 / 2\<rfloor>"
proof -
  define r2 where "r2 = (r * 24 - of_int H) * 60"
  define r3 where "r3 = (r2 - of_int M) * 60"
  define r4 where "r4 = (r3 - of_int S) * 1000"
  define r5 where "r5 = (r4 - of_int ms) * 1000"
  have defs: "M = \<lfloor>r2\<rfloor>" "S = \<lfloor>r3\<rfloor>" "ms = \<lfloor>r4\<rfloor>" "us = cut_off (r5 + 1 / 2)"
    by (simp_all add: M_def S_def ms_def us_def r2_def r3_def r4_def r5_def)
  have r2: "0 \<le> r2" "r2 < 60" using frac_times [of 60 "r * 24"] by (simp_all add: r2_def H_def)
  have r3: "0 \<le> r3" "r3 < 60" using frac_times [of 60 r2] by (simp_all add: r3_def defs)
  have r4: "0 \<le> r4" "r4 < 1000" using frac_times [of 1000 r3] by (simp_all add: r4_def defs)
  have r5: "0 \<le> r5" "r5 < 1000" using frac_times [of 1000 r4] by (simp_all add: r5_def defs)
  show "0 \<le> H \<and> H < 24" unfolding H_def using assms(1,2) by (intro floor_range) simp_all
  show "0 \<le> M \<and> M < 60" unfolding defs using r2 by (intro floor_range) simp_all
  show "0 \<le> S \<and> S < 60" unfolding defs using r3 by (intro floor_range) simp_all
  show "0 \<le> ms \<and> ms < 1000" unfolding defs using r4 by (intro floor_range) simp_all
  have us: "us = \<lfloor>r5 + 1 / 2\<rfloor>" using r5 by (simp add: defs cut_off_def)
  show "0 \<le> us \<and> us \<le> 1000" unfolding us using r5 by linarith
  have "86400000000 * r = of_int ((((H * 60 + M) * 60 + S) * 1000 + ms) * 1000) + r5"
    by (simp add: r2_def r3_def r4_def r5_def algebra_simps)
  then have "86400000000 * r + 1 / 2 = of_int ((((H * 60 + M) * 60 + S) * 1000 + ms) * 1000) + (r5 + 1 / 2)" by simp
  then show "(((H * 60 + M) * 60 + S) * 1000 + ms) * 1000 + us = \<lfloor>86400000000 * r + 1 / 2\<rfloor>"
    unfolding us by (simp only: floor_int_add)
qed

text \<open>The absolute hour of a Julian day, rounded to microseconds, gives the fields of \<open>computeGregorian\<close>.\<close>

lemma computeGregorian_fields:
  fixes jd dt
  defines "X \<equiv> jd - 3442237 / 2"
  defines "Q \<equiv> \<lfloor>86400000000 * X + 1 / 2\<rfloor> div 3600000000"
  assumes range: "calendar_range \<lfloor>X\<rfloor>"
  shows "(pd_year (computeGregorian jd dt), pd_month (computeGregorian jd dt), pd_day (computeGregorian jd dt)) = date_of (Q div 24)"
    and "pd_hour (computeGregorian jd dt) = Q mod 24" and "pd_utcTime (computeGregorian jd dt) = pd_utcTime dt"
proof -
  define z where "z = \<lfloor>X\<rfloor>"
  define r where "r = X - of_int z"
  have r: "0 \<le> r" "r < 1" by (simp_all add: r_def z_def) linarith
  define H where "H = \<lfloor>r * 24\<rfloor>"
  define M where "M = \<lfloor>(r * 24 - of_int H) * 60\<rfloor>"
  define S where "S = \<lfloor>((r * 24 - of_int H) * 60 - of_int M) * 60\<rfloor>"
  define ms where "ms = \<lfloor>(((r * 24 - of_int H) * 60 - of_int M) * 60 - of_int S) * 1000\<rfloor>"
  define us where "us = cut_off (((((r * 24 - of_int H) * 60 - of_int M) * 60 - of_int S) * 1000 - of_int ms) * 1000 + 1 / 2)"
  note tp = time_part [OF r, folded H_def, folded M_def, folded S_def, folded ms_def, folded us_def]
  obtain y m d where ymd: "date_of z = (y, m, d)" by (metis prod_cases3)
  define dt' where "dt' = dt\<lparr>pd_year := y, pd_month := m, pd_day := d, pd_hour := H, pd_minute := M, pd_second := S,
    pd_millisecond := ms, pd_microsecond := us\<rparr>"
  have sh: "short H = H" "short M = M" "short S = S" "short ms = ms" "short us = us"
    using tp(1-5) by (intro short_id; linarith)+
  have "gregorian_time r = (H, M, S, ms, us)"
    unfolding gregorian_time_def Let_def H_def [symmetric] M_def [symmetric] S_def [symmetric] ms_def [symmetric]
      us_def [symmetric] sh by (rule refl)
  moreover have "gregorian_date z r = (y, m, d)" using date_part [OF range [folded z_def] r] ymd by simp
  ultimately have G: "computeGregorian jd dt = normalize_date dt'"
    unfolding computeGregorian_def Let_def X_def [symmetric] z_def [symmetric] r_def [symmetric] by (simp add: dt'_def)
  define T where "T = (((H * 60 + M) * 60 + S) * 1000 + ms) * 1000 + us"
  have "86400000000 * X + 1 / 2 = of_int (86400000000 * z) + (86400000000 * r + 1 / 2)" by (simp add: r_def algebra_simps)
  then have "\<lfloor>86400000000 * X + 1 / 2\<rfloor> = 86400000000 * z + T" unfolding T_def tp(6) by (simp only: floor_int_add)
  then have "Q = (24 * z) + T div 3600000000" unfolding Q_def using div_mult_self1 [of "3600000000" T "24 * z"] by (simp add: algebra_simps)
  then have Q: "Q div 24 = z + T div 3600000000 div 24" "Q mod 24 = T div 3600000000 mod 24" by simp_all
  note N = normalize_fields [of dt' H M S ms us z, folded T_def]
  show "(pd_year (computeGregorian jd dt), pd_month (computeGregorian jd dt), pd_day (computeGregorian jd dt)) = date_of (Q div 24)"
    "pd_hour (computeGregorian jd dt) = Q mod 24" "pd_utcTime (computeGregorian jd dt) = pd_utcTime dt"
    unfolding G Q using N(1-3) tp(1-5) ymd by (simp_all add: dt'_def)
qed

text \<open>The fields of a time without floating-point numbers, counted in days, hours and so on.\<close>

definition first_day :: int where
  "first_day = 578042"

definition exact_date :: "int \<Rightarrow> poco_date" where
  "exact_date utc =
     (let span = utc div 10; (y, m, d) = date_of (first_day + span div 86400000000)
      in \<lparr>pd_utcTime = utc, pd_year = y, pd_month = m, pd_day = d, pd_hour = span div HOURS mod 24,
          pd_minute = span div MINUTES mod 60, pd_second = span div SECONDS mod 60,
          pd_millisecond = span div 1000 mod 1000, pd_microsecond = span mod 1000\<rparr>)"

text \<open>A Julian day that is off by less than an hour; the rounding of a \<open>double\<close> is off by some microseconds.\<close>

definition near_julian :: "(int \<Rightarrow> rat) \<Rightarrow> int \<Rightarrow> bool" where
  "near_julian julian utc \<longleftrightarrow> \<bar>julian utc - (of_int utc / 864000000000 + 4598321 / 2)\<bar> < 1 / 25"

definition utc_range :: "int \<Rightarrow> bool" where
  "utc_range utc \<longleftrightarrow> 0 \<le> utc \<and> utc < 2700000000000000000"

lemma neighbours:
  assumes "\<bar>w - n\<bar> < (b :: int)"
  shows "w div b = n div b \<or> w div b = n div b + 1 \<or> w div b = n div b - 1"
proof -
  have b: "0 < b" using assms by linarith
  have "(n - b) div b \<le> w div b" "w div b \<le> (n + b) div b" using assms b by (intro zdiv_mono1; linarith)+
  moreover have "(n - b) div b = n div b - 1" "(n + b) div b = n div b + 1"
    using b div_mult_self1 [of b n "-1"] by (simp_all add: algebra_simps)
  ultimately show ?thesis by linarith
qed

lemma near_hours:
  assumes "near_julian julian utc" "utc_range utc"
  defines "X \<equiv> julian utc - 3442237 / 2"
  defines "P \<equiv> first_day * 24 + utc div 10 div HOURS"
  shows "calendar_range \<lfloor>X\<rfloor>"
    "\<lfloor>86400000000 * X + 1 / 2\<rfloor> div 3600000000 \<in> {P, P + 1, P - 1}"
proof -
  have u: "0 \<le> (of_int utc :: rat)" "of_int utc < (2700000000000000000 :: rat)"
    using assms(2) by (simp_all add: utc_range_def)
  have d: "\<bar>X - (of_int utc / 864000000000 + 578042)\<bar> < 1 / 25"
  proof -
    have eq: "X - (of_int utc / 864000000000 + 578042) = julian utc - (of_int utc / 864000000000 + 4598321 / 2)"
      by (simp add: X_def)
    show ?thesis unfolding eq using assms(1) by (simp only: near_julian_def)
  qed
  have "578041 \<le> X" "X \<le> 3800000" using u d by linarith+
  then show "calendar_range \<lfloor>X\<rfloor>" by (simp add: calendar_range_def le_floor_iff floor_le_iff)
  define n where "n = 578042 * 86400000000 + utc div 10"
  define w where "w = \<lfloor>86400000000 * X + 1 / 2\<rfloor>"
  have "of_int (utc div 10) \<le> (of_int utc / 10 :: rat)" "of_int utc / 10 < (of_int (utc div 10) + 1 :: rat)"
    using floor_divide_of_int_eq [of utc 10, where 'a = rat] by (simp_all add: floor_eq_iff)
  then have "\<bar>86400000000 * X - of_int n\<bar> < 3456000001"
    using d unfolding n_def of_int_add of_int_mult of_int_numeral by linarith
  then have "\<bar>w - n\<bar> < 3600000000" unfolding w_def by linarith
  from neighbours [OF this] have "w div 3600000000 \<in> {n div 3600000000, n div 3600000000 + 1, n div 3600000000 - 1}" by blast
  moreover have "n div 3600000000 = P"
    using div_mult_self1 [of "3600000000" "utc div 10" "578042 * 24"]
    by (simp add: n_def P_def first_day_def span_units algebra_simps)
  ultimately show "\<lfloor>86400000000 * X + 1 / 2\<rfloor> div 3600000000 \<in> {P, P + 1, P - 1}" by (simp add: w_def)
qed

lemma sdiv_nonneg: "0 \<le> a \<Longrightarrow> a sdiv numeral k = a div numeral k" "0 \<le> a \<Longrightarrow> a smod numeral k = a mod numeral k" for a :: int
  by (simp_all add: signed_divide_int_def signed_modulo_int_def sgn_if)

text \<open>The correction of \<open>computeDaytime\<close>: the hours of the date and of the time are neighbours.\<close>

lemma corrected_date:
  fixes P Q :: int
  assumes "Q \<in> {P, P + 1, P - 1}"
  shows "P mod 24 = 23 \<and> Q mod 24 = 0 \<Longrightarrow> Q div 24 = P div 24 + 1"
    "P mod 24 = 0 \<and> Q mod 24 = 23 \<Longrightarrow> Q div 24 = P div 24 - 1"
    "\<not> (P mod 24 = 23 \<and> Q mod 24 = 0) \<Longrightarrow> \<not> (P mod 24 = 0 \<and> Q mod 24 = 23) \<Longrightarrow> Q div 24 = P div 24"
proof -
  have up: "(P + 1) mod 24 = 0 \<longleftrightarrow> P mod 24 = 23" "(P + 1) mod 24 = 23 \<longleftrightarrow> P mod 24 = 22"
    using mod_succ [of 24 P] pos_mod_bound [of 24 P] pos_mod_sign [of 24 P] by (auto split: if_splits)
  have down: "(P - 1) mod 24 = 23 \<longleftrightarrow> P mod 24 = 0" "(P - 1) mod 24 = 0 \<longleftrightarrow> P mod 24 = 1"
    using mod_succ [of 24 "P - 1"] pos_mod_bound [of 24 "P - 1"] pos_mod_sign [of 24 "P - 1"] by (auto split: if_splits)
  have d: "(P + 1) div 24 = P div 24 + (if P mod 24 = 23 then 1 else 0)" "(P - 1) div 24 = P div 24 - (if P mod 24 = 0 then 1 else 0)"
    using div_step [of 24 "P + 1"] div_step [of 24 P] by (auto simp: up)
  consider "Q = P" | "Q = P + 1" | "Q = P - 1" using assms by blast
  then have "(P mod 24 = 23 \<and> Q mod 24 = 0 \<longrightarrow> Q div 24 = P div 24 + 1) \<and>
    (P mod 24 = 0 \<and> Q mod 24 = 23 \<longrightarrow> Q div 24 = P div 24 - 1) \<and>
    (\<not> (P mod 24 = 23 \<and> Q mod 24 = 0) \<and> \<not> (P mod 24 = 0 \<and> Q mod 24 = 23) \<longrightarrow> Q div 24 = P div 24)"
    by cases (auto simp: up down d)
  then show "P mod 24 = 23 \<and> Q mod 24 = 0 \<Longrightarrow> Q div 24 = P div 24 + 1"
    "P mod 24 = 0 \<and> Q mod 24 = 23 \<Longrightarrow> Q div 24 = P div 24 - 1"
    "\<not> (P mod 24 = 23 \<and> Q mod 24 = 0) \<Longrightarrow> \<not> (P mod 24 = 0 \<and> Q mod 24 = 23) \<Longrightarrow> Q div 24 = P div 24" by auto
qed

definition corrected :: "int \<Rightarrow> int \<Rightarrow> int \<times> int \<times> int \<Rightarrow> int \<times> int \<times> int" where
  "corrected hour computed D =
     (if hour = 23 \<and> computed = 0 then prev_day D else if hour = 0 \<and> computed = 23 then next_day D else D)"

lemma computeDaytime_corrected:
  "computeDaytime dt =
     (let span = pd_utcTime dt sdiv 10;
          hour = (span sdiv HOURS) smod 24;
          (y, m, d) = corrected hour (pd_hour dt) (pd_year dt, pd_month dt, pd_day dt)
      in dt\<lparr>pd_year := y, pd_month := m, pd_day := d, pd_hour := hour, pd_minute := (span sdiv MINUTES) smod 60,
           pd_second := (span sdiv SECONDS) smod 60, pd_millisecond := (span sdiv 1000) smod 1000,
           pd_microsecond := span smod 1000\<rparr>)"
  unfolding computeDaytime_def corrected_def prev_day_def next_day_def prod.case ..

lemma DateTime_fields:
  assumes "near_julian julian utc" "utc_range utc"
  shows "DateTime_of julian utc = exact_date utc"
proof -
  define P where "P = first_day * 24 + utc div 10 div HOURS"
  define Q where "Q = \<lfloor>86400000000 * (julian utc - 3442237 / 2) + 1 / 2\<rfloor> div 3600000000"
  note near = near_hours [OF assms, folded P_def, folded Q_def]
  define g where "g = computeGregorian (julian utc) \<lparr>pd_utcTime = utc, pd_year = 0, pd_month = 0, pd_day = 0, pd_hour = 0,
    pd_minute = 0, pd_second = 0, pd_millisecond = 0, pd_microsecond = 0\<rparr>"
  have G: "(pd_year g, pd_month g, pd_day g) = date_of (Q div 24)" "pd_hour g = Q mod 24" "pd_utcTime g = utc"
    using computeGregorian_fields [OF near(1), of "\<lparr>pd_utcTime = utc, pd_year = 0, pd_month = 0, pd_day = 0, pd_hour = 0,
      pd_minute = 0, pd_second = 0, pd_millisecond = 0, pd_microsecond = 0\<rparr>"]
    by (simp_all add: g_def Q_def)
  define span where "span = utc div 10"
  have span: "0 \<le> span" "utc sdiv 10 = span" using assms(2) by (simp_all add: utc_range_def span_def sdiv_nonneg pos_imp_zdiv_nonneg_iff)
  have units: "span sdiv HOURS smod 24 = span div HOURS mod 24" "span sdiv MINUTES smod 60 = span div MINUTES mod 60"
    "span sdiv SECONDS smod 60 = span div SECONDS mod 60" "span sdiv 1000 smod 1000 = span div 1000 mod 1000"
    "span smod 1000 = span mod 1000"
    using span(1) by (simp_all add: span_units sdiv_nonneg pos_imp_zdiv_nonneg_iff)
  have P: "P mod 24 = span div HOURS mod 24" "P div 24 = first_day + span div 86400000000"
    using zdiv_zmult2_eq [of 24 span 3600000000] by (simp_all add: P_def span_def span_units)
  let ?D = "(pd_year g, pd_month g, pd_day g)"
  have "corrected (P mod 24) (Q mod 24) ?D = date_of (P div 24)"
    unfolding corrected_def G(1)
    using corrected_date [OF near(2)] by (auto simp: date_of_prev date_of_next)
  then show ?thesis
    unfolding DateTime_of_def g_def [symmetric] computeDaytime_corrected
    by (simp add: Let_def G(2,3) span units exact_date_def P span_def [symmetric] split: prod.split)
qed

lemma toJulianDay_number: "toJulianDay y m d = of_int (day_number y m d) + 3442237 / 2"
  by (simp add: toJulianDay_def day_number_def march_days_def Let_def floor_int_div)

lemma toUtcTime_day: "toUtcTime (of_int z + 3442237 / 2) = (z - first_day) * 864000000000"
proof -
  have "(of_int z + 3442237 / 2 - 4598321 / 2) * 864000000000 = (of_int ((z - first_day) * 864000000000) :: rat)"
    by (simp add: first_day_def)
  then show ?thesis unfolding toUtcTime_def cut_off_def by (simp only: floor_of_int of_int_minus [symmetric]) simp
qed

lemma march_days_mono: "y \<le> y' \<Longrightarrow> march_days c y + 365 * (y' - y) \<le> march_days c y'"
proof (induction y' rule: int_ge_induct)
  case base
  show ?case by simp
next
  case (step i)
  with march_days_prev [of c "i + 1"] show ?case by (auto split: if_splits)
qed

lemma day_number_range:
  assumes "valid_date y m d" "1583 \<le> y" "y \<le> 9999"
  shows "first_day \<le> day_number y m d" "day_number y m d < 3660000"
proof -
  define y' where "y' = (if m < 3 then y - 1 else y)"
  define c where "c = d + lookup ! nat (if m < 3 then m + 12 else m)"
  have n: "day_number y m d = march_days c y'" unfolding c_def y'_def by (rule valid_march(1) [OF assms(1)])
  have c: "1 \<le> c" unfolding c_def by (rule valid_march(2) [OF assms(1)])
  have c': "c \<le> 366" using valid_march(3) [OF assms(1), folded c_def] by auto
  have Y: "1582 \<le> y'" "y' \<le> 9999" using assms(2,3) by (auto simp: y'_def split: if_splits)
  from march_days_mono [OF Y(2), of c] c' show "day_number y m d < 3660000" using Y by (simp add: n march_days_def)
  have m: "1 \<le> m" "m \<le> 12" "1 \<le> d" using assms(1) by (simp_all add: valid_date_def)
  show "first_day \<le> day_number y m d"
  proof (cases "m < 3")
    case True
    then have "m = 1 \<or> m = 2" using m by linarith
    then have "307 \<le> c" using m by (auto simp: c_def lookup_def)
    with march_days_mono [OF Y(1), of c] Y show ?thesis by (simp add: n march_days_def first_day_def)
  next
    case False
    then have "1583 \<le> y'" using assms(2) by (simp add: y'_def)
    from march_days_mono [OF this, of c] this c c' show ?thesis by (simp add: n march_days_def first_day_def)
  qed
qed

lemma exact_fields:
  assumes "valid_date y mo d" "0 \<le> h" "h < 24" "0 \<le> mi" "mi < 60" "0 \<le> s" "s < 60" "0 \<le> ms" "ms < 1000" "0 \<le> us" "us < 1000"
  shows "exact_date ((day_number y mo d - first_day) * 864000000000 + 10 * (h * HOURS + mi * MINUTES + s * SECONDS + ms * 1000 + us)) =
    \<lparr>pd_utcTime = (day_number y mo d - first_day) * 864000000000 + 10 * (h * HOURS + mi * MINUTES + s * SECONDS + ms * 1000 + us),
     pd_year = y, pd_month = mo, pd_day = d, pd_hour = h, pd_minute = mi, pd_second = s, pd_millisecond = ms, pd_microsecond = us\<rparr>"
proof -
  define n where "n = day_number y mo d - first_day"
  let ?T = "h * HOURS + mi * MINUTES + s * SECONDS + ms * 1000 + us"
  have span: "(n * 864000000000 + 10 * ?T) div 10 = n * 86400000000 + ?T" by simp
  define S where "S = n * 86400000000 + ?T"
  have "S div 86400000000 = n" "S div HOURS = 24 * n + h" "S div MINUTES = 60 * (24 * n + h) + mi"
    "S div SECONDS = 60 * (60 * (24 * n + h) + mi) + s" "S div 1000 = 1000 * (60 * (60 * (24 * n + h) + mi) + s) + ms" "S mod 1000 = us"
  proof -
    show "S div 86400000000 = n" by (rule int_div_pos_eq [where r = ?T]) (use assms in \<open>simp_all add: S_def span_units\<close>)
    show "S div HOURS = 24 * n + h" by (rule int_div_pos_eq [where r = "mi * MINUTES + s * SECONDS + ms * 1000 + us"]) (use assms in \<open>simp_all add: S_def span_units\<close>)
    show "S div MINUTES = 60 * (24 * n + h) + mi" by (rule int_div_pos_eq [where r = "s * SECONDS + ms * 1000 + us"]) (use assms in \<open>simp_all add: S_def span_units\<close>)
    show "S div SECONDS = 60 * (60 * (24 * n + h) + mi) + s" by (rule int_div_pos_eq [where r = "ms * 1000 + us"]) (use assms in \<open>simp_all add: S_def span_units\<close>)
    show "S div 1000 = 1000 * (60 * (60 * (24 * n + h) + mi) + s) + ms" by (rule int_div_pos_eq [where r = "us"]) (use assms in \<open>simp_all add: S_def span_units\<close>)
    show "S mod 1000 = us" by (rule int_mod_pos_eq [where q = "1000 * (60 * (60 * (24 * n + h) + mi) + s) + ms"]) (use assms in \<open>simp_all add: S_def span_units\<close>)
  qed
  moreover have "date_of (first_day + n) = (y, mo, d)" using date_of_day_number [OF assms(1)] by (simp add: n_def)
  moreover have "(24 * n + h) mod 24 = h" "(60 * x + mi) mod 60 = mi" "(60 * x + s) mod 60 = s" "(1000 * x + ms) mod 1000 = ms" for x
    using assms by simp_all
  ultimately show ?thesis
    by (simp only: n_def [symmetric] exact_date_def span S_def [symmetric] Let_def prod.case)
qed

lemma assigned_date:
  assumes "DateTime_assign y mo d h mi s ms us = Some dt" "1583 \<le> y" "s < 60"
  shows "exact_date (pd_utcTime dt) = dt" "utc_range (pd_utcTime dt)"
proof -
  have v: "isValid y mo d h mi s ms us"
    and dt: "dt = \<lparr>pd_utcTime = (day_number y mo d - first_day) * 864000000000 + 10 * (h * HOURS + mi * MINUTES + s * SECONDS + ms * 1000 + us),
     pd_year = y, pd_month = mo, pd_day = d, pd_hour = h, pd_minute = mi, pd_second = s, pd_millisecond = ms, pd_microsecond = us\<rparr>"
    using assms(1) by (auto simp: DateTime_assign_def toJulianDay_number toUtcTime_day split: if_splits)
  from v have vd: "valid_date y mo d" and ranges: "0 \<le> h" "h < 24" "0 \<le> mi" "mi < 60" "0 \<le> s" "0 \<le> ms" "ms < 1000" "0 \<le> us" "us < 1000" "y \<le> 9999"
    by (simp_all add: isValid_def valid_date_def)
  show "exact_date (pd_utcTime dt) = dt" unfolding dt poco_date.simps by (rule exact_fields) (use vd ranges assms(3) in simp_all)
  show "utc_range (pd_utcTime dt)"
    using day_number_range [OF vd assms(2) ranges(10)] ranges assms(3) by (simp add: dt utc_range_def first_day_def span_units)
qed

text \<open>The Julian day without rounding.\<close>

definition exact_julian :: "int \<Rightarrow> rat" where
  "exact_julian utc = of_int utc / 864000000000 + 4598321 / 2"

lemma near_exact: "near_julian exact_julian utc" by (simp add: near_julian_def exact_julian_def)

lemma day_number_pos:
  assumes "valid_date y m d" "0 < day_number y m d"
  shows "0 \<le> y"
proof (rule ccontr)
  assume "\<not> 0 \<le> y"
  define y' where "y' = (if m < 3 then y - 1 else y)"
  define c where "c = d + lookup ! nat (if m < 3 then m + 12 else m)"
  have n: "day_number y m d = march_days c y'" unfolding c_def y'_def by (rule valid_march(1) [OF assms(1)])
  have c: "1 \<le> c" unfolding c_def by (rule valid_march(2) [OF assms(1)])
  have c': "c \<le> 366" using valid_march(3) [OF assms(1), folded c_def] by auto
  have y': "y' \<le> -1" using \<open>\<not> 0 \<le> y\<close> by (auto simp: y'_def)
  have M: "march_days c (-1) = c - 366" by (simp add: march_days_def)
  have "march_days c y' \<le> 0" using march_days_mono [OF y', of c, unfolded M] y' c' by simp
  then show False using assms(2) n by simp
qed

lemma unit_split:
  fixes sp k n :: int
  assumes "0 \<le> n" "k * n = K"
  shows "sp div k * k = sp div K * K + sp div k mod n * k"
proof -
  have "sp div k = n * (sp div k div n) + sp div k mod n" by simp
  then have "sp div k * k = (n * (sp div k div n) + sp div k mod n) * k" by (rule arg_cong)
  moreover have "sp div k div n = sp div K" using zdiv_zmult2_eq [OF assms(1), of sp k] assms(2) by simp
  ultimately have "sp div k * k = (n * (sp div K) + sp div k mod n) * k" by (simp only:)
  also have "\<dots> = sp div K * (k * n) + sp div k mod n * k" by (simp only: algebra_simps)
  finally show ?thesis by (simp only: assms(2))
qed

lemma utc_span:
  fixes sp :: int
  shows "sp = sp div 86400000000 * 86400000000 + (sp div HOURS mod 24 * HOURS + sp div MINUTES mod 60 * MINUTES +
    sp div SECONDS mod 60 * SECONDS + sp div 1000 mod 1000 * 1000 + sp mod 1000)"
proof -
  have chain: "\<lbrakk>x = a + r; a = b + s; b = c + t; c = d + u; d = e + v\<rbrakk> \<Longrightarrow> x = e + (v + u + t + s + r)"
    for x a b c d e r s t u v :: int by simp
  show ?thesis
  proof (rule chain [where a = "sp div 1000 * 1000" and b = "sp div SECONDS * SECONDS" and c = "sp div MINUTES * MINUTES"
      and d = "sp div HOURS * HOURS"])
    show "sp = sp div 1000 * 1000 + sp mod 1000" by simp
  qed (rule unit_split; simp add: span_units)+
qed

lemma date_time_reassigned:
  assumes "near_julian julian utc" "utc_range utc" "pd_year (DateTime_of julian utc) \<le> 9999"
  shows "\<exists>dt. dt = DateTime_of julian utc \<and> valid_date (pd_year dt) (pd_month dt) (pd_day dt) \<and> pd_utcTime dt = utc \<and>
    DateTime_assign (pd_year dt) (pd_month dt) (pd_day dt) (pd_hour dt) (pd_minute dt) (pd_second dt) (pd_millisecond dt)
      (pd_microsecond dt) = Some (dt\<lparr>pd_utcTime := utc - utc mod 10\<rparr>)"
proof -
  define span where "span = utc div 10"
  obtain y m d where ymd: "date_of (first_day + span div 86400000000) = (y, m, d)" by (metis prod_cases3)
  note v = date_of_valid [OF this]
  define dt where "dt = exact_date utc"
  have dt: "dt = \<lparr>pd_utcTime = utc, pd_year = y, pd_month = m, pd_day = d, pd_hour = span div HOURS mod 24,
          pd_minute = span div MINUTES mod 60, pd_second = span div SECONDS mod 60,
          pd_millisecond = span div 1000 mod 1000, pd_microsecond = span mod 1000\<rparr>"
    using ymd by (simp add: dt_def exact_date_def span_def Let_def)
  have D: "DateTime_of julian utc = dt" using DateTime_fields [OF assms(1,2)] by (simp add: dt_def)
  have sp: "0 \<le> span" using assms(2) by (simp add: span_def utc_range_def pos_imp_zdiv_nonneg_iff)
  then have "0 < day_number y m d" using v(2) by (simp add: first_day_def pos_imp_zdiv_nonneg_iff add_pos_nonneg)
  then have "0 \<le> y" using day_number_pos v(1) by blast
  then have valid: "isValid y m d (span div HOURS mod 24) (span div MINUTES mod 60) (span div SECONDS mod 60) (span div 1000 mod 1000) (span mod 1000)"
    using v(1) assms(3) unfolding D dt isValid_def valid_date_def
    by (auto simp: less_imp_le order.trans [OF zless_imp_add1_zle [OF pos_mod_bound]])
  define T where "T = span div HOURS mod 24 * HOURS + span div MINUTES mod 60 * MINUTES + span div SECONDS mod 60 * SECONDS +
    span div 1000 mod 1000 * 1000 + span mod 1000"
  have scale: "x = a * 86400000000 + t \<Longrightarrow> a * 864000000000 + 10 * t = 10 * x" for a t x :: int by simp
  have "day_number y m d - first_day = span div 86400000000" using v(2) by (rule diff_eq_eq [THEN iffD2, OF trans]) simp
  then have "(day_number y m d - first_day) * 864000000000 + 10 * T = 10 * span"
    using scale [OF utc_span [of span, folded T_def]] by (simp only:)
  also have "\<dots> = utc - utc mod 10" by (simp add: span_def minus_mod_eq_mult_div)
  finally have "DateTime_assign y m d (span div HOURS mod 24) (span div MINUTES mod 60) (span div SECONDS mod 60)
      (span div 1000 mod 1000) (span mod 1000) = Some (dt\<lparr>pd_utcTime := utc - utc mod 10\<rparr>)"
    by (simp only: DateTime_assign_def valid if_True toJulianDay_number toUtcTime_day T_def dt poco_date.simps)
  then show ?thesis using v(1) by (intro exI [of _ dt]) (simp only: D dt poco_date.simps simp_thms)
qed



section \<open>Days of the week and of the year\<close>

text \<open>The weekday is that of the rounded Julian day.\<close>

definition dayOfWeek :: "rat \<Rightarrow> int" where
  "dayOfWeek julian = \<lfloor>julian + 3 / 2\<rfloor> smod 7"

fun dayOfYear_loop :: "int \<Rightarrow> nat \<Rightarrow> int \<Rightarrow> int \<Rightarrow> int" where
  "dayOfYear_loop year 0 month doy = doy"
| "dayOfYear_loop year (Suc n) month doy = dayOfYear_loop year n (month + 1) (doy + daysOfMonth year month)"

definition dayOfYear :: "poco_date \<Rightarrow> int" where
  "dayOfYear dt = dayOfYear_loop (pd_year dt) (nat (pd_month dt - 1)) 1 0 + pd_day dt"

lemma dayOfYear_loop: "1 \<le> month \<Longrightarrow> month + int n \<le> 12 \<Longrightarrow>
  dayOfYear_loop year n month doy = doy + day_number year (month + int n) 0 - day_number year month 0"
proof (induction n arbitrary: month doy)
  case (Suc n)
  have "month + 1 + int n = month + int (Suc n)" by simp
  with Suc month_step [of month year] show ?case by (simp add: add.assoc)
qed simp

lemma dayOfYear_number:
  assumes "valid_date (pd_year dt) (pd_month dt) (pd_day dt)"
  shows "dayOfYear dt = day_number (pd_year dt) (pd_month dt) (pd_day dt) - day_number (pd_year dt) 1 1 + 1"
  using assms dayOfYear_loop [of 1 "nat (pd_month dt - 1)" "pd_year dt" 0]
    day_number_add [of "pd_year dt" "pd_month dt" "pd_day dt"] day_number_add [of "pd_year dt" 1 1]
  by (simp add: dayOfYear_def valid_date_def)


end
