(* ===== verification/LogRotation.thy ===== *)
theory LogRotation
  imports PocoLogging "HOL-Library.AList"
begin

text \<open>
  The files behind the file channel of the vendored Poco library, as the program's logging uses
  them: \<^verbatim>\<open>deps/poco/Foundation/src/LogFile_STD.cpp\<close>, \<^verbatim>\<open>RotateStrategy.cpp\<close>, \<^verbatim>\<open>ArchiveStrategy.cpp\<close>,
  \<^verbatim>\<open>PurgeStrategy.cpp\<close> and the operations \<open>open\<close>, \<open>close\<close>, \<open>log\<close> and \<open>purge\<close> of \<^verbatim>\<open>FileChannel.cpp\<close>.

  The file system is an association list from paths to files, in the order a directory is
  listed.  The compressor of archives runs in a thread of its own: \<open>as_jobs\<close> are the paths it
  was asked to compress, and \<open>compressImpl\<close> is what it does for one of them, at any time.
  The compression itself, the calendar and the text of dates are parameters.
\<close>

section \<open>The file system\<close>

record log_file =
  lf_text :: string
  lf_modified :: int
  lf_created :: int

type_synonym files = "(string \<times> log_file) list"

definition File_exists :: "string \<Rightarrow> files \<Rightarrow> bool" where
  "File_exists path fs \<longleftrightarrow> map_of fs path \<noteq> None"

definition File_remove :: "string \<Rightarrow> files \<Rightarrow> files" where
  "File_remove path fs = AList.delete path fs"

text \<open>\<open>renameTo\<close> replaces a file that has the new name; it throws when there is nothing to rename.\<close>

definition renameTo :: "string \<Rightarrow> string \<Rightarrow> files \<Rightarrow> files option" where
  "renameTo old new fs =
     (case map_of fs old of None \<Rightarrow> None | Some f \<Rightarrow> Some (AList.update new f (File_remove old fs)))"

text \<open>\<open>LogFile\<close>: opened for appending, made when missing; a message is a line.\<close>

definition LogFile_open :: "int \<Rightarrow> string \<Rightarrow> files \<Rightarrow> files" where
  "LogFile_open now path fs =
     (if File_exists path fs then fs
      else AList.update path \<lparr>lf_text = [], lf_modified = now, lf_created = now\<rparr> fs)"

definition LogFile_write :: "int \<Rightarrow> string \<Rightarrow> string \<Rightarrow> files \<Rightarrow> files" where
  "LogFile_write now path text fs =
     (case map_of fs path of
        None \<Rightarrow> fs
      | Some f \<Rightarrow> AList.update path (f\<lparr>lf_text := lf_text f @ text @ [CHR 0x0A], lf_modified := now\<rparr>) fs)"

definition LogFile_size :: "string \<Rightarrow> files \<Rightarrow> nat" where
  "LogFile_size path fs = (case map_of fs path of None \<Rightarrow> 0 | Some f \<Rightarrow> length (lf_text f))"

text \<open>The creation date kept by the object: the last modification of an empty file.\<close>

definition LogFile_creationDate :: "string \<Rightarrow> files \<Rightarrow> int" where
  "LogFile_creationDate path fs =
     (case map_of fs path of
        None \<Rightarrow> 0 | Some f \<Rightarrow> if lf_text f = [] then lf_modified f else lf_created f)"

section \<open>Archives\<close>

record arch_state =
  as_files :: files
  as_jobs :: "string list"

definition gz_path :: "string \<Rightarrow> string" where
  "gz_path path = path @ ''.gz''"

definition numbered :: "string \<Rightarrow> nat \<Rightarrow> string" where
  "numbered basePath n = basePath @ ''.'' @ nat_digits n"

text \<open>\<open>ArchiveStrategy::moveFile\<close>; nothing is an exception of \<open>renameTo\<close>.\<close>

definition moveFile :: "bool \<Rightarrow> string \<Rightarrow> string \<Rightarrow> arch_state \<Rightarrow> arch_state option" where
  "moveFile compress oldPath newPath st =
     (let compressed = \<not> File_exists oldPath (as_files st);
          f = (if compressed then gz_path oldPath else oldPath);
          mvPath = (if compress \<or> compressed then gz_path newPath else newPath)
      in if \<not> compress \<or> compressed
         then map_option (\<lambda>fs. st\<lparr>as_files := fs\<rparr>) (renameTo f mvPath (as_files st))
         else map_option (\<lambda>fs. st\<lparr>as_files := fs, as_jobs := as_jobs st @ [newPath]\<rparr>)
                (renameTo f newPath (as_files st)))"

definition Archive_exists :: "bool \<Rightarrow> string \<Rightarrow> files \<Rightarrow> bool" where
  "Archive_exists compress name fs \<longleftrightarrow>
     File_exists name fs \<or> compress \<and> File_exists (gz_path name) fs"

text \<open>One job of \<open>ArchiveCompressor\<close>: a path that is gone throws before anything is written.\<close>

definition compressImpl :: "(string \<Rightarrow> string) \<Rightarrow> int \<Rightarrow> string \<Rightarrow> files \<Rightarrow> files" where
  "compressImpl gzip now path fs =
     (case map_of fs path of
        None \<Rightarrow> fs
      | Some f \<Rightarrow>
          File_remove path
            (AList.update (gz_path path) \<lparr>lf_text = gzip (lf_text f), lf_modified = now, lf_created = now\<rparr> fs))"

lemma numbered_inj: "numbered p m = numbered p n \<longleftrightarrow> m = n"
  unfolding numbered_def same_append_eq by (metis digits_value_nat_digits)

lemma gz_path_inj [simp]: "gz_path p = gz_path q \<longleftrightarrow> p = q"
  by (simp add: gz_path_def)

lemma Archive_exists_finite: "finite {n. Archive_exists c (numbered p n) fs}"
proof -
  let ?names = "fst ` set fs"
  have "numbered p n \<in> ?names \<or> gz_path (numbered p n) \<in> ?names" if "Archive_exists c (numbered p n) fs" for n
    using that unfolding Archive_exists_def File_exists_def map_of_eq_None_iff by blast
  then have "{n. Archive_exists c (numbered p n) fs} \<subseteq> numbered p -` ?names \<union> (gz_path \<circ> numbered p) -` ?names"
    unfolding vimage_def comp_def by blast
  moreover have "inj (numbered p)" "inj (gz_path \<circ> numbered p)"
    by (auto intro!: injI simp: numbered_inj)
  ultimately show ?thesis
    by (elim finite_subset) (auto intro: finite_vimageI)
qed

text \<open>The first loop of \<open>archive\<close>: the first number that is free, from \<open>n\<close> on.\<close>

function first_free :: "bool \<Rightarrow> string \<Rightarrow> files \<Rightarrow> nat \<Rightarrow> nat" where
  "first_free compress basePath fs n =
     (if Archive_exists compress (numbered basePath n) fs then first_free compress basePath fs (Suc n) else n)"
  by pat_completeness auto
termination
proof (relation "measure (\<lambda>(c, p, fs, n). card ({k. Archive_exists c (numbered p k) fs} \<inter> {n..}))", goal_cases)
  case (2 c p fs n)
  have "{k. Archive_exists c (numbered p k) fs} \<inter> {Suc n..} \<subset> {k. Archive_exists c (numbered p k) fs} \<inter> {n..}"
    using 2 by (auto simp: psubset_eq set_eq_iff intro!: exI [of _ n])
  then show ?case using Archive_exists_finite by (simp add: psubset_card_mono)
qed simp

declare first_free.simps [simp del]

text \<open>The second loop, from number \<open>n\<close> down; the state is returned also when a move throws.\<close>

fun shift_archives :: "bool \<Rightarrow> string \<Rightarrow> nat \<Rightarrow> arch_state \<Rightarrow> bool \<times> arch_state" where
  "shift_archives compress basePath 0 st =
     (case moveFile compress basePath (numbered basePath 0) st of None \<Rightarrow> (False, st) | Some st' \<Rightarrow> (True, st'))"
| "shift_archives compress basePath (Suc n) st =
     (case moveFile compress (numbered basePath n) (numbered basePath (Suc n)) st of
        None \<Rightarrow> (False, st)
      | Some st' \<Rightarrow> shift_archives compress basePath n st')"

definition archiveByNumber :: "bool \<Rightarrow> string \<Rightarrow> arch_state \<Rightarrow> bool \<times> arch_state" where
  "archiveByNumber compress basePath st =
     shift_archives compress basePath (first_free compress basePath (as_files st) 0) st"

text \<open>
  \<open>archive\<close> of the two strategies.  The one with time stamps, when the archive of this very
  time exists, numbers that archive.  The new \<open>LogFile\<close> is opened in both cases, by
  \<open>archive\<close> itself or, after an exception, by the channel.
\<close>

definition archive_file :: "(bool \<Rightarrow> int \<Rightarrow> string) \<Rightarrow> int \<Rightarrow> archive_strategy \<Rightarrow> bool \<Rightarrow> string \<Rightarrow> arch_state \<Rightarrow> bool \<times> arch_state" where
  "archive_file stamp now strategy compress path st =
     (case strategy of
        ArchiveByNumber \<Rightarrow> archiveByNumber compress path st
      | ArchiveByTimestamp local \<Rightarrow>
          let archPath = path @ ''.'' @ stamp local now
          in if Archive_exists compress archPath (as_files st) then archiveByNumber compress archPath st
             else case moveFile compress path archPath st of None \<Rightarrow> (False, st) | Some st' \<Rightarrow> (True, st'))"

section \<open>Purging\<close>

text \<open>\<open>PurgeStrategy::list\<close>: the files of the same directory whose name continues the log's with a dot.\<close>

definition purge_list :: "string \<Rightarrow> files \<Rightarrow> files" where
  "purge_list path fs =
     filter (\<lambda>(p, f). take (length path + 1) p = path @ ''.'' \<and> CHR ''/'' \<notin> set (drop (length path) p)) fs"

definition purgeByAge :: "int \<Rightarrow> int \<Rightarrow> string \<Rightarrow> files \<Rightarrow> files" where
  "purgeByAge age now path fs =
     foldl (\<lambda>fs (p, f). if now - lf_modified f \<ge> age then File_remove p fs else fs) fs (purge_list path fs)"

text \<open>The inner loop of \<open>PurgeByCountStrategy::purge\<close>: the last of the oldest files.\<close>

fun oldest :: "string \<times> log_file \<Rightarrow> files \<Rightarrow> string \<times> log_file" where
  "oldest purgeIt [] = purgeIt"
| "oldest purgeIt (it # files) =
     oldest (if lf_modified (snd it) \<le> lf_modified (snd purgeIt) then it else purgeIt) files"

lemma oldest_mem: "oldest x files \<in> set (x # files)"
  by (induction x files rule: oldest.induct) auto

function purgeByCount_loop :: "nat \<Rightarrow> files \<Rightarrow> files \<Rightarrow> files" where
  "purgeByCount_loop count [] fs = fs"
| "purgeByCount_loop count (x # files) fs =
     (if length (x # files) > count then
        let purgeIt = oldest x files
        in purgeByCount_loop count (remove1 purgeIt (x # files)) (File_remove (fst purgeIt) fs)
      else fs)"
  by pat_completeness auto
termination
  by (relation "measure (\<lambda>(count, files, fs). length files)")
    (use oldest_mem in \<open>auto simp: length_remove1 simp del: set_simps remove1.simps\<close>)

definition purgeByCount :: "nat \<Rightarrow> string \<Rightarrow> files \<Rightarrow> files" where
  "purgeByCount count path fs = purgeByCount_loop count (purge_list path fs) fs"

definition FileChannel_purge :: "int \<Rightarrow> file_channel \<Rightarrow> files \<Rightarrow> files" where
  "FileChannel_purge now fc fs =
     (case fc_purgeStrategy fc of
        None \<Rightarrow> fs
      | Some (Inl age) \<Rightarrow> purgeByAge age now (fc_path fc) fs
      | Some (Inr count) \<Rightarrow> purgeByCount (nat count) (fc_path fc) fs)"

section \<open>When to rotate\<close>

text \<open>
  The strategies as they run, with their state: the time of the last rotation, 0 at the start, or
  the time of the next one.  The calendar and the dates as text are those of \<open>rot_env\<close>.
\<close>

datatype rotator = AtTime int int int | ByInterval int | BySize nat

record rot_env =
  re_date :: "int \<Rightarrow> date_time"
  re_print :: "int \<Rightarrow> string"
  re_parse :: "string \<Rightarrow> int option"

definition ROTATE_TEXT :: string where
  "ROTATE_TEXT = ''# Log file created/rotated ''"

text \<open>The search of \<open>RotateAtTimeStrategy\<close> in steps of a minute and a millisecond.\<close>

partial_function (option) getNextRollover :: "rot_env \<Rightarrow> int \<Rightarrow> int \<Rightarrow> int \<Rightarrow> int \<Rightarrow> int option" where
  "getNextRollover env day hour minute threshold =
     (let t = threshold + 60001000; d = re_date env t
      in if int (dt_minute d) = minute \<and> (hour = -1 \<or> int (dt_hour d) = hour) \<and> (day = -1 \<or> int (dt_dayOfWeek d) = day)
         then Some (t - (int (dt_second d) * 1000000 + int (dt_millisecond d) * 1000 + int (dt_microsecond d)))
         else getNextRollover env day hour minute t)"

text \<open>
  \<open>mustRotate\<close>: the answer, the new state of the strategy and the files, to which the interval strategy
  adds the first line.  Nothing is an exception, for a first line whose date does not parse.
\<close>

definition mustRotate :: "rot_env \<Rightarrow> int \<Rightarrow> rotator \<Rightarrow> string \<Rightarrow> int \<Rightarrow> files \<Rightarrow> (bool \<times> int \<times> files) option" where
  "mustRotate env now r path lastRotate fs =
     (case r of
        BySize sz \<Rightarrow> Some (LogFile_size path fs \<ge> sz, lastRotate, fs)
      | AtTime day hour minute \<Rightarrow>
          if now \<ge> lastRotate then map_option (\<lambda>t. (True, t, fs)) (getNextRollover env day hour minute lastRotate)
          else Some (False, lastRotate, fs)
      | ByInterval span \<Rightarrow>
          let sz = LogFile_size path fs;
              text = (case map_of fs path of None \<Rightarrow> [] | Some f \<Rightarrow> lf_text f);
              tag = takeWhile (\<lambda>c. c \<noteq> CHR 0x0A \<and> c \<noteq> CHR 0x0D) text
          in map_option (\<lambda>(lastRotate, fs). (span \<le> now - lastRotate, lastRotate, fs))
             (if lastRotate = 0 \<or> sz = 0 then
                (if sz \<noteq> 0 then
                   (if take (length ROTATE_TEXT) tag = ROTATE_TEXT
                    then map_option (\<lambda>t. (t, fs)) (re_parse env (drop (length ROTATE_TEXT) tag))
                    else Some (LogFile_creationDate path fs, fs))
                 else Some (now, LogFile_write now path (ROTATE_TEXT @ re_print env now) fs))
              else Some (lastRotate, fs)))"

section \<open>The channel\<close>

record channel_state =
  ch_arch :: arch_state
  ch_open :: bool
  ch_last :: int

abbreviation ch_files :: "channel_state \<Rightarrow> files" where
  "ch_files st \<equiv> as_files (ch_arch st)"

definition set_files :: "files \<Rightarrow> channel_state \<Rightarrow> channel_state" where
  "set_files fs st = st\<lparr>ch_arch := (ch_arch st)\<lparr>as_files := fs\<rparr>\<rparr>"

text \<open>The archive, the new file, and the purge unless archiving threw.\<close>

definition rotate_files :: "(bool \<Rightarrow> int \<Rightarrow> string) \<Rightarrow> int \<Rightarrow> file_channel \<Rightarrow> channel_state \<Rightarrow> channel_state" where
  "rotate_files stamp now fc st =
     (let (ok, a) = archive_file stamp now (fc_archiveStrategy fc) (fc_compress fc) (fc_path fc) (ch_arch st);
          fs = LogFile_open now (fc_path fc) (as_files a)
      in st\<lparr>ch_arch := a\<lparr>as_files := if ok then FileChannel_purge now fc fs else fs\<rparr>\<rparr>)"

definition FileChannel_open :: "(bool \<Rightarrow> int \<Rightarrow> string) \<Rightarrow> int \<Rightarrow> file_channel \<Rightarrow> channel_state \<Rightarrow> channel_state" where
  "FileChannel_open stamp now fc st =
     (if ch_open st then st
      else let st = (set_files (LogFile_open now (fc_path fc) (ch_files st)) st)\<lparr>ch_open := True\<rparr>
           in if fc_rotateOnOpen fc \<and> LogFile_size (fc_path fc) (ch_files st) > 0
              then rotate_files stamp now fc st else st)"

definition FileChannel_close :: "channel_state \<Rightarrow> channel_state" where
  "FileChannel_close st = st\<lparr>ch_open := False\<rparr>"

text \<open>\<open>log\<close>: whether the message was written, which it is not when \<open>mustRotate\<close> throws.\<close>

definition FileChannel_log ::
    "(bool \<Rightarrow> int \<Rightarrow> string) \<Rightarrow> rot_env \<Rightarrow> int \<Rightarrow> file_channel \<Rightarrow> rotator option \<Rightarrow> string \<Rightarrow> channel_state \<Rightarrow> bool \<times> channel_state" where
  "FileChannel_log stamp env now fc rot text st =
     (let st = FileChannel_open stamp now fc st; path = fc_path fc;
          put = (\<lambda>st. (True, set_files (LogFile_write now path text (ch_files st)) st))
      in case rot of
           None \<Rightarrow> put st
         | Some r \<Rightarrow>
             (case mustRotate env now r path (ch_last st) (ch_files st) of
                None \<Rightarrow> (False, st)
              | Some (must, lastRotate, fs) \<Rightarrow>
                  let st = (set_files fs st)\<lparr>ch_last := lastRotate\<rparr>
                  in if \<not> must then put st
                     else let st = rotate_files stamp now fc st
                          in case mustRotate env now r path (ch_last st) (ch_files st) of
                               None \<Rightarrow> (False, st)
                             | Some (_, lastRotate, fs) \<Rightarrow> put ((set_files fs st)\<lparr>ch_last := lastRotate\<rparr>)))"

text \<open>The compressor takes its next job.\<close>

definition run_job :: "(string \<Rightarrow> string) \<Rightarrow> int \<Rightarrow> channel_state \<Rightarrow> channel_state" where
  "run_job gzip now st =
     (case as_jobs (ch_arch st) of
        [] \<Rightarrow> st
      | path # jobs \<Rightarrow>
          st\<lparr>ch_arch := (ch_arch st)\<lparr>as_files := compressImpl gzip now path (ch_files st), as_jobs := jobs\<rparr>\<rparr>)"

section \<open>The log as a whole\<close>

lemma File_ops_map [simp]:
  "map_of (File_remove p fs) = (map_of fs)(p := None)"
  "map_of (AList.update p f fs) = (map_of fs)(p \<mapsto> f)"
  by (simp_all add: File_remove_def delete_conv' update_conv')

lemma renameTo_map:
  "map_of fs old = Some f \<Longrightarrow> \<exists>fs'. renameTo old new fs = Some fs' \<and> map_of fs' = (map_of fs)(old := None, new \<mapsto> f)"
  by (simp add: renameTo_def)

lemma numbered_digit: "c \<in> set (nat_digits n) \<Longrightarrow> is_digit 10 c"
  using takeWhile_nat_digits [of n] by (metis set_takeWhileD)

lemma numbered_neq [simp]:
  "numbered p n \<noteq> p" "gz_path (numbered p n) \<noteq> p" "gz_path (numbered p m) \<noteq> numbered p n" "numbered p n \<noteq> gz_path (numbered p m)"
proof -
  show "numbered p n \<noteq> p" "gz_path (numbered p n) \<noteq> p" by (simp_all add: numbered_def gz_path_def)
  have z: "\<not> is_digit 10 CHR ''z''" by code_simp
  show "gz_path (numbered p m) \<noteq> numbered p n"
  proof
    assume "gz_path (numbered p m) = numbered p n"
    then have "nat_digits n = nat_digits m @ ''.gz''" by (simp add: gz_path_def numbered_def)
    then have "CHR ''z'' \<in> set (nat_digits n)" by simp
    with numbered_digit z show False by blast
  qed
  then show "numbered p n \<noteq> gz_path (numbered p m)" by metis
qed

lemmas numbered_neq' [simp] = numbered_neq(1,2) [symmetric]

text \<open>The text of archive number \<open>k\<close>, compressed or not; it is never there in both forms.\<close>

definition archived :: "bool \<Rightarrow> (string \<Rightarrow> string) \<Rightarrow> string \<Rightarrow> files \<Rightarrow> nat \<Rightarrow> string option" where
  "archived c ungz p fs k =
     (case map_of fs (numbered p k) of
        Some f \<Rightarrow> Some (lf_text f)
      | None \<Rightarrow> if c then map_option (ungz \<circ> lf_text) (map_of fs (gz_path (numbered p k))) else None)"

definition one_form :: "bool \<Rightarrow> string \<Rightarrow> files \<Rightarrow> bool" where
  "one_form c p fs \<longleftrightarrow>
     (c \<longrightarrow> (\<forall>k. map_of fs (numbered p k) = None \<or> map_of fs (gz_path (numbered p k)) = None))"

definition jobs_ok :: "bool \<Rightarrow> string \<Rightarrow> arch_state \<Rightarrow> bool" where
  "jobs_ok c p a \<longleftrightarrow> (\<forall>q\<in>set (as_jobs a). c \<and> (\<exists>k. q = numbered p k))"

text \<open>The paths that do not belong to the log.\<close>

definition foreign :: "string \<Rightarrow> string \<Rightarrow> bool" where
  "foreign p q \<longleftrightarrow> q \<noteq> p \<and> (\<forall>k. q \<noteq> numbered p k \<and> q \<noteq> gz_path (numbered p k))"

lemma Archive_exists_archived: "Archive_exists c (numbered p k) fs \<longleftrightarrow> archived c ungz p fs k \<noteq> None"
  by (auto simp: Archive_exists_def File_exists_def archived_def split: option.split)

lemma archived_map:
  assumes "map_of fs' (numbered p k) = map_of fs (numbered p k)"
    "map_of fs' (gz_path (numbered p k)) = map_of fs (gz_path (numbered p k))"
  shows "archived c ungz p fs' k = archived c ungz p fs k"
  unfolding archived_def assms by (rule refl)

text \<open>What a move from a path \<open>old\<close> that holds \<open>t\<close> to number \<open>n\<close>, which is free, leaves.\<close>

definition moved_to :: "bool \<Rightarrow> (string \<Rightarrow> string) \<Rightarrow> string \<Rightarrow> nat \<Rightarrow> string \<Rightarrow> arch_state \<Rightarrow> arch_state \<Rightarrow> bool" where
  "moved_to c ungz p n t a a' \<longleftrightarrow>
     archived c ungz p (as_files a') n = Some t \<and> one_form c p (as_files a') \<and> jobs_ok c p a' \<and>
     (\<forall>q. foreign p q \<longrightarrow> map_of (as_files a') q = map_of (as_files a) q)"

lemma move_base:
  assumes f: "map_of (as_files a) p = Some f" and free: "archived c ungz p (as_files a) 0 = None"
    and ok: "one_form c p (as_files a)" "jobs_ok c p a"
  shows "\<exists>a'. moveFile c p (numbered p 0) a = Some a' \<and> moved_to c ungz p 0 (lf_text f) a a' \<and>
    map_of (as_files a') p = None \<and> (\<forall>k. k \<noteq> 0 \<longrightarrow> archived c ungz p (as_files a') k = archived c ungz p (as_files a) k)"
proof -
  let ?fs = "as_files a" and ?n = "numbered p 0"
  from renameTo_map [OF f, of ?n] obtain fs' where
    r: "renameTo p ?n ?fs = Some fs'" "map_of fs' = (map_of ?fs)(p := None, ?n \<mapsto> f)" by blast
  define a' where "a' = (if c then a\<lparr>as_files := fs', as_jobs := as_jobs a @ [?n]\<rparr> else a\<lparr>as_files := fs'\<rparr>)"
  have m: "moveFile c p ?n a = Some a'"
    using f r(1) by (simp add: moveFile_def File_exists_def a'_def)
  have fs': "as_files a' = fs'" by (simp add: a'_def)
  have gz: "c \<longrightarrow> map_of ?fs (gz_path ?n) = None"
    using free by (auto simp: archived_def split: option.splits)
  have "one_form c p fs'"
    using ok(1) gz numbered_inj [of p] by (auto simp: one_form_def r(2))
  moreover have "jobs_ok c p a'" using ok(2) by (auto simp: jobs_ok_def a'_def)
  moreover have "archived c ungz p fs' k = archived c ungz p ?fs k" if "k \<noteq> 0" for k
    using that numbered_inj [of p k 0] by (intro archived_map) (simp_all add: r(2))
  moreover have "archived c ungz p fs' 0 = Some (lf_text f)" by (simp add: archived_def r(2))
  moreover have "map_of fs' q = map_of ?fs q" if "foreign p q" for q
    using that by (auto simp: foreign_def r(2))
  moreover have "map_of fs' p = None" by (simp add: r(2))
  ultimately show ?thesis
    using m by (auto simp: moved_to_def fs')
qed

lemma move_archive:
  assumes t: "archived c ungz p (as_files a) n = Some t" and free: "archived c ungz p (as_files a) (Suc n) = None"
    and ok: "one_form c p (as_files a)" "jobs_ok c p a"
  shows "\<exists>a'. moveFile c (numbered p n) (numbered p (Suc n)) a = Some a' \<and> moved_to c ungz p (Suc n) t a a' \<and>
    map_of (as_files a') p = map_of (as_files a) p \<and> archived c ungz p (as_files a') n = None \<and>
    (\<forall>k. k \<noteq> n \<and> k \<noteq> Suc n \<longrightarrow> archived c ungz p (as_files a') k = archived c ungz p (as_files a) k)"
proof -
  let ?fs = "as_files a" and ?o = "numbered p n" and ?n = "numbered p (Suc n)"
  note inj = numbered_inj [of p]
  have new: "map_of ?fs ?n = None" "c \<longrightarrow> map_of ?fs (gz_path ?n) = None"
    using free by (auto simp: archived_def split: option.splits)
  show ?thesis
  proof (cases "map_of ?fs ?o")
    case (Some f)
    with t have t': "t = lf_text f" by (simp add: archived_def)
    have gz: "c \<longrightarrow> map_of ?fs (gz_path ?o) = None" using ok(1) Some unfolding one_form_def by (metis option.distinct(1))
    from renameTo_map [OF Some, of ?n] obtain fs' where
      r: "renameTo ?o ?n ?fs = Some fs'" "map_of fs' = (map_of ?fs)(?o := None, ?n \<mapsto> f)" by blast
    define a' where "a' = (if c then a\<lparr>as_files := fs', as_jobs := as_jobs a @ [?n]\<rparr> else a\<lparr>as_files := fs'\<rparr>)"
    have m: "moveFile c ?o ?n a = Some a'" using Some r(1) by (simp add: moveFile_def File_exists_def a'_def)
    have fs': "as_files a' = fs'" by (simp add: a'_def)
    have "one_form c p fs'" using ok(1) new(2) inj by (auto simp: one_form_def r(2))
    moreover have "jobs_ok c p a'" using ok(2) by (auto simp: jobs_ok_def a'_def)
    moreover have "archived c ungz p fs' k = archived c ungz p ?fs k" if "k \<noteq> n" "k \<noteq> Suc n" for k
      using that inj by (intro archived_map) (simp_all add: r(2))
    moreover have "archived c ungz p fs' (Suc n) = Some t" "archived c ungz p fs' n = None"
      using gz inj by (simp_all add: archived_def r(2) t')
    moreover have "map_of fs' q = map_of ?fs q" if "foreign p q" for q using that by (auto simp: foreign_def r(2))
    moreover have "map_of fs' p = map_of ?fs p" by (simp add: r(2))
    ultimately show ?thesis using m by (auto simp: moved_to_def fs')
  next
    case None
    with t obtain f where c: c and f: "map_of ?fs (gz_path ?o) = Some f" "t = ungz (lf_text f)"
      by (auto simp: archived_def split: if_splits)
    from renameTo_map [OF f(1), of "gz_path ?n"] obtain fs' where
      r: "renameTo (gz_path ?o) (gz_path ?n) ?fs = Some fs'"
        "map_of fs' = (map_of ?fs)(gz_path ?o := None, gz_path ?n \<mapsto> f)" by blast
    let ?a = "a\<lparr>as_files := fs'\<rparr>"
    have m: "moveFile c ?o ?n a = Some ?a" using None c r(1) by (simp add: moveFile_def File_exists_def)
    have "one_form c p fs'" using ok(1) new(1) inj by (auto simp: one_form_def r(2))
    moreover have "jobs_ok c p ?a" using ok(2) by (auto simp: jobs_ok_def)
    moreover have "archived c ungz p fs' k = archived c ungz p ?fs k" if "k \<noteq> n" "k \<noteq> Suc n" for k
      using that inj by (intro archived_map) (simp_all add: r(2))
    moreover have "archived c ungz p fs' (Suc n) = Some t" "archived c ungz p fs' n = None"
      using None new(1) c f(2) inj by (simp_all add: archived_def r(2))
    moreover have "map_of fs' q = map_of ?fs q" if "foreign p q" for q using that by (auto simp: foreign_def r(2))
    moreover have "map_of fs' p = map_of ?fs p" by (simp add: r(2))
    ultimately show ?thesis using m by (auto simp: moved_to_def)
  qed
qed

lemma shift_spec:
  assumes "map_of (as_files a) p = Some f" "archived c ungz p (as_files a) n = None"
    and "\<forall>k<n. archived c ungz p (as_files a) k \<noteq> None" "one_form c p (as_files a)" "jobs_ok c p a"
  shows "\<exists>a'. shift_archives c p n a = (True, a') \<and> moved_to c ungz p 0 (lf_text f) a a' \<and> map_of (as_files a') p = None \<and>
    (\<forall>k<n. archived c ungz p (as_files a') (Suc k) = archived c ungz p (as_files a) k) \<and>
    (\<forall>k>n. archived c ungz p (as_files a') k = archived c ungz p (as_files a) k)"
  using assms
proof (induction n arbitrary: a)
  case 0
  from move_base [OF 0(1,2,4,5)] obtain a' where "moveFile c p (numbered p 0) a = Some a'"
    "moved_to c ungz p 0 (lf_text f) a a'" "map_of (as_files a') p = None"
    "\<forall>k. k \<noteq> 0 \<longrightarrow> archived c ungz p (as_files a') k = archived c ungz p (as_files a) k" by blast
  then show ?case by simp
next
  case (Suc n)
  let ?A = "\<lambda>a. archived c ungz p (as_files a)"
  from Suc.prems(3) obtain t where t: "?A a n = Some t" by blast
  from move_archive [OF t Suc.prems(2,4,5)] obtain a1 where
    a1: "moveFile c (numbered p n) (numbered p (Suc n)) a = Some a1" "moved_to c ungz p (Suc n) t a a1"
      "map_of (as_files a1) p = map_of (as_files a) p" "?A a1 n = None"
      "\<forall>k. k \<noteq> n \<and> k \<noteq> Suc n \<longrightarrow> ?A a1 k = ?A a k" by blast
  have "\<forall>k<n. ?A a1 k \<noteq> None" using Suc.prems(3) a1(5) by simp
  then obtain a' where
    a': "shift_archives c p n a1 = (True, a')" "moved_to c ungz p 0 (lf_text f) a1 a'" "map_of (as_files a') p = None"
      "\<forall>k<n. ?A a' (Suc k) = ?A a1 k" "\<forall>k>n. ?A a' k = ?A a1 k"
    using Suc.IH [of a1] Suc.prems(1) a1(2-4) unfolding moved_to_def by metis
  have "?A a' (Suc k) = ?A a k" if "k < Suc n" for k
    using that a'(4,5) a1(2,5) t by (cases "k = n") (auto simp: moved_to_def)
  moreover have "?A a' k = ?A a k" if "k > Suc n" for k using that a'(5) a1(5) by simp
  moreover have "moved_to c ungz p 0 (lf_text f) a a'" using a'(2) a1(2) by (simp add: moved_to_def)
  ultimately show ?case using a1(1) a'(1,3) by simp
qed

lemma first_free_spec:
  "\<not> Archive_exists c (numbered p (first_free c p fs n)) fs \<and> n \<le> first_free c p fs n \<and>
   (\<forall>k. n \<le> k \<and> k < first_free c p fs n \<longrightarrow> Archive_exists c (numbered p k) fs)"
proof (induction c p fs n rule: first_free.induct)
  case (1 c p fs n)
  show ?case
  proof (cases "Archive_exists c (numbered p n) fs")
    case True
    then have eq: "first_free c p fs n = first_free c p fs (Suc n)" by (simp add: first_free.simps [of c p fs n])
    have "Archive_exists c (numbered p k) fs" if "n \<le> k" "k < first_free c p fs (Suc n)" for k
      using that True 1 [OF True] by (cases "k = n") auto
    with 1 [OF True] show ?thesis unfolding eq by auto
  qed (auto simp: first_free.simps [of c p fs n])
qed

text \<open>
  The archives, the newest first, whatever numbers are missing; and all that was ever written:
  the archives from the oldest on, and the current file.
\<close>

definition archives :: "bool \<Rightarrow> (string \<Rightarrow> string) \<Rightarrow> string \<Rightarrow> files \<Rightarrow> string list" where
  "archives c ungz p fs =
     map (the \<circ> archived c ungz p fs) (sorted_list_of_set {k. archived c ungz p fs k \<noteq> None})"

definition current :: "string \<Rightarrow> files \<Rightarrow> string" where
  "current p fs = (case map_of fs p of None \<Rightarrow> [] | Some f \<Rightarrow> lf_text f)"

definition whole_log :: "bool \<Rightarrow> (string \<Rightarrow> string) \<Rightarrow> string \<Rightarrow> files \<Rightarrow> string" where
  "whole_log c ungz p fs = concat (rev (archives c ungz p fs)) @ current p fs"

definition log_ok :: "bool \<Rightarrow> string \<Rightarrow> arch_state \<Rightarrow> bool" where
  "log_ok c p a \<longleftrightarrow> one_form c p (as_files a) \<and> jobs_ok c p a"

lemma archived_finite: "finite {k. archived c ungz p fs k \<noteq> None}"
  using Archive_exists_finite [of c p fs] by (simp only: Archive_exists_archived [of c p _ fs ungz])

lemma sorted_list_eq: "sorted xs \<Longrightarrow> distinct xs \<Longrightarrow> set xs = A \<Longrightarrow> sorted_list_of_set A = xs"
  by (metis sorted_list_of_set_sort_remdups distinct_remdups_id sorted_sort_id)

lemma sorted_list_initial:
  assumes "finite A" "{..<n} \<subseteq> A" "n \<notin> A"
  shows "sorted_list_of_set A = [0..<n] @ sorted_list_of_set (A \<inter> {n<..})"
proof -
  have "sorted ([0..<n] @ sorted_list_of_set (A \<inter> {n<..}))" "distinct ([0..<n] @ sorted_list_of_set (A \<inter> {n<..}))"
    using assms(1) by (auto simp: sorted_append)
  moreover have "set ([0..<n] @ sorted_list_of_set (A \<inter> {n<..})) = A"
    using assms by (auto simp: nat_neq_iff)
  ultimately show ?thesis by (rule sorted_list_eq)
qed

lemma archives_shift:
  assumes "\<forall>k<n. archived c ungz p fs k \<noteq> None" "archived c ungz p fs n = None"
    and "archived c ungz p fs' 0 = Some t" "\<forall>k<n. archived c ungz p fs' (Suc k) = archived c ungz p fs k"
    and "\<forall>k>n. archived c ungz p fs' k = archived c ungz p fs k"
  shows "archives c ungz p fs' = t # archives c ungz p fs"
proof -
  let ?A = "{k. archived c ungz p fs k \<noteq> None}" and ?B = "{k. archived c ungz p fs' k \<noteq> None}"
  let ?L = "sorted_list_of_set (?A \<inter> {n<..})"
  have fin: "finite ?A" "finite ?B" by (rule archived_finite)+
  have A: "sorted_list_of_set ?A = [0..<n] @ ?L"
    using assms(1,2) fin(1) by (intro sorted_list_initial) auto
  have B: "?B = insert 0 (Suc ` {..<n}) \<union> (?A \<inter> {n<..})"
  proof (rule set_eqI)
    fix k
    show "k \<in> ?B \<longleftrightarrow> k \<in> insert 0 (Suc ` {..<n}) \<union> (?A \<inter> {n<..})"
      using assms by (cases k; cases "k \<le> n") (auto simp: Suc_le_eq)
  qed
  have "sorted (0 # map Suc [0..<n] @ ?L)" "distinct (0 # map Suc [0..<n] @ ?L)"
    using fin(1) by (auto simp: sorted_append sorted_map distinct_map atLeast0LessThan)
  moreover have "set (0 # map Suc [0..<n] @ ?L) = ?B"
    unfolding B using fin(1) by (simp add: atLeast0LessThan)
  ultimately have "sorted_list_of_set ?B = 0 # map Suc [0..<n] @ ?L" by (rule sorted_list_eq)
  then show ?thesis
    using assms(3-5) fin(1) unfolding archives_def A by (simp cong: map_cong) 
qed

lemma archives_cong:
  "(\<And>k. archived c ungz p fs' k = archived c ungz p fs k) \<Longrightarrow> archives c ungz p fs' = archives c ungz p fs"
  by (simp add: archives_def)

lemma archiveByNumber_spec:
  assumes f: "map_of (as_files a) p = Some f" and ok: "log_ok c p a"
  shows "\<exists>a'. archiveByNumber c p a = (True, a') \<and> log_ok c p a' \<and> map_of (as_files a') p = None \<and>
    archives c ungz p (as_files a') = lf_text f # archives c ungz p (as_files a) \<and>
    (\<forall>q. foreign p q \<longrightarrow> map_of (as_files a') q = map_of (as_files a) q)"
proof -
  let ?n = "first_free c p (as_files a) 0"
  have free: "archived c ungz p (as_files a) ?n = None" "\<forall>k<?n. archived c ungz p (as_files a) k \<noteq> None"
    using first_free_spec [of c p "as_files a" 0] by (simp_all add: Archive_exists_archived [of c p _ "as_files a" ungz])
  from shift_spec [OF f free] ok obtain a' where
    a': "shift_archives c p ?n a = (True, a')" "moved_to c ungz p 0 (lf_text f) a a'" "map_of (as_files a') p = None"
      "\<forall>k<?n. archived c ungz p (as_files a') (Suc k) = archived c ungz p (as_files a) k"
      "\<forall>k>?n. archived c ungz p (as_files a') k = archived c ungz p (as_files a) k" unfolding log_ok_def by blast
  from archives_shift [OF free(2,1) _ a'(4,5)] a'(1-3) show ?thesis
    by (auto simp: archiveByNumber_def moved_to_def log_ok_def)
qed

section \<open>The channel keeps the log\<close>

text \<open>An open channel has its file.\<close>

definition channel_ok :: "file_channel \<Rightarrow> channel_state \<Rightarrow> bool" where
  "channel_ok fc st \<longleftrightarrow> log_ok (fc_compress fc) (fc_path fc) (ch_arch st) \<and>
     (ch_open st \<longrightarrow> map_of (ch_files st) (fc_path fc) \<noteq> None)"

lemma log_ok_current:
  assumes "\<And>q. q \<noteq> p \<Longrightarrow> map_of fs q = map_of (as_files a) q" "log_ok c p a"
  shows "log_ok c p (a\<lparr>as_files := fs\<rparr>)" "archives c ungz p fs = archives c ungz p (as_files a)"
  using assms by (auto simp: log_ok_def one_form_def jobs_ok_def intro!: archives_cong archived_map)

lemma LogFile_open_map:
  "map_of (LogFile_open now p fs) p \<noteq> None" "current p (LogFile_open now p fs) = current p fs"
  "q \<noteq> p \<Longrightarrow> map_of (LogFile_open now p fs) q = map_of fs q"
  by (auto simp: LogFile_open_def File_exists_def current_def)

lemma LogFile_write_map:
  assumes "map_of fs p \<noteq> None"
  shows "map_of (LogFile_write now p msg fs) p \<noteq> None"
    "current p (LogFile_write now p msg fs) = current p fs @ msg @ [CHR 0x0A]"
    "q \<noteq> p \<Longrightarrow> map_of (LogFile_write now p msg fs) q = map_of fs q"
  using assms by (auto simp: LogFile_write_def current_def)

lemma size_current: "LogFile_size p fs = length (current p fs)"
  by (simp add: LogFile_size_def current_def split: option.split)

lemma rotate_keeps:
  assumes fc: "fc_archiveStrategy fc = ArchiveByNumber" "fc_purgeStrategy fc = None"
    and ok: "channel_ok fc st" and f: "map_of (ch_files st) (fc_path fc) \<noteq> None"
  shows "channel_ok fc (rotate_files stamp now fc st)"
    "archives (fc_compress fc) ungz (fc_path fc) (ch_files (rotate_files stamp now fc st)) =
      current (fc_path fc) (ch_files st) # archives (fc_compress fc) ungz (fc_path fc) (ch_files st)"
    "current (fc_path fc) (ch_files (rotate_files stamp now fc st)) = []"
    "map_of (ch_files (rotate_files stamp now fc st)) (fc_path fc) \<noteq> None"
proof -
  let ?c = "fc_compress fc" and ?p = "fc_path fc"
  obtain f' where f': "map_of (ch_files st) ?p = Some f'" using f by blast
  have "log_ok ?c ?p (ch_arch st)" using ok by (simp add: channel_ok_def)
  from archiveByNumber_spec [OF f' this] obtain a where
    a: "archiveByNumber ?c ?p (ch_arch st) = (True, a)" "log_ok ?c ?p a" "map_of (as_files a) ?p = None"
      "archives ?c ungz ?p (as_files a) = lf_text f' # archives ?c ungz ?p (ch_files st)" by blast
  let ?fs = "LogFile_open now ?p (as_files a)"
  have r: "rotate_files stamp now fc st = st\<lparr>ch_arch := a\<lparr>as_files := ?fs\<rparr>\<rparr>"
    using a(1) fc by (simp add: rotate_files_def archive_file_def FileChannel_purge_def)
  note k = log_ok_current [OF LogFile_open_map(3) a(2)]
  show "channel_ok fc (rotate_files stamp now fc st)"
    using k(1) LogFile_open_map(1) by (simp add: channel_ok_def r)
  show "archives ?c ungz ?p (ch_files (rotate_files stamp now fc st)) =
      current ?p (ch_files st) # archives ?c ungz ?p (ch_files st)"
    using k(2) a(4) f' by (simp add: r current_def)
  show "current ?p (ch_files (rotate_files stamp now fc st)) = []"
    using LogFile_open_map(2) [of ?p now "as_files a"] a(3) by (simp add: r current_def)
  show "map_of (ch_files (rotate_files stamp now fc st)) ?p \<noteq> None" using LogFile_open_map(1) by (simp add: r)
qed

lemma rotate_whole:
  assumes "fc_archiveStrategy fc = ArchiveByNumber" "fc_purgeStrategy fc = None"
    and "channel_ok fc st" "map_of (ch_files st) (fc_path fc) \<noteq> None"
  shows "whole_log (fc_compress fc) ungz (fc_path fc) (ch_files (rotate_files stamp now fc st)) =
    whole_log (fc_compress fc) ungz (fc_path fc) (ch_files st)"
  using rotate_keeps [OF assms] by (simp add: whole_log_def)

lemma ch_files_set [simp]: "ch_files (set_files fs st) = fs" "ch_open (set_files fs st) = ch_open st"
  by (simp_all add: set_files_def)

lemma rotate_open [simp]: "ch_open (rotate_files stamp now fc st) = ch_open st"
  by (simp add: rotate_files_def Let_def split: prod.split)

lemma open_keeps:
  assumes fc: "fc_archiveStrategy fc = ArchiveByNumber" "fc_purgeStrategy fc = None" and ok: "channel_ok fc st"
  shows "channel_ok fc (FileChannel_open stamp now fc st) \<and> ch_open (FileChannel_open stamp now fc st) \<and>
    whole_log (fc_compress fc) ungz (fc_path fc) (ch_files (FileChannel_open stamp now fc st)) =
      whole_log (fc_compress fc) ungz (fc_path fc) (ch_files st)"
proof (cases "ch_open st")
  case False
  let ?c = "fc_compress fc" and ?p = "fc_path fc"
  let ?st = "(set_files (LogFile_open now ?p (ch_files st)) st)\<lparr>ch_open := True\<rparr>"
  have lo: "log_ok ?c ?p (ch_arch st)" using ok by (simp add: channel_ok_def)
  have k: "log_ok ?c ?p ((ch_arch st)\<lparr>as_files := LogFile_open now ?p (ch_files st)\<rparr>)"
    "archives ?c ungz ?p (LogFile_open now ?p (ch_files st)) = archives ?c ungz ?p (ch_files st)"
    by (rule log_ok_current [OF _ lo], simp add: LogFile_open_map(3))+
  have st: "channel_ok fc ?st" "map_of (ch_files ?st) ?p \<noteq> None"
    "whole_log ?c ungz ?p (ch_files ?st) = whole_log ?c ungz ?p (ch_files st)"
    using k LogFile_open_map(1,2) by (simp_all add: channel_ok_def set_files_def whole_log_def)
  from rotate_keeps(1) [OF fc st(1,2), of stamp now] rotate_whole [OF fc st(1,2), of ungz stamp now] st(1,3) False show ?thesis
    by (simp add: FileChannel_open_def Let_def)
qed (use ok in \<open>simp add: FileChannel_open_def\<close>)

lemma write_keeps:
  assumes "channel_ok fc st" "ch_open st"
  shows "channel_ok fc (set_files (LogFile_write now (fc_path fc) msg (ch_files st)) st) \<and>
    whole_log (fc_compress fc) ungz (fc_path fc) (LogFile_write now (fc_path fc) msg (ch_files st)) =
      whole_log (fc_compress fc) ungz (fc_path fc) (ch_files st) @ msg @ [CHR 0x0A]"
proof -
  let ?p = "fc_path fc"
  have lo: "log_ok (fc_compress fc) ?p (ch_arch st)" and f: "map_of (ch_files st) ?p \<noteq> None"
    using assms by (simp_all add: channel_ok_def)
  note w = LogFile_write_map [OF f, where now = now and msg = msg]
  note k = log_ok_current [OF w(3) lo]
  show ?thesis
    using k(1) k(2) [of ungz] w(1,2) by (simp add: channel_ok_def set_files_def whole_log_def)
qed

text \<open>The strategies whose log holds the messages only.\<close>

fun plain_rotation :: "rotator option \<Rightarrow> bool" where
  "plain_rotation None \<longleftrightarrow> True"
| "plain_rotation (Some (BySize sz)) \<longleftrightarrow> 0 < sz"
| "plain_rotation _ \<longleftrightarrow> False"

lemma log_keeps:
  assumes fc: "fc_archiveStrategy fc = ArchiveByNumber" "fc_purgeStrategy fc = None" and r: "plain_rotation rot"
    and ok: "channel_ok fc st"
  shows "\<exists>st'. FileChannel_log stamp env now fc rot msg st = (True, st') \<and> channel_ok fc st' \<and>
    whole_log (fc_compress fc) ungz (fc_path fc) (ch_files st') =
      whole_log (fc_compress fc) ungz (fc_path fc) (ch_files st) @ msg @ [CHR 0x0A] \<and>
    (\<forall>sz. rot = Some (BySize sz) \<longrightarrow> LogFile_size (fc_path fc) (ch_files st') \<le> sz + length msg)"
proof -
  let ?c = "fc_compress fc" and ?p = "fc_path fc" and ?st = "FileChannel_open stamp now fc st"
  let ?put = "\<lambda>st. set_files (LogFile_write now ?p msg (ch_files st)) st"
  note o = open_keeps [OF fc ok, of stamp now ungz]
  have f: "map_of (ch_files ?st) ?p \<noteq> None" using o by (simp add: channel_ok_def)
  show ?thesis
  proof (cases rot)
    case None
    with write_keeps [of fc ?st now msg ungz] o show ?thesis by (simp add: FileChannel_log_def Let_def)
  next
    case (Some r')
    with r obtain sz where rot: "rot = Some (BySize sz)" and sz: "0 < sz" by (cases r') auto
    have last: "(set_files (ch_files x) x)\<lparr>ch_last := ch_last x\<rparr> = x" for x by (simp add: set_files_def)
    show ?thesis
    proof (cases "LogFile_size ?p (ch_files ?st) \<ge> sz")
      case False
      then have "FileChannel_log stamp env now fc rot msg st = (True, ?put ?st)"
        by (simp add: FileChannel_log_def Let_def rot mustRotate_def last)
      with write_keeps [of fc ?st now msg ungz] o LogFile_write_map(2) [OF f, of now msg] False rot show ?thesis
        by (simp add: size_current)
    next
      case True
      let ?r = "rotate_files stamp now fc ?st"
      have ro: "channel_ok fc ?r" "ch_open ?r" "map_of (ch_files ?r) ?p \<noteq> None" "current ?p (ch_files ?r) = []"
        "whole_log ?c ungz ?p (ch_files ?r) = whole_log ?c ungz ?p (ch_files st)"
        using rotate_keeps(1,3,4) [OF fc _ f] rotate_whole [OF fc _ f] o by simp_all
      have "FileChannel_log stamp env now fc rot msg st = (True, ?put ?r)"
        using True by (simp add: FileChannel_log_def Let_def rot mustRotate_def last)
      with write_keeps [OF ro(1,2), of now msg ungz] LogFile_write_map(2) [OF ro(3), of now msg] ro(4,5) rot sz show ?thesis
        by (simp add: size_current)
    qed
  qed
qed

lemma job_keeps:
  assumes gz: "\<forall>x. ungz (gzip x) = x" and ok: "channel_ok fc st"
  shows "channel_ok fc (run_job gzip now st) \<and>
    whole_log (fc_compress fc) ungz (fc_path fc) (ch_files (run_job gzip now st)) =
      whole_log (fc_compress fc) ungz (fc_path fc) (ch_files st)"
proof (cases "as_jobs (ch_arch st)")
  case Nil
  with ok show ?thesis by (simp add: run_job_def)
next
  case (Cons q jobs)
  let ?p = "fc_path fc" and ?fs = "ch_files st"
  from ok Cons obtain n where c: "fc_compress fc" and q: "q = numbered ?p n"
    by (auto simp: channel_ok_def log_ok_def jobs_ok_def)
  have one: "map_of ?fs (numbered ?p k) = None \<or> map_of ?fs (gz_path (numbered ?p k)) = None" for k
    using ok c by (simp add: channel_ok_def log_ok_def one_form_def)
  have jobs: "jobs_ok True ?p ((ch_arch st)\<lparr>as_files := fs, as_jobs := jobs\<rparr>)" for fs
    using ok c Cons by (simp add: channel_ok_def log_ok_def jobs_ok_def)
  show ?thesis
  proof (cases "map_of ?fs q")
    case None
    with ok c Cons jobs [of ?fs] show ?thesis
      by (simp add: run_job_def compressImpl_def channel_ok_def log_ok_def)
  next
    case (Some f)
    let ?g = "\<lparr>lf_text = gzip (lf_text f), lf_modified = now, lf_created = now\<rparr>"
    let ?fs' = "compressImpl gzip now q ?fs"
    have m: "map_of ?fs' = (map_of ?fs)(gz_path q \<mapsto> ?g, q := None)"
      using Some by (simp add: compressImpl_def)
    have arch: "archived True ungz ?p ?fs' k = archived True ungz ?p ?fs k" for k
    proof (cases "k = n")
      case True
      then show ?thesis using Some gz by (simp add: archived_def m [unfolded q] q)
    next
      case False
      then show ?thesis by (intro archived_map) (simp_all add: m [unfolded q] q numbered_inj)
    qed
    have "one_form True ?p ?fs'" using one numbered_inj [of ?p] by (auto simp: one_form_def m [unfolded q] q)
    moreover have "map_of ?fs' ?p = map_of ?fs ?p" by (simp add: m [unfolded q] q)
    ultimately show ?thesis
      using ok c jobs [of ?fs'] archives_cong [of True ungz ?p ?fs' ?fs, OF arch] Cons
      by (simp add: run_job_def channel_ok_def log_ok_def whole_log_def current_def)
  qed
qed

text \<open>Messages logged and jobs of the compressor, in any order.\<close>

datatype log_event = LogMessage int string | CompressorRuns int

fun run_event :: "(bool \<Rightarrow> int \<Rightarrow> string) \<Rightarrow> rot_env \<Rightarrow> (string \<Rightarrow> string) \<Rightarrow> file_channel \<Rightarrow> rotator option \<Rightarrow>
    channel_state \<Rightarrow> log_event \<Rightarrow> channel_state" where
  "run_event stamp env gzip fc rot st (LogMessage now msg) = snd (FileChannel_log stamp env now fc rot msg st)"
| "run_event stamp env gzip fc rot st (CompressorRuns now) = run_job gzip now st"

fun event_text :: "log_event \<Rightarrow> string" where
  "event_text (LogMessage now msg) = msg @ [CHR 0x0A]"
| "event_text (CompressorRuns now) = []"

section \<open>Purging keeps the newest\<close>

lemma oldest_min: "\<forall>y\<in>set (x # files). lf_modified (snd (oldest x files)) \<le> lf_modified (snd y)"
proof (induction x files rule: oldest.induct)
  case (2 x it files)
  let ?z = "if lf_modified (snd it) \<le> lf_modified (snd x) then it else x"
  have "lf_modified (snd ?z) \<le> lf_modified (snd x)" "lf_modified (snd ?z) \<le> lf_modified (snd it)" by simp_all
  moreover have "lf_modified (snd (oldest ?z files)) \<le> lf_modified (snd ?z)" using 2 by (simp del: oldest.simps)
  moreover have "\<forall>y\<in>set files. lf_modified (snd (oldest ?z files)) \<le> lf_modified (snd y)"
    using 2 by (simp del: oldest.simps)
  moreover have "oldest x (it # files) = oldest ?z files" by simp
  ultimately show ?case by (auto simp del: oldest.simps)
qed simp

lemma remove1_by_name: "distinct (map fst xs) \<Longrightarrow> x \<in> set xs \<Longrightarrow> remove1 x xs = filter (\<lambda>y. fst y \<noteq> fst x) xs"
proof (induction xs)
  case (Cons a xs)
  show ?case
  proof (cases "a = x")
    case True
    with Cons.prems have "\<forall>y\<in>set xs. fst y \<noteq> fst x" by (metis distinct.simps(2) image_eqI list.simps(9) set_map)
    with True show ?thesis by (simp add: filter_id_conv)
  next
    case False
    with Cons.prems have "x \<in> set xs" by simp
    then have "fst a \<noteq> fst x" using Cons.prems(1) by (metis distinct.simps(2) image_eqI list.simps(9) set_map)
    with False Cons show ?thesis by simp
  qed
qed simp

lemma purge_list_remove: "purge_list p (File_remove q fs) = filter (\<lambda>x. fst x \<noteq> q) (purge_list p fs)"
  by (simp add: purge_list_def File_remove_def AList.delete_eq case_prod_beta conj_commute eq_commute)

lemma File_remove_distinct: "distinct (map fst fs) \<Longrightarrow> distinct (map fst (File_remove q fs))"
  by (simp add: File_remove_def distinct_delete)

text \<open>What is purged is among the listed files; those kept are as many as asked for and the newest.\<close>

definition purged_to :: "nat \<Rightarrow> files \<Rightarrow> files \<Rightarrow> bool" where
  "purged_to count files kept \<longleftrightarrow> set kept \<subseteq> set files \<and> length kept = min count (length files) \<and>
     (\<forall>x\<in>set files - set kept. \<forall>y\<in>set kept. lf_modified (snd x) \<le> lf_modified (snd y))"

lemma purgeByCount_loop_spec:
  assumes "distinct (map fst fs)" "files = purge_list p fs"
  shows "purged_to count files (purge_list p (purgeByCount_loop count files fs)) \<and>
    (\<forall>q. q \<notin> fst ` set files \<longrightarrow> map_of (purgeByCount_loop count files fs) q = map_of fs q)"
  using assms
proof (induction count files fs rule: purgeByCount_loop.induct)
  case (1 count fs)
  then show ?case by (simp add: purged_to_def)
next
  case (2 count x files fs)
  let ?all = "x # files" and ?o = "oldest x files"
  show ?case
  proof (cases "length ?all > count")
    case False
    then have "purgeByCount_loop count ?all fs = fs" by simp
    with 2(3) [symmetric] False show ?thesis by (simp add: purged_to_def del: purgeByCount_loop.simps)
  next
    case True
    have mem: "?o \<in> set ?all" by (rule oldest_mem)
    have dist: "distinct (map fst ?all)"
      using 2(2) unfolding 2(3) purge_list_def by (simp add: distinct_map_filter)
    let ?fs = "File_remove (fst ?o) fs" and ?rest = "remove1 ?o ?all"
    let ?kept = "purge_list p (purgeByCount_loop count ?rest ?fs)"
    have rest: "?rest = purge_list p ?fs"
      unfolding remove1_by_name [OF dist mem] purge_list_remove 2(3) [symmetric] by simp
    from 2(1) [OF True refl File_remove_distinct [OF 2(2)] rest] have
      ih: "purged_to count ?rest ?kept" "\<forall>q. q \<notin> fst ` set ?rest \<longrightarrow> map_of (purgeByCount_loop count ?rest ?fs) q = map_of ?fs q"
      by simp_all
    have sub: "set ?rest \<subseteq> set ?all" "length ?rest = length ?all - 1" "set ?all \<subseteq> insert ?o (set ?rest)"
      using mem by (simp_all add: set_remove1_subset length_remove1 del: set_simps remove1.simps list.size)
        (metis in_set_remove1 insert_iff subsetI)
    have "purged_to count ?all ?kept"
      unfolding purged_to_def
    proof (intro conjI ballI)
      show "set ?kept \<subseteq> set ?all" using ih(1) sub(1) by (auto simp: purged_to_def)
      show "length ?kept = min count (length ?all)" using ih(1) sub(2) True by (auto simp: purged_to_def)
      fix y z assume y: "y \<in> set ?all - set ?kept" and z: "z \<in> set ?kept"
      have "z \<in> set ?rest" using z ih(1) by (auto simp: purged_to_def)
      show "lf_modified (snd y) \<le> lf_modified (snd z)"
      proof (cases "y = ?o")
        case True
        with oldest_min \<open>z \<in> set ?rest\<close> sub(1) show ?thesis by blast
      next
        case False
        with y sub(3) z ih(1) show ?thesis by (auto simp: purged_to_def)
      qed
    qed
    moreover have "map_of (purgeByCount_loop count ?rest ?fs) q = map_of fs q" if "q \<notin> fst ` set ?all" for q
    proof -
      have "q \<notin> fst ` set ?rest" using that sub(1) by blast
      moreover have "q \<noteq> fst ?o" using that mem by blast
      ultimately show ?thesis using ih(2) by simp
    qed
    ultimately show ?thesis using True by (simp add: Let_def del: remove1.simps)
  qed
qed

text \<open>Purging by age removes the listed files that are old enough, whatever the order.\<close>

lemma purge_age_fold:
  "map_of (foldl (\<lambda>fs (p, f). if now - lf_modified f \<ge> age then File_remove p fs else fs) fs files) q =
    (if \<exists>f. (q, f) \<in> set files \<and> now - lf_modified f \<ge> age then None else map_of fs q)"
proof (induction files arbitrary: fs)
  case (Cons x files)
  obtain p f where x: "x = (p, f)" by (cases x)
  show ?case
    using Cons [of "if now - lf_modified f \<ge> age then File_remove p fs else fs"] by (auto simp: x)
qed simp

lemma purge_list_mem:
  assumes "distinct (map fst fs)"
  shows "(q, f) \<in> set (purge_list p fs) \<longleftrightarrow> map_of fs q = Some f \<and> q \<in> fst ` set (purge_list p fs)"
  using assms map_of_is_SomeI [OF assms] by (force simp: purge_list_def dest: map_of_SomeD)

section \<open>Properties\<close>


definition example_channel :: file_channel where
  "example_channel = FileChannel_new\<lparr>fc_path := ''a.log'', fc_compress := True\<rparr>"

lemma example_channel_ok:
  "channel_ok example_channel \<lparr>ch_arch = \<lparr>as_files = [], as_jobs = []\<rparr>, ch_open = False, ch_last = 0\<rparr>"
  by (simp add: channel_ok_def log_ok_def one_form_def jobs_ok_def)


text \<open>
  C35: purging removes old archives only.  Only files whose name continues the log's name with a dot
  are touched.  By age, exactly those are removed that were last modified so long ago; by
  count, as many remain as the count allows, and none of those removed is younger than one
  that remains.
\<close>
theorem purge_keeps_newest:
  assumes "distinct (map fst fs)"
  shows "(\<forall>q. map_of (purgeByAge age now p fs) q =
      (case map_of fs q of None \<Rightarrow> None
       | Some f \<Rightarrow> if q \<in> fst ` set (purge_list p fs) \<and> age \<le> now - lf_modified f then None else Some f)) \<and>
    purged_to count (purge_list p fs) (purge_list p (purgeByCount count p fs)) \<and>
    (\<forall>q. q \<notin> fst ` set (purge_list p fs) \<longrightarrow> map_of (purgeByCount count p fs) q = map_of fs q)"
  using purgeByCount_loop_spec [OF assms refl, of count p]
  by (auto simp: purgeByCount_def purgeByAge_def purge_age_fold purge_list_mem [OF assms] split: option.split)

theorem purge_keeps_newest_witness:
  "purged_to 1 (purge_list ''a'' [(''a.0'', \<lparr>lf_text = [], lf_modified = 5, lf_created = 5\<rparr>),
        (''a.1'', \<lparr>lf_text = [], lf_modified = 3, lf_created = 3\<rparr>)])
      (purge_list ''a'' (purgeByCount 1 ''a'' [(''a.0'', \<lparr>lf_text = [], lf_modified = 5, lf_created = 5\<rparr>),
        (''a.1'', \<lparr>lf_text = [], lf_modified = 3, lf_created = 3\<rparr>)]))"
  using purge_keeps_newest [of "[(''a.0'', \<lparr>lf_text = [], lf_modified = 5, lf_created = 5\<rparr>),
        (''a.1'', \<lparr>lf_text = [], lf_modified = 3, lf_created = 3\<rparr>)]" 1 0 "''a''" 1]
  by simp

text \<open>
  Archiving by time stamp does not archive a log for which an archive of the same
  millisecond exists: the older archive is given a number, the log stays where it is, and
  the channel goes on appending to the file it meant to rotate.
\<close>
theorem timestamp_collision_keeps_file:
  assumes "map_of (as_files a) (p @ ''.'' @ stamp local now) \<noteq> None" "log_ok c (p @ ''.'' @ stamp local now) a"
  shows "\<exists>a'. archive_file stamp now (ArchiveByTimestamp local) c p a = (True, a') \<and>
    map_of (as_files a') p = map_of (as_files a) p"
proof -
  let ?q = "p @ ''.'' @ stamp local now"
  obtain f where f: "map_of (as_files a) ?q = Some f" using assms(1) by blast
  have "foreign ?q p" by (auto simp: foreign_def numbered_def gz_path_def)
  moreover have "Archive_exists c ?q (as_files a)" using f by (simp add: Archive_exists_def File_exists_def)
  ultimately show ?thesis
    using archiveByNumber_spec [OF f assms(2), of id] by (auto simp: archive_file_def Let_def)
qed

theorem timestamp_collision_keeps_file_witness:
  "\<exists>a'. archive_file (\<lambda>_ _. ''t'') 7 (ArchiveByTimestamp False) False ''a''
      \<lparr>as_files = [(''a'', \<lparr>lf_text = ''x'', lf_modified = 1, lf_created = 1\<rparr>),
         (''a.t'', \<lparr>lf_text = ''y'', lf_modified = 0, lf_created = 0\<rparr>)], as_jobs = []\<rparr> = (True, a') \<and>
    map_of (as_files a') ''a'' = Some \<lparr>lf_text = ''x'', lf_modified = 1, lf_created = 1\<rparr>"
  using timestamp_collision_keeps_file [of "\<lparr>as_files = [(''a'', \<lparr>lf_text = ''x'', lf_modified = 1, lf_created = 1\<rparr>),
         (''a.t'', \<lparr>lf_text = ''y'', lf_modified = 0, lf_created = 0\<rparr>)], as_jobs = []\<rparr>" "''a''" "\<lambda>_ _. ''t''" False 7 False]
  by (simp add: log_ok_def one_form_def jobs_ok_def)

end
