(* ===== verification/Rollover.thy ===== *)
theory Rollover
  imports PocoDateTime LogRotation
begin

text \<open>
  Rotation of the log at a time of the day or of the week: the constructor of \<open>RotateAtTimeStrategy\<close> of
  \<^verbatim>\<open>RotateStrategy.h\<close> with what it reads its text by (\<^verbatim>\<open>StringTokenizer.cpp\<close>, \<open>parseDayOfWeek\<close> of
  \<^verbatim>\<open>DateTimeParser.cpp\<close>, \<^verbatim>\<open>NumberParser.cpp\<close>), and the calendar of \<open>rot_env\<close>
  as Poco computes it, \<open>calendar\<close>.  The search of \<open>LogRotation\<close> goes on in steps of a minute and a
  millisecond; \<open>reaches_minute\<close> shows that they come to every minute of the week well inside that
  minute, so that the search ends for every time a clock shows, and \<open>rollover_found_match\<close> that it ends for
  no other.
\<close>

section \<open>The clock\<close>

definition Timestamp_utcTime :: "int \<Rightarrow> int" where
  "Timestamp_utcTime ts = ts * 10 + (0x01b21dd2 * 2 ^ 32 + 0x13814000)"

definition calendar :: "(int \<Rightarrow> rat) \<Rightarrow> int \<Rightarrow> date_time" where
  "calendar julian ts =
     (let utc = Timestamp_utcTime ts; dt = DateTime_of julian utc
      in \<lparr>dt_year = nat (pd_year dt), dt_month = nat (pd_month dt), dt_day = nat (pd_day dt), dt_hour = nat (pd_hour dt),
          dt_minute = nat (pd_minute dt), dt_second = nat (pd_second dt), dt_millisecond = nat (pd_millisecond dt),
          dt_microsecond = nat (pd_microsecond dt), dt_dayOfWeek = nat (dayOfWeek (julian utc))\<rparr>)"

text \<open>A Julian day that is off by less than a second: the weekday is right but for the seconds around midnight.\<close>

definition close_julian :: "(int \<Rightarrow> rat) \<Rightarrow> int \<Rightarrow> bool" where
  "close_julian julian utc \<longleftrightarrow> \<bar>julian utc - exact_julian utc\<bar> < 1 / 86400"

lemma close_near: "close_julian julian utc \<Longrightarrow> near_julian julian utc"
  unfolding close_julian_def near_julian_def exact_julian_def by linarith

lemma close_weekday:
  assumes "close_julian julian utc" "10000000 \<le> utc mod 864000000000" "utc mod 864000000000 \<le> 863990000000"
  shows "\<lfloor>julian utc + 3 / 2\<rfloor> = utc div 864000000000 + 2299162"
proof -
  define q s where "q = utc div 864000000000" and "s = utc mod 864000000000"
  have "utc = 864000000000 * q + s" by (simp add: q_def s_def)
  then have "of_int utc = (864000000000 * of_int q + of_int s :: rat)" by simp
  then have "exact_julian utc + 3 / 2 = of_int q + 2299162 + of_int s / 864000000000" by (simp add: exact_julian_def add_divide_distrib)
  moreover have "1 / 86400 \<le> of_int s / (864000000000 :: rat)" "of_int s / (864000000000 :: rat) \<le> 1 - 1 / 86400"
    using assms(2,3) by (simp_all add: s_def [symmetric] field_simps)
  ultimately have "of_int q + 2299162 \<le> julian utc + 3 / 2" "julian utc + 3 / 2 < of_int q + 2299162 + 1"
    using assms(1) unfolding close_julian_def by linarith+
  then show ?thesis unfolding q_def [symmetric] by linarith
qed

lemma rest_of_minute: "sp div SECONDS mod 60 * 1000000 + sp div 1000 mod 1000 * 1000 + sp mod 1000 = sp mod 60000000" for sp :: int
proof -
  have chain: "\<lbrakk>x = a + r; a = b + s; b = c + t; x = c + m\<rbrakk> \<Longrightarrow> t + s + r = m" for x a b c r s t m :: int by simp
  show ?thesis
  proof (rule chain)
    show "sp = sp div 1000 * 1000 + sp mod 1000" by simp
    show "sp = sp div 60000000 * 60000000 + sp mod 60000000" by simp
    show "sp div 1000 * 1000 = sp div SECONDS * 1000000 + sp div 1000 mod 1000 * 1000"
      unfolding span_units by (rule unit_split) simp_all
    show "sp div SECONDS * 1000000 = sp div 60000000 * 60000000 + sp div SECONDS mod 60 * 1000000"
      unfolding span_units by (rule unit_split) simp_all
  qed
qed

definition clock_range :: "int \<Rightarrow> bool" where
  "clock_range ts \<longleftrightarrow> 0 \<le> ts \<and> ts < 250000000000000000"

lemma clock_fields:
  assumes "close_julian julian (Timestamp_utcTime ts)" "clock_range ts"
  defines "n \<equiv> ts div 60000000"
  shows "int (dt_minute (calendar julian ts)) = n mod 60" "int (dt_hour (calendar julian ts)) = n div 60 mod 24"
    "int (dt_second (calendar julian ts)) * 1000000 + int (dt_millisecond (calendar julian ts)) * 1000 +
      int (dt_microsecond (calendar julian ts)) = ts mod 60000000"
    and "1000000 \<le> ts mod 60000000 \<Longrightarrow> ts mod 60000000 \<le> 59000000 \<Longrightarrow> int (dt_dayOfWeek (calendar julian ts)) = (n div 1440 + 4) mod 7"
proof -
  define span where "span = ts + 12219292800000000"
  have utc: "Timestamp_utcTime ts = 10 * span" by (simp add: Timestamp_utcTime_def span_def)
  have "utc_range (Timestamp_utcTime ts)" using assms(2) by (simp add: utc utc_range_def clock_range_def span_def)
  note D = DateTime_fields [OF close_near [OF assms(1)] this]
  obtain y m d where ymd: "date_of (first_day + span div 86400000000) = (y, m, d)" by (metis prod_cases3)
  have F: "pd_minute (exact_date (10 * span)) = span div MINUTES mod 60" "pd_hour (exact_date (10 * span)) = span div HOURS mod 24"
    "pd_second (exact_date (10 * span)) = span div SECONDS mod 60" "pd_millisecond (exact_date (10 * span)) = span div 1000 mod 1000"
    "pd_microsecond (exact_date (10 * span)) = span mod 1000"
    using ymd by (simp_all add: exact_date_def Let_def)
  have M: "span div MINUTES = n + 203654880"
    using div_mult_self2 [of 60000000 ts 203654880] by (simp add: span_def n_def span_units)
  have H: "span div HOURS = n div 60 + 3394248"
  proof -
    have "span div HOURS = span div MINUTES div 60" using zdiv_zmult2_eq [of 60 span 60000000] by (simp add: span_units)
    then show ?thesis using div_mult_self2 [of 60 n 3394248] by (simp add: M)
  qed
  have "(n + 203654880) mod 60 = n mod 60" using mod_mult_self2 [of n 60 3394248] by simp
  then show "int (dt_minute (calendar julian ts)) = n mod 60" by (simp add: calendar_def Let_def D) (simp add: utc F M)
  have "(n div 60 + 3394248) mod 24 = n div 60 mod 24" using mod_mult_self2 [of "n div 60" 24 141427] by simp
  then show "int (dt_hour (calendar julian ts)) = n div 60 mod 24" by (simp add: calendar_def Let_def D) (simp add: utc F H)
  have parts: "int (dt_second (calendar julian ts)) = span div SECONDS mod 60"
    "int (dt_millisecond (calendar julian ts)) = span div 1000 mod 1000" "int (dt_microsecond (calendar julian ts)) = span mod 1000"
    by (simp_all add: calendar_def Let_def D) (simp_all add: utc F span_units)
  have "span mod 60000000 = ts mod 60000000" using mod_mult_self2 [of ts 60000000 203654880] by (simp add: span_def)
  note sm = this
  then show "int (dt_second (calendar julian ts)) * 1000000 + int (dt_millisecond (calendar julian ts)) * 1000 +
      int (dt_microsecond (calendar julian ts)) = ts mod 60000000"
    unfolding parts rest_of_minute .
  assume seconds: "1000000 \<le> ts mod 60000000" "ts mod 60000000 \<le> 59000000"
  define q where "q = span div 60000000 mod 1440"
  have q: "0 \<le> q" "q \<le> 1439" by (simp_all add: q_def)
  have "span mod 86400000000 = 60000000 * q + ts mod 60000000"
    using zmod_zmult2_eq [of 1440 span 60000000] by (simp add: q_def sm)
  then have "10000000 \<le> 10 * (span mod 86400000000)" "10 * (span mod 86400000000) \<le> 863990000000" using seconds q by linarith+
  moreover have "10 * span mod 864000000000 = 10 * (span mod 86400000000)" using mult_mod_right [of 10 span 86400000000] by simp
  moreover have "10 * span div 864000000000 = span div 86400000000" using div_mult_mult1 [of 10 span 86400000000] by simp
  ultimately have W: "\<lfloor>julian (10 * span) + 3 / 2\<rfloor> = span div 86400000000 + 2299162"
    using close_weekday [OF assms(1)] by (simp only: utc)
  have S: "span div 86400000000 = n div 1440 + 141427"
  proof -
    have "span div 86400000000 = span div MINUTES div 1440" using zdiv_zmult2_eq [of 1440 span 60000000] by (simp add: span_units)
    then show ?thesis using div_mult_self2 [of 1440 n 141427] by (simp add: M)
  qed
  have pos: "0 \<le> n div 1440 + 2440589" using assms(2) by (simp add: n_def clock_range_def pos_imp_zdiv_nonneg_iff add_nonneg_nonneg)
  have "\<lfloor>julian (10 * span) + 3 / 2\<rfloor> = n div 1440 + 2440589" unfolding W S by simp
  then have "dayOfWeek (julian (10 * span)) = (n div 1440 + 2440589) mod 7"
    unfolding dayOfWeek_def using sdiv_nonneg(2) [OF pos] by (simp only:)
  also have "\<dots> = (n div 1440 + 4) mod 7" using mod_mult_self2 [of "n div 1440 + 4" 7 348655] by (simp add: add.commute)
  finally show "int (dt_dayOfWeek (calendar julian ts)) = (n div 1440 + 4) mod 7" by (simp add: calendar_def Let_def utc)
qed

text \<open>Steps of a minute and a millisecond reach every minute of the week.\<close>

lemma minute_steps:
  fixes u i :: int
  assumes "0 \<le> i" "u mod 60000000 + 1000 * i < 60000000"
  shows "(u + i * 60001000) div 60000000 = u div 60000000 + i"
proof (rule int_div_pos_eq)
  show "u + i * 60001000 = 60000000 * (u div 60000000 + i) + (u mod 60000000 + 1000 * i)"
    using mult_div_mod_eq [of 60000000 u] by (simp add: algebra_simps)
qed (use assms in simp_all)


lemma early_start:
  fixes u :: int
  shows "\<exists>k \<ge> 1. k \<le> 22001 \<and> 1000000 \<le> (u + k * 60001000) mod 60000000 \<and> (u + k * 60001000) mod 60000000 \<le> 39000000"
proof -
  define r where "r = (u + 60001000) mod 60000000"
  have r: "0 \<le> r" "r < 60000000" by (simp_all add: r_def)
  have shift: "(u + (1 + k) * 60001000) mod 60000000 = (r + 1000 * k) mod 60000000" for k
  proof -
    have "u + (1 + k) * 60001000 = (u + 60001000) + 1000 * k + 60000000 * k" by (simp add: algebra_simps)
    then show ?thesis by (simp only: mod_mult_self2 r_def mod_add_left_eq)
  qed
  define k where "k = (if r < 1000000 then 1000 else if r \<le> 39000000 then 0 else (61000999 - r) div 1000)"
  define s where "s = (if 39000000 < r then r + 1000 * k - 60000000 else r + 1000 * k)"
  have k: "0 \<le> k" "k \<le> 22000" "1000000 \<le> s" "s \<le> 39000000" using r by (auto simp: k_def s_def)
  have "(r + 1000 * k) mod 60000000 = s"
    by (rule int_mod_pos_eq [where q = "if 39000000 < r then 1 else 0"]) (use k in \<open>simp_all add: s_def\<close>)
  with k show ?thesis unfolding shift [symmetric] by (intro exI [of _ "1 + k"]) simp
qed

lemma reaches_minute:
  fixes u w :: int
  shows "\<exists>k. 1 \<le> k \<and> k \<le> 32080 \<and> ((u + k * 60001000) div 60000000) mod 10080 = w mod 10080 \<and>
    1000000 \<le> (u + k * 60001000) mod 60000000 \<and> (u + k * 60001000) mod 60000000 \<le> 59000000"
proof -
  obtain k where k: "1 \<le> k" "k \<le> 22001" "1000000 \<le> (u + k * 60001000) mod 60000000" "(u + k * 60001000) mod 60000000 \<le> 39000000"
    using early_start by blast
  define v where "v = u + k * 60001000"
  define i where "i = (w - v div 60000000) mod 10080"
  have i: "0 \<le> i" "i \<le> 10079" by (simp_all add: i_def)
  have s: "u + (k + i) * 60001000 = v + i * 60001000" by (simp add: v_def algebra_simps)
  have d: "(v + i * 60001000) div 60000000 = v div 60000000 + i"
    using k(4) i by (intro minute_steps) (simp_all add: v_def)
  have m: "(v + i * 60001000) mod 60000000 = v mod 60000000 + 1000 * i"
  proof (rule int_mod_pos_eq)
    show "v + i * 60001000 = 60000000 * (v div 60000000 + i) + (v mod 60000000 + 1000 * i)"
      using mult_div_mod_eq [of 60000000 v] by (simp add: algebra_simps)
  qed (use k i in \<open>simp_all add: v_def [symmetric]\<close>)
  have "(v div 60000000 + i) mod 10080 = w mod 10080" by (simp add: i_def mod_simps)
  then have "((u + (k + i) * 60001000) div 60000000) mod 10080 = w mod 10080" by (simp only: s d)
  moreover have "1000000 \<le> (u + (k + i) * 60001000) mod 60000000 \<and> (u + (k + i) * 60001000) mod 60000000 \<le> 59000000"
    using k i by (simp only: s m v_def [symmetric]) linarith
  ultimately show ?thesis using k(1,2) i by (intro exI [of _ "k + i"]) auto
qed

section \<open>The search\<close>

definition rollover_match :: "rot_env \<Rightarrow> int \<Rightarrow> int \<Rightarrow> int \<Rightarrow> int \<Rightarrow> bool" where
  "rollover_match env day hour minute t \<longleftrightarrow>
     int (dt_minute (re_date env t)) = minute \<and> (hour = -1 \<or> int (dt_hour (re_date env t)) = hour) \<and>
     (day = -1 \<or> int (dt_dayOfWeek (re_date env t)) = day)"

definition rollover_start :: "rot_env \<Rightarrow> int \<Rightarrow> int" where
  "rollover_start env t =
     t - (int (dt_second (re_date env t)) * 1000000 + int (dt_millisecond (re_date env t)) * 1000 + int (dt_microsecond (re_date env t)))"

lemma getNextRollover_step:
  "getNextRollover env day hour minute t =
     (if rollover_match env day hour minute (t + 60001000) then Some (rollover_start env (t + 60001000))
      else getNextRollover env day hour minute (t + 60001000))"
  by (subst getNextRollover.simps) (simp only: Let_def rollover_match_def rollover_start_def)

lemma rollover_search:
  assumes "1 \<le> k" "rollover_match env day hour minute (t + int k * 60001000)"
  shows "\<exists>j. 1 \<le> j \<and> j \<le> k \<and> rollover_match env day hour minute (t + int j * 60001000) \<and>
    getNextRollover env day hour minute t = Some (rollover_start env (t + int j * 60001000))"
  using assms
proof (induction k arbitrary: t)
  case (Suc k)
  show ?case
  proof (cases "rollover_match env day hour minute (t + 60001000)")
    case True
    then show ?thesis by (intro exI [of _ 1]) (simp add: getNextRollover_step [of env day hour minute t])
  next
    case False
    have s: "t + 60001000 + int i * 60001000 = t + int (Suc i) * 60001000" for i by simp
    have "1 \<le> k" using False Suc.prems by (cases k) simp_all
    with Suc.IH [of "t + 60001000"] Suc.prems(2) obtain j where "1 \<le> j" "j \<le> k"
      "rollover_match env day hour minute (t + int (Suc j) * 60001000)"
      "getNextRollover env day hour minute (t + 60001000) = Some (rollover_start env (t + int (Suc j) * 60001000))"
      unfolding s by blast
    with False show ?thesis by (intro exI [of _ "Suc j"]) (simp add: getNextRollover_step [of env day hour minute t])
  qed
qed simp

lemma rollover_found_match:
  assumes "getNextRollover env day hour minute t = Some r"
  shows "\<exists>t'. rollover_match env day hour minute t'"
proof (rule getNextRollover.raw_induct
    [where P = "\<lambda>env day hour minute t r. \<exists>t'. rollover_match env day hour minute t'", OF _ assms])
  fix g env day hour minute t r
  assume "\<And>env day hour minute t r. g env day hour minute t = Some r \<Longrightarrow> \<exists>t'. rollover_match env day hour minute t'"
    and "(let t' = t + 60001000; d = re_date env t'
      in if int (dt_minute d) = minute \<and> (hour = -1 \<or> int (dt_hour d) = hour) \<and> (day = -1 \<or> int (dt_dayOfWeek d) = day)
         then Some (t' - (int (dt_second d) * 1000000 + int (dt_millisecond d) * 1000 + int (dt_microsecond d)))
         else g env day hour minute t') = Some r"
  then show "\<exists>t'. rollover_match env day hour minute t'"
    unfolding Let_def rollover_match_def by (metis option.distinct(1))
qed

definition rotation_time :: "int \<Rightarrow> int \<Rightarrow> int \<Rightarrow> bool" where
  "rotation_time day hour minute \<longleftrightarrow> -1 \<le> day \<and> day \<le> 6 \<and> -1 \<le> hour \<and> hour \<le> 23 \<and> 0 \<le> minute \<and> minute \<le> 59"

definition week_minute :: "int \<Rightarrow> int \<Rightarrow> int \<Rightarrow> int" where
  "week_minute day hour minute =
     (if day = -1 then 0 else (day - 4) mod 7) * 1440 + (if hour = -1 then 0 else hour) * 60 + minute"

lemma week_minute_parts:
  assumes "rotation_time day hour minute" "n mod 10080 = week_minute day hour minute mod 10080"
  shows "n mod 60 = minute" "hour \<noteq> -1 \<Longrightarrow> n div 60 mod 24 = hour" "day \<noteq> -1 \<Longrightarrow> (n div 1440 + 4) mod 7 = day"
proof -
  define D where "D = (if day = -1 then 0 else (day - 4) mod 7)"
  define h where "h = (if hour = -1 then 0 else hour)"
  have r: "0 \<le> D" "D < 7" "0 \<le> h" "h < 24" "0 \<le> minute" "minute < 60"
    using assms(1) by (simp_all add: D_def h_def rotation_time_def)
  have w: "n mod 10080 = D * 1440 + h * 60 + minute"
    unfolding assms(2) week_minute_def D_def [symmetric] h_def [symmetric] using r by (intro mod_pos_pos_trivial) simp_all
  define q where "q = n div 10080"
  have n: "n = 10080 * q + (D * 1440 + h * 60 + minute)" using mult_div_mod_eq [of 10080 n] w by (simp add: q_def)
  show "n mod 60 = minute" by (rule int_mod_pos_eq [where q = "168 * q + 24 * D + h"]) (use r n in simp_all)
  have "n div 60 = 168 * q + 24 * D + h" by (rule int_div_pos_eq [where r = minute]) (use r n in simp_all)
  then have "n div 60 mod 24 = h" by (intro int_mod_pos_eq [where q = "7 * q + D"]) (use r in simp_all)
  then show "hour \<noteq> -1 \<Longrightarrow> n div 60 mod 24 = hour" by (simp add: h_def)
  have "n div 1440 = 7 * q + D" by (rule int_div_pos_eq [where r = "h * 60 + minute"]) (use r n in simp_all)
  then have "(n div 1440 + 4) mod 7 = (D + 4) mod 7" by (simp add: add.assoc)
  moreover have "((day - 4) mod 7 + 4) mod 7 = day mod 7" by (simp add: mod_simps)
  ultimately show "(n div 1440 + 4) mod 7 = day" if "day \<noteq> -1"
    using that assms(1) by (simp add: D_def rotation_time_def)
qed

text \<open>
  Rotation at a time of the day or of the week: the search of the next time ends exactly for the times a
  clock shows.
\<close>
definition exact_minute :: "rot_env \<Rightarrow> int \<Rightarrow> int \<Rightarrow> int \<Rightarrow> bool" where
  "exact_minute env hour minute r \<longleftrightarrow>
     r mod 60000000 = 0 \<and> int (dt_minute (re_date env r)) = minute \<and> (hour = -1 \<or> int (dt_hour (re_date env r)) = hour)"

lemma rollover_found:
  assumes env: "re_date env = calendar julian" and near: "\<And>ts. clock_range ts \<Longrightarrow> close_julian julian (Timestamp_utcTime ts)"
    and t: "0 \<le> t" "t \<le> 200000000000000000" and time: "rotation_time day hour minute"
  shows "\<exists>r u. getNextRollover env day hour minute t = Some r \<and> t < r \<and> exact_minute env hour minute r \<and>
    r = u - u mod 60000000 \<and> u \<le> t + 32080 * 60001000 \<and> rollover_match env day hour minute u"
proof -
  obtain k where k: "1 \<le> k" "k \<le> 32080" "(t + k * 60001000) div 60000000 mod 10080 = week_minute day hour minute mod 10080"
    "1000000 \<le> (t + k * 60001000) mod 60000000" "(t + k * 60001000) mod 60000000 \<le> 59000000"
    using reaches_minute by blast
  have ck: "clock_range (t + k * 60001000)" using t k by (simp add: clock_range_def)
  note cf = clock_fields [OF near [OF ck] ck]
  have "rollover_match env day hour minute (t + k * 60001000)"
    unfolding rollover_match_def env cf(1,2) cf(4) [OF k(4,5)] using week_minute_parts [OF time k(3)] by blast
  moreover have "1 \<le> nat k" "int (nat k) = k" using k(1) by simp_all
  ultimately obtain j where j: "1 \<le> j" "j \<le> nat k" "rollover_match env day hour minute (t + int j * 60001000)"
      "getNextRollover env day hour minute t = Some (rollover_start env (t + int j * 60001000))"
    using rollover_search by metis
  define u where "u = t + int j * 60001000"
  have jb: "1 \<le> int j" "int j \<le> 32080" using j k by linarith+
  have u: "t + 60001000 \<le> u" "u \<le> t + 32080 * 60001000" using jb by (simp_all add: u_def)
  then have cu: "clock_range u" using t by (simp add: clock_range_def)
  define r where "r = u - u mod 60000000"
  have start: "rollover_start env u = r"
    using clock_fields(3) [OF near [OF cu] cu] by (simp add: rollover_start_def env r_def)
  have r: "u - 60000000 < r" "r \<le> u" by (simp_all add: r_def)
  have "r = u div 60000000 * 60000000" by (simp add: r_def minus_mod_eq_div_mult)
  then have rd: "r div 60000000 = u div 60000000" "r mod 60000000 = 0" by simp_all
  have cr: "clock_range r" using r u cu t by (simp add: clock_range_def)
  have "exact_minute env hour minute r"
    using j(3) unfolding exact_minute_def rollover_match_def u_def [symmetric] env clock_fields(1,2) [OF near [OF cr] cr]
      clock_fields(1,2) [OF near [OF cu] cu] rd by (simp only: simp_thms)
  then show ?thesis using j(3,4) r u unfolding u_def [symmetric] start by (intro exI [of _ r] exI [of _ u]) (simp add: r_def)
qed

lemma smod_below: "0 < n \<Longrightarrow> a smod n < n" for a n :: int
  using smod_int_compares(1,4) [of a n] by (cases "0 \<le> a") simp_all

lemma calendar_bounds: "dt_minute (calendar julian ts) < 60" "dt_hour (calendar julian ts) < 24"
proof -
  have b: "pd_minute (DateTime_of julian utc) < 60" "pd_hour (DateTime_of julian utc) < 24" for utc
    by (simp_all add: DateTime_of_def computeDaytime_corrected Let_def smod_below split: prod.split)
  have n: "x < int k \<Longrightarrow> 0 < k \<Longrightarrow> nat x < k" for x k by linarith
  show "dt_minute (calendar julian ts) < 60" "dt_hour (calendar julian ts) < 24"
    unfolding calendar_def Let_def date_time.simps using b by (simp_all add: n)
qed

lemma rollover_ends_iff:
  assumes "re_date env = calendar julian" "\<And>ts. clock_range ts \<Longrightarrow> close_julian julian (Timestamp_utcTime ts)"
    and "0 \<le> t" "t \<le> 200000000000000000" "-1 \<le> day" "day \<le> 6"
  shows "(\<exists>r. getNextRollover env day hour minute t = Some r) \<longleftrightarrow> -1 \<le> hour \<and> hour \<le> 23 \<and> 0 \<le> minute \<and> minute \<le> 59"
proof -
  have "rotation_time day hour minute" if r: "getNextRollover env day hour minute t = Some r" for r
  proof -
    obtain t' where "rollover_match env day hour minute t'" using rollover_found_match [OF r] by blast
    with calendar_bounds [of julian t'] assms(5,6) show ?thesis by (auto simp: rollover_match_def assms(1) rotation_time_def)
  qed
  moreover have "rotation_time day hour minute \<longleftrightarrow> -1 \<le> hour \<and> hour \<le> 23 \<and> 0 \<le> minute \<and> minute \<le> 59"
    using assms(5,6) by (auto simp: rotation_time_def)
  ultimately show ?thesis using rollover_found [OF assms(1-4)] by blast
qed

section \<open>The time of rotation as text\<close>

definition isPunct :: "char \<Rightarrow> bool" where
  "isPunct c \<longleftrightarrow> 33 \<le> code c \<and> code c \<le> 47 \<or> 58 \<le> code c \<and> code c \<le> 64 \<or> 91 \<le> code c \<and> code c \<le> 96 \<or> 123 \<le> code c \<and> code c \<le> 126"

definition toUpper :: "char \<Rightarrow> char" where
  "toUpper c = (if 97 \<le> code c \<and> code c \<le> 122 then char_of (code c - 32) else c)"

fun weekday_loop :: "string \<Rightarrow> int \<Rightarrow> string list \<Rightarrow> poco_error + int" where
  "weekday_loop dow i [] = Inl SyntaxError"
| "weekday_loop dow i (name # names) = (if take (length dow) name = dow then Inr i else weekday_loop dow (i + 1) names)"

definition parseDayOfWeek :: "string \<Rightarrow> poco_error + int" where
  "parseDayOfWeek s =
     (let letters = takeWhile isAlpha (dropWhile (\<lambda>c. isspace c \<or> isPunct c) s);
          dow = (case letters of [] \<Rightarrow> [] | c # cs \<Rightarrow> toUpper c # map tolower cs)
      in if length dow < 3 then Inl SyntaxError else weekday_loop dow 0 WEEKDAY_NAMES)"

definition NumberParser_parse :: "string \<Rightarrow> poco_error + int" where
  "NumberParser_parse s = (case strToInt s of None \<Rightarrow> Inl SyntaxError | Some i \<Rightarrow> Inr i)"

text \<open>The constructor of \<open>RotateAtTimeStrategy\<close>: the day, the hour and the minute it reads, then the first search.\<close>

definition parse_rtime :: "string \<Rightarrow> poco_error + int \<times> int \<times> int" where
  "parse_rtime rtime =
     (if rtime = [] then Inl (InvalidArgument ''Rotation time must be specified.'' [])
      else if CHR '','' \<in> set rtime \<and> CHR '':'' \<notin> set rtime then Inl (InvalidArgument ''Invalid rotation time specified.'' [])
      else case StringTokenizer rtime '',:'' True True of
          [day, hour, minute] \<Rightarrow> rbind (parseDayOfWeek day) (\<lambda>day. rbind (NumberParser_parse hour) (\<lambda>hour.
            rbind (NumberParser_parse minute) (\<lambda>minute. Inr (day, hour, minute))))
        | [hour, minute] \<Rightarrow> rbind (NumberParser_parse hour) (\<lambda>hour. rbind (NumberParser_parse minute) (\<lambda>minute. Inr (-1, hour, minute)))
        | [minute] \<Rightarrow> rbind (NumberParser_parse minute) (\<lambda>minute. Inr (-1, -1, minute))
        | _ \<Rightarrow> Inl (InvalidArgument ''Invalid rotation time specified.'' []))"

text \<open>Nothing is a search that does not end.\<close>

definition RotateAtTime_new :: "rot_env \<Rightarrow> int \<Rightarrow> string \<Rightarrow> poco_error + (rotator \<times> int) option" where
  "RotateAtTime_new env now rtime =
     rbind (parse_rtime rtime) (\<lambda>(day, hour, minute).
       Inr (map_option (\<lambda>threshold. (AtTime day hour minute, threshold)) (getNextRollover env day hour minute now)))"

lemma weekday_loop_range: "weekday_loop dow i names = Inr d \<Longrightarrow> i \<le> d \<and> d < i + int (length names)"
  by (induction dow i names rule: weekday_loop.induct) (auto split: if_splits)

lemma parseDayOfWeek_range: "parseDayOfWeek s = Inr d \<Longrightarrow> 0 \<le> d \<and> d \<le> 6"
  using weekday_loop_range [of _ 0 WEEKDAY_NAMES d] by (auto simp: parseDayOfWeek_def WEEKDAY_NAMES_def Let_def split: if_splits)

lemma parse_rtime_day: "parse_rtime rtime = Inr (day, hour, minute) \<Longrightarrow> -1 \<le> day \<and> day \<le> 6"
  by (auto simp: parse_rtime_def rbind_def dest!: parseDayOfWeek_range split: if_splits list.splits sum.splits)


definition rotation_env :: rot_env where
  "rotation_env = \<lparr>re_date = calendar exact_julian, re_print = (\<lambda>_. []), re_parse = (\<lambda>_. None)\<rparr>"


section \<open>Logs that rotate at a given time\<close>

lemma log_keeps_timed:
  assumes fc: "fc_archiveStrategy fc = ArchiveByNumber" "fc_purgeStrategy fc = None" and ok: "channel_ok fc st"
    and next_time: "\<And>last. good last \<Longrightarrow> last \<le> now \<Longrightarrow>
      \<exists>last'. getNextRollover env day hour minute last = Some last' \<and> good last' \<and> last \<le> last'"
    and last: "good (ch_last st)"
  shows "\<exists>st'. FileChannel_log stamp env now fc (Some (AtTime day hour minute)) msg st = (True, st') \<and> channel_ok fc st' \<and>
    whole_log (fc_compress fc) ungz (fc_path fc) (ch_files st') =
      whole_log (fc_compress fc) ungz (fc_path fc) (ch_files st) @ msg @ [CHR 0x0A] \<and> good (ch_last st') \<and> ch_last st \<le> ch_last st' \<and>
    (ch_last st \<le> now \<longrightarrow> current (fc_path fc) (ch_files st') = msg @ [CHR 0x0A])"
proof -
  let ?c = "fc_compress fc" and ?p = "fc_path fc" and ?st = "FileChannel_open stamp now fc st"
  let ?r = "AtTime day hour minute"
  let ?put = "\<lambda>st. set_files (LogFile_write now ?p msg (ch_files st)) st"
  note o = open_keeps [OF fc ok, of stamp now ungz]
  have f: "map_of (ch_files ?st) ?p \<noteq> None" using o by (simp add: channel_ok_def)
  have l: "ch_last ?st = ch_last st" by (simp add: FileChannel_open_def rotate_files_def set_files_def Let_def split: prod.split)
  have id: "(set_files (ch_files x) x)\<lparr>ch_last := l'\<rparr> = x\<lparr>ch_last := l'\<rparr>" for x l' by (simp add: set_files_def)
  have put: "channel_ok fc (?put (x\<lparr>ch_last := l'\<rparr>))" "ch_last (?put (x\<lparr>ch_last := l'\<rparr>)) = l'"
    "whole_log ?c ungz ?p (ch_files (?put (x\<lparr>ch_last := l'\<rparr>))) = whole_log ?c ungz ?p (ch_files x) @ msg @ [CHR 0x0A]"
    if "channel_ok fc x" "ch_open x" for x l'
    using write_keeps [of fc "x\<lparr>ch_last := l'\<rparr>" now msg ungz] that by (simp_all add: channel_ok_def set_files_def)
  have must: "\<exists>last'. mustRotate env now ?r ?p last fs = Some (last \<le> now, last', fs) \<and> good last' \<and> last \<le> last'" if "good last" for last fs
    using next_time [OF that] that by (auto simp: mustRotate_def)
  obtain l1 where m1: "mustRotate env now ?r ?p (ch_last st) (ch_files ?st) = Some (ch_last st \<le> now, l1, ch_files ?st)" "good l1" "ch_last st \<le> l1"
    using must [OF last] by blast
  show ?thesis
  proof (cases "ch_last st \<le> now")
    case False
    then have "FileChannel_log stamp env now fc (Some ?r) msg st = (True, ?put (?st\<lparr>ch_last := l1\<rparr>))"
      by (simp add: FileChannel_log_def Let_def l m1(1) id)
    with put [of ?st l1] o m1(2,3) False show ?thesis by simp
  next
    case True
    let ?x = "rotate_files stamp now fc (?st\<lparr>ch_last := l1\<rparr>)"
    have so: "channel_ok fc (?st\<lparr>ch_last := l1\<rparr>)" "ch_open (?st\<lparr>ch_last := l1\<rparr>)" "map_of (ch_files (?st\<lparr>ch_last := l1\<rparr>)) ?p \<noteq> None"
      using o f by (simp_all add: channel_ok_def)
    have ro: "channel_ok fc ?x" "ch_open ?x" "whole_log ?c ungz ?p (ch_files ?x) = whole_log ?c ungz ?p (ch_files st)" "ch_last ?x = l1"
      "map_of (ch_files ?x) ?p \<noteq> None" "current ?p (ch_files ?x) = []"
      using rotate_keeps(1,3,4) [OF fc _ so(3)] rotate_whole [OF fc _ so(3)] so o
      by (simp_all add: rotate_files_def Let_def split: prod.splits)
    obtain l2 where m2: "mustRotate env now ?r ?p l1 (ch_files ?x) = Some (l1 \<le> now, l2, ch_files ?x)" "good l2" "l1 \<le> l2"
      using must [OF m1(2)] by blast
    have "FileChannel_log stamp env now fc (Some ?r) msg st = (True, ?put (?x\<lparr>ch_last := l2\<rparr>))"
      using True by (simp add: FileChannel_log_def Let_def l m1(1) id ro(4) m2(1))
    moreover have "current ?p (LogFile_write now ?p msg (ch_files ?x)) = msg @ [CHR 0x0A]"
      using LogFile_write_map(2) [OF ro(5), of now msg] ro(6) by simp
    ultimately show ?thesis using put [OF ro(1,2), of l2] ro m1(3) m2(2,3) by (simp add: set_files_def)
  qed
qed

definition early_events :: "log_event list \<Rightarrow> bool" where
  "early_events events \<longleftrightarrow> list_all (\<lambda>e. case e of LogMessage now msg \<Rightarrow> now \<le> 190000000000000000 | CompressorRuns now \<Rightarrow> True) events"



end
