(* ===== verification/IPLocation.thy ===== *)
theory IPLocation
  imports Config "HOL-Library.Multiset"
begin

text \<open>
  \<^verbatim>\<open>src/common/IPLocation/IPLocation.cpp\<close>: the table of address ranges with their countries.

  A database file is the text it holds, or nothing when it cannot be opened.  \<open>std::sort\<close> is a
  parameter with its contract \<open>sorts\<close>, since the order it gives equal keys is not determined;
  so is the parsing of an address.
\<close>

section \<open>Records\<close>

record IpLocationRecord =
  IpFrom :: nat
  IpTo :: nat
  CountryCode :: string
  CountryName :: string

definition uint32_type :: int_type where
  "uint32_type = \<lparr>it_signed = False, it_bits = 32\<rparr>"

section \<open>Loading\<close>

text \<open>
  \<open>std::getline\<close> on what is left of a stream and its end-of-file flag: it fails when nothing is
  left, and sets the flag when it meets the end before the delimiter.
\<close>

type_synonym stream = "string \<times> bool"

definition getline :: "char \<Rightarrow> stream \<Rightarrow> (string \<times> stream) option" where
  "getline delim st =
     (let (s, eof) = st; tok = takeWhile (\<lambda>c. c \<noteq> delim) s
      in if eof \<or> s = [] then None
         else Some (tok, drop (length tok + 1) s, length tok = length s))"

lemma getline_shorter: "getline delim st = Some (tok, st') \<Longrightarrow> length (fst st') < length (fst st)"
  by (cases st) (auto simp: getline_def Let_def split: if_splits)

definition erase_char :: "char \<Rightarrow> string \<Rightarrow> string" where
  "erase_char c s = List.filter (\<lambda>d. d \<noteq> c) s"

text \<open>One turn of the loop: the end, or the rest of the stream and perhaps a record.\<close>

definition read_record :: "stream \<Rightarrow> (IpLocationRecord option \<times> stream) option" where
  "read_record st =
     (case getline (CHR '','') st of None \<Rightarrow> None
      | Some (ipFrom, st) \<Rightarrow>
     (case getline (CHR '','') st of None \<Rightarrow> None
      | Some (ipTo, st) \<Rightarrow>
     (case getline (CHR '','') st of None \<Rightarrow> None
      | Some (countryCode, st) \<Rightarrow>
     (case getline (CHR 0x0A) st of None \<Rightarrow> None
      | Some (countryName, st) \<Rightarrow>
          let countryName = erase_char (CHR 0x0A) (erase_char (CHR 0x0D) countryName);
              ipFrom = erase_char (CHR 0x22) ipFrom;
              ipTo = erase_char (CHR 0x22) ipTo;
              countryCode = erase_char (CHR 0x22) countryCode;
              countryName = erase_char (CHR 0x22) countryName;
              countryCode = map tolower countryCode
          in Some (case (For_int_FromString uint32_type 10 ipFrom, For_int_FromString uint32_type 10 ipTo) of
                     (Some f, Some t) \<Rightarrow>
                       Some \<lparr>IpFrom = nat f, IpTo = nat t, CountryCode = countryCode, CountryName = countryName\<rparr>
                   | _ \<Rightarrow> None, st)))))"

lemma read_record_shorter: "read_record st = Some (r, st') \<Longrightarrow> length (fst st') < length (fst st)"
  unfolding read_record_def Let_def
  by (auto split: option.splits prod.splits if_splits dest!: getline_shorter)

function load_loop :: "stream \<Rightarrow> IpLocationRecord list \<Rightarrow> IpLocationRecord list" where
  "load_loop st store =
     (if snd st then store
      else case read_record st of
             None \<Rightarrow> store
           | Some (r, st') \<Rightarrow> load_loop st' (case r of Some r \<Rightarrow> store @ [r] | None \<Rightarrow> store))"
  by pat_completeness auto
termination
  by (relation "measure (\<lambda>(st, _). length (fst st))") (auto dest: read_record_shorter)

declare load_loop.simps [simp del]

text \<open>\<open>std::is_sorted\<close>: no element is to stand before the one in front of it.\<close>

fun is_sorted :: "('a \<Rightarrow> 'a \<Rightarrow> bool) \<Rightarrow> 'a list \<Rightarrow> bool" where
  "is_sorted lt (a # b # xs) \<longleftrightarrow> \<not> lt b a \<and> is_sorted lt (b # xs)"
| "is_sorted lt _ \<longleftrightarrow> True"

definition Load :: "(IpLocationRecord list \<Rightarrow> IpLocationRecord list) \<Rightarrow> (string \<Rightarrow> string option) \<Rightarrow> config \<Rightarrow> IpLocationRecord list result" where
  "Load srt fs c =
     (let databaseFilePath = GetOption_string ''IPLocationFile'' [] c
      in if databaseFilePath = [] then Inr []
         else case fs databaseFilePath of
                None \<Rightarrow> Inr []
              | Some content \<Rightarrow>
                  let store = srt (load_loop (content, False) [])
                  in if is_sorted (\<lambda>a b. IpFrom a < IpTo b) store then Inr store else Inl AssertionFailed)"

definition sorts :: "(IpLocationRecord list \<Rightarrow> IpLocationRecord list) \<Rightarrow> bool" where
  "sorts srt \<longleftrightarrow> (\<forall>xs. mset (srt xs) = mset xs \<and> sorted (map IpFrom (srt xs)))"

section \<open>Lookup\<close>

text \<open>\<open>std::upper_bound\<close>: a binary search between \<open>first\<close> and \<open>first + len\<close>.\<close>

function upper_bound_loop :: "('a \<Rightarrow> bool) \<Rightarrow> 'a list \<Rightarrow> nat \<Rightarrow> nat \<Rightarrow> nat" where
  "upper_bound_loop before xs first len =
     (if len = 0 then first
      else let half = len div 2; mid = first + half
           in if before (xs ! mid) then upper_bound_loop before xs first half
              else upper_bound_loop before xs (mid + 1) (len - half - 1))"
  by pat_completeness auto
termination
  by (relation "measure (\<lambda>(_, _, _, len). len)") auto

declare upper_bound_loop.simps [simp del]

definition upper_bound :: "('a \<Rightarrow> bool) \<Rightarrow> 'a list \<Rightarrow> nat" where
  "upper_bound before xs = upper_bound_loop before xs 0 (length xs)"

datatype address_error = InvalidAddress string   \<comment> \<open>the exception of \<open>make_address_v4\<close>\<close>

definition GetLocationRecord :: "(string \<Rightarrow> nat option) \<Rightarrow> IpLocationRecord list \<Rightarrow> string \<Rightarrow> address_error + IpLocationRecord option" where
  "GetLocationRecord make_address_v4 store ipAddress =
     (case make_address_v4 ipAddress of
        None \<Rightarrow> Inl (InvalidAddress ipAddress)
      | Some ip \<Rightarrow>
          let itr = upper_bound (\<lambda>loc. ip < IpTo loc) store
          in if itr = length store then Inr None
             else if ip < IpFrom (store ! itr) then Inr None
             else Inr (Some (store ! itr)))"

section \<open>The binary search\<close>

text \<open>On a list whose elements satisfy the predicate from some point on, that point is found.\<close>

lemma upper_bound_loop_spec:
  assumes "first + len \<le> length xs"
    and "\<And>i j. i \<le> j \<Longrightarrow> j < length xs \<Longrightarrow> before (xs ! i) \<Longrightarrow> before (xs ! j)"
    and "\<And>i. i < first \<Longrightarrow> \<not> before (xs ! i)" "\<And>i. first + len \<le> i \<Longrightarrow> i < length xs \<Longrightarrow> before (xs ! i)"
  shows "upper_bound_loop before xs first len \<le> length xs \<and>
    (\<forall>i < length xs. before (xs ! i) \<longleftrightarrow> upper_bound_loop before xs first len \<le> i)"
  using assms
proof (induction before xs first len rule: upper_bound_loop.induct)
  case (1 before xs first len)
  show ?case
  proof (cases "len = 0")
    case True
    then have "upper_bound_loop before xs first len = first" by (simp add: upper_bound_loop.simps)
    then show ?thesis using 1(3,5,6) True by (auto simp: not_less [symmetric])
  next
    case False
    define mid where "mid = first + len div 2"
    have mid: "mid < length xs" using 1(3) False by (simp add: mid_def)
    show ?thesis
    proof (cases "before (xs ! mid)")
      case True
      have "before (xs ! i)" if "mid \<le> i" "i < length xs" for i using 1(4) [OF that True] .
      then show ?thesis
        using 1(1) [OF False refl refl] 1(3-5) True mid False
        by (simp add: upper_bound_loop.simps [of before xs first len] mid_def Let_def)
    next
      case no: False
      have below: "\<not> before (xs ! i)" if "i < mid + 1" for i
        using 1(4) [of i mid] mid no that by auto
      have "mid + 1 + (len - len div 2 - 1) = first + len" using False by (simp add: mid_def)
      then show ?thesis
        using 1(2) [OF False refl refl] 1(3,4,6) below no False
        by (simp add: upper_bound_loop.simps [of before xs first len] mid_def Let_def)
    qed
  qed
qed

lemma upper_bound_find:
  assumes "\<And>i j. i \<le> j \<Longrightarrow> j < length xs \<Longrightarrow> before (xs ! i) \<Longrightarrow> before (xs ! j)"
  shows "(if upper_bound before xs = length xs then None else Some (xs ! upper_bound before xs)) = find before xs"
proof -
  let ?u = "upper_bound before xs"
  have u: "?u \<le> length xs" "\<forall>i < length xs. before (xs ! i) \<longleftrightarrow> ?u \<le> i"
    using upper_bound_loop_spec [of 0 "length xs" xs before] assms by (auto simp: upper_bound_def)
  show ?thesis
  proof (cases "?u = length xs")
    case True
    then have "\<not> (\<exists>x. x \<in> set xs \<and> before x)" using u by (auto simp: in_set_conv_nth)
    then have "find before xs = None" unfolding find_None_iff .
    then show ?thesis using True by simp
  next
    case False
    then have "find before xs = Some (xs ! ?u)" using u by (auto simp: find_Some_iff intro!: exI [of _ ?u])
    then show ?thesis using False by simp
  qed
qed

section \<open>Ranges\<close>

lemma all_nat_split: "(\<forall>i. P i) \<longleftrightarrow> P 0 \<and> (\<forall>i. P (Suc i))"
  by (metis not0_implies_Suc)

lemma is_sorted_nth:
  "is_sorted lt xs \<longleftrightarrow> (\<forall>i. Suc i < length xs \<longrightarrow> \<not> lt (xs ! Suc i) (xs ! i))"
proof (induction lt xs rule: is_sorted.induct)
  case (1 lt a b xs)
  have "(\<forall>i. Suc i < length (a # b # xs) \<longrightarrow> \<not> lt ((a # b # xs) ! Suc i) ((a # b # xs) ! i)) \<longleftrightarrow>
      \<not> lt b a \<and> (\<forall>i. Suc i < length (b # xs) \<longrightarrow> \<not> lt ((b # xs) ! Suc i) ((b # xs) ! i))"
    by (subst all_nat_split) simp
  with 1 show ?case by simp
qed simp_all

lemma ranges_ordered:
  assumes "is_sorted (\<lambda>a b. IpFrom a < IpTo b) store" "\<forall>r \<in> set store. IpFrom r \<le> IpTo r"
    and "i < j" "j < length store"
  shows "IpTo (store ! i) \<le> IpFrom (store ! j)"
  using assms(3,4)
proof (induction j)
  case (Suc j)
  have step: "IpTo (store ! j) \<le> IpFrom (store ! Suc j)"
    using assms(1) Suc.prems(2) by (auto simp: is_sorted_nth not_less)
  show ?case
  proof (cases "i = j")
    case False
    then have "IpTo (store ! i) \<le> IpFrom (store ! j)" using Suc by simp
    also have "\<dots> \<le> IpTo (store ! j)" using assms(2) Suc.prems by simp
    finally show ?thesis using step by simp
  qed (use step in simp)
qed simp

lemma lookup_spec:
  assumes "is_sorted (\<lambda>a b. IpFrom a < IpTo b) store" "\<forall>r \<in> set store. IpFrom r \<le> IpTo r"
    and "make_address_v4 addr = Some ip"
  shows "GetLocationRecord make_address_v4 store addr = Inr (Some r) \<longleftrightarrow> r \<in> set store \<and> IpFrom r \<le> ip \<and> ip < IpTo r"
proof -
  let ?p = "\<lambda>loc. ip < IpTo loc"
  let ?u = "upper_bound ?p store"
  have mono: "?p (store ! j)" if "i \<le> j" "j < length store" "?p (store ! i)" for i j
  proof (cases "i = j")
    case False
    then have "IpTo (store ! i) \<le> IpFrom (store ! j)" using ranges_ordered [OF assms(1,2), of i j] that by simp
    also have "\<dots> \<le> IpTo (store ! j)" using assms(2) that by simp
    finally show ?thesis using that by simp
  qed (use that in simp)
  have find: "(if ?u = length store then None else Some (store ! ?u)) = find ?p store"
    by (rule upper_bound_find) (use mono in blast)
  have "GetLocationRecord make_address_v4 store addr = Inr (Some r) \<longleftrightarrow> find ?p store = Some r \<and> IpFrom r \<le> ip"
    unfolding find [symmetric] using assms(3) by (auto simp: GetLocationRecord_def Let_def)
  also have "\<dots> \<longleftrightarrow> r \<in> set store \<and> IpFrom r \<le> ip \<and> ip < IpTo r"
  proof
    assume "find ?p store = Some r \<and> IpFrom r \<le> ip"
    then show "r \<in> set store \<and> IpFrom r \<le> ip \<and> ip < IpTo r" by (auto simp: find_Some_iff)
  next
    assume r: "r \<in> set store \<and> IpFrom r \<le> ip \<and> ip < IpTo r"
    then obtain k where k: "k < length store" "store ! k = r" by (auto simp: in_set_conv_nth)
    have "\<not> ?p (store ! i)" if "i < k" for i
      using ranges_ordered [OF assms(1,2) that k(1)] r k(2) by simp
    then show "find ?p store = Some r \<and> IpFrom r \<le> ip" using r k by (auto simp: find_Some_iff intro!: exI [of _ k])
  qed
  finally show ?thesis .
qed

section \<open>The database as text\<close>

text \<open>A line of the database, and the records that can be written so.\<close>

definition quoted :: "string \<Rightarrow> string" where
  "quoted s = CHR 0x22 # s @ [CHR 0x22]"

definition record_line :: "IpLocationRecord \<Rightarrow> string" where
  "record_line r = quoted (nat_digits (IpFrom r)) @ '','' @ quoted (nat_digits (IpTo r)) @ '','' @
     quoted (CountryCode r) @ '','' @ quoted (CountryName r) @ [CHR 0x0A]"

definition printable :: "IpLocationRecord \<Rightarrow> bool" where
  "printable r \<longleftrightarrow> IpFrom r < 2 ^ 32 \<and> IpTo r < 2 ^ 32 \<and>
     CHR '','' \<notin> set (CountryCode r) \<and> CHR 0x22 \<notin> set (CountryCode r) \<and> map tolower (CountryCode r) = CountryCode r \<and>
     set (CountryName r) \<inter> {CHR 0x0A, CHR 0x0D, CHR 0x22} = {}"

lemma getline_field:
  assumes "delim \<notin> set tok"
  shows "getline delim (tok @ delim # rest, False) = Some (tok, rest, False)"
proof -
  have "takeWhile (\<lambda>c. c \<noteq> delim) (tok @ delim # rest) = tok"
    using assms by (subst takeWhile_append2) auto
  then show ?thesis by (simp add: getline_def)
qed

lemma erase_char_simps:
  "c \<notin> set s \<Longrightarrow> erase_char c s = s"
  "c \<notin> set s \<Longrightarrow> erase_char c (c # s @ [c]) = s"
  "c \<noteq> d \<Longrightarrow> c \<notin> set s \<Longrightarrow> erase_char c (d # s @ [d]) = d # s @ [d]"
  by (auto simp: erase_char_def filter_id_conv)

lemma nat_digits_plain:
  "CHR '','' \<notin> set (nat_digits n)" "CHR 0x22 \<notin> set (nat_digits n)"
  using nat_digits_set [of "CHR '',''" n] nat_digits_set [of "CHR 0x22" n]
  by (auto simp: code_eq_iff code_digit_char) (auto simp: code_def)

lemma FromString_nat_digits:
  "n < 2 ^ 32 \<Longrightarrow> For_int_FromString uint32_type 10 (nat_digits n) = Some (int n)"
  using from_chars_digits [of uint32_type "int n" "nat_digits n"]
  by (simp add: For_int_FromString_def uint32_type_def in_range_def)

lemma read_print_record:
  assumes "printable r"
  shows "read_record (record_line r @ rest, False) = Some (Some r, rest, False)"
proof -
  have field: "getline (CHR '','') (quoted s @ CHR '','' # t, False) = Some (quoted s, t, False)" if "CHR '','' \<notin> set s" for s t
    by (rule getline_field) (use that in \<open>simp add: quoted_def\<close>)
  have line: "getline (CHR 0x0A) (quoted s @ CHR 0x0A # t, False) = Some (quoted s, t, False)" if "CHR 0x0A \<notin> set s" for s t
    by (rule getline_field) (use that in \<open>simp add: quoted_def\<close>)
  have unquote: "erase_char (CHR 0x22) (quoted s) = s" if "CHR 0x22 \<notin> set s" for s
    unfolding quoted_def by (rule erase_char_simps(2)) (rule that)
  have keep: "erase_char (CHR 0x0D) (quoted s) = quoted s" "erase_char (CHR 0x0A) (quoted s) = quoted s"
    if "CHR 0x0D \<notin> set s" "CHR 0x0A \<notin> set s" for s
    unfolding quoted_def using that by (auto intro!: erase_char_simps(3))
  show ?thesis
    using assms unfolding printable_def record_line_def read_record_def
    by (simp add: field line unquote keep nat_digits_plain FromString_nat_digits)
qed

lemma load_print:
  "\<forall>r \<in> set rs. printable r \<Longrightarrow> load_loop (concat (map record_line rs), False) store = store @ rs"
proof (induction rs arbitrary: store)
  case Nil
  show ?case by (simp add: load_loop.simps read_record_def getline_def)
next
  case (Cons r rs)
  then show ?case by (subst load_loop.simps) (simp add: read_print_record)
qed

section \<open>Properties\<close>

text \<open>Two ranges, taken without their last address, have no address in common.\<close>

definition apart :: "IpLocationRecord \<Rightarrow> IpLocationRecord \<Rightarrow> bool" where
  "apart r s \<longleftrightarrow> IpTo r \<le> IpFrom s \<or> IpTo s \<le> IpFrom r"

lemma sorted_ranges:
  assumes "sorts srt" "distinct rs" "\<forall>r \<in> set rs. IpFrom r < IpTo r" "\<forall>r \<in> set rs. \<forall>s \<in> set rs. r \<noteq> s \<longrightarrow> apart r s"
  shows "is_sorted (\<lambda>a b. IpFrom a < IpTo b) (srt rs)" "set (srt rs) = set rs"
proof -
  have m: "mset (srt rs) = mset rs" and sorted: "sorted (map IpFrom (srt rs))" using assms(1) by (auto simp: sorts_def)
  show set: "set (srt rs) = set rs" using m by (metis set_mset_mset)
  have d: "distinct (srt rs)" using m assms(2) by (metis mset_eq_imp_distinct_iff)
  show "is_sorted (\<lambda>a b. IpFrom a < IpTo b) (srt rs)"
    unfolding is_sorted_nth not_less
  proof (intro allI impI)
    fix i
    assume i: "Suc i < length (srt rs)"
    let ?a = "srt rs ! i" and ?b = "srt rs ! Suc i"
    have "?a \<in> set rs" "?b \<in> set rs" using i set by (metis Suc_lessD nth_mem, metis nth_mem)
    moreover have "?a \<noteq> ?b" using d i by (simp add: nth_eq_iff_index_eq)
    moreover have "IpFrom ?a \<le> IpFrom ?b" using sorted i sorted_nth_mono [OF sorted, of i "Suc i"] by simp
    ultimately show "IpTo ?a \<le> IpFrom ?b" using assms(3,4) unfolding apart_def by (meson leD le_trans)
  qed
qed

text \<open>
  C38: a database is loaded and searched.  For a file with a line for each of a list of non-empty
  ranges that do not overlap, in any order, loading succeeds, and looking an address up finds
  exactly the record whose range contains it; a range contains its first address and not its
  last.
\<close>
theorem location_found_by_address:
  assumes "sorts srt" "GetOption_string ''IPLocationFile'' [] c = path" "path \<noteq> []"
    and "fs path = Some (concat (map record_line rs))" "\<forall>r \<in> set rs. printable r"
    and "distinct rs" "\<forall>r \<in> set rs. IpFrom r < IpTo r" "\<forall>r \<in> set rs. \<forall>s \<in> set rs. r \<noteq> s \<longrightarrow> apart r s"
  shows "\<exists>store. Load srt fs c = Inr store \<and>
    (\<forall>make_address_v4 addr ip r. make_address_v4 addr = Some ip \<longrightarrow>
      (GetLocationRecord make_address_v4 store addr = Inr (Some r) \<longleftrightarrow> r \<in> set rs \<and> IpFrom r \<le> ip \<and> ip < IpTo r))"
proof -
  note sorted = sorted_ranges [OF assms(1,6-8)]
  have "Load srt fs c = Inr (srt rs)"
    using assms(2-5) sorted(1) by (simp add: Load_def Let_def load_print)
  moreover have "\<forall>r \<in> set (srt rs). IpFrom r \<le> IpTo r" using assms(7) sorted(2) by (simp add: less_imp_le)
  ultimately show ?thesis using lookup_spec [OF sorted(1)] sorted(2) by auto
qed

definition example_records :: "IpLocationRecord list" where
  "example_records =
    [\<lparr>IpFrom = 20, IpTo = 30, CountryCode = ''us'', CountryName = ''United States, of America''\<rparr>,
     \<lparr>IpFrom = 10, IpTo = 19, CountryCode = ''de'', CountryName = ''Germany''\<rparr>]"

theorem location_found_by_address_witness:
  "\<exists>store. Load (sort_key IpFrom) (\<lambda>_. Some (concat (map record_line example_records)))
      (config_new\<lparr>cf_options := [''IPLocationFile'' \<mapsto> ''db'']\<rparr>) = Inr store \<and>
    GetLocationRecord (\<lambda>_. Some 20) store ''0.0.0.20'' =
      Inr (Some \<lparr>IpFrom = 20, IpTo = 30, CountryCode = ''us'', CountryName = ''United States, of America''\<rparr>) \<and>
    (\<forall>r. GetLocationRecord (\<lambda>_. Some 19) store ''0.0.0.19'' \<noteq> Inr (Some r))"
proof -
  let ?c = "config_new\<lparr>cf_options := [''IPLocationFile'' \<mapsto> ''db'']\<rparr>"
  let ?fs = "\<lambda>_. Some (concat (map record_line example_records))"
  have sorts: "sorts (sort_key IpFrom)" by (simp add: sorts_def)
  have path: "GetOption_string ''IPLocationFile'' [] ?c = ''db''" "''db'' \<noteq> []"
    by (simp_all add: GetOption_string_def GetValueDefault_string_def)
  have print: "\<forall>r \<in> set example_records. printable r"
    by (simp add: example_records_def printable_def tolower_def code_def)
  have ranges: "distinct example_records" "\<forall>r \<in> set example_records. IpFrom r < IpTo r"
    "\<forall>r \<in> set example_records. \<forall>s \<in> set example_records. r \<noteq> s \<longrightarrow> apart r s"
    by (simp_all add: example_records_def apart_def)
  note found = location_found_by_address [of "sort_key IpFrom" ?c "''db''" ?fs example_records,
      OF sorts path refl print ranges]
  from found obtain store where load: "Load (sort_key IpFrom) ?fs ?c = Inr store"
    and lookup: "\<forall>mk addr ip r. mk addr = Some ip \<longrightarrow>
      (GetLocationRecord mk store addr = Inr (Some r) \<longleftrightarrow> r \<in> set example_records \<and> IpFrom r \<le> ip \<and> ip < IpTo r)"
    by (elim exE conjE)
  have at: "GetLocationRecord (\<lambda>_. Some ip) store addr = Inr (Some r) \<longleftrightarrow>
      r \<in> set example_records \<and> IpFrom r \<le> ip \<and> ip < IpTo r" for ip addr r
    using lookup by metis
  have "example_records ! 0 \<in> set example_records \<and> IpFrom (example_records ! 0) \<le> 20 \<and> 20 < IpTo (example_records ! 0)"
    by (simp add: example_records_def)
  moreover have "\<not> (r \<in> set example_records \<and> IpFrom r \<le> 19 \<and> 19 < IpTo r)" for r
    by (auto simp: example_records_def)
  moreover have "example_records ! 0 =
      \<lparr>IpFrom = 20, IpTo = 30, CountryCode = ''us'', CountryName = ''United States, of America''\<rparr>"
    by (simp add: example_records_def)
  ultimately show ?thesis using load at by metis
qed

text \<open>A range of one address is never found.\<close>

lemma single_address_never_found:
  assumes "is_sorted (\<lambda>a b. IpFrom a < IpTo b) store" "\<forall>r \<in> set store. IpFrom r \<le> IpTo r"
    and "make_address_v4 addr = Some ip" "IpFrom r = IpTo r"
  shows "GetLocationRecord make_address_v4 store addr \<noteq> Inr (Some r)"
  using lookup_spec [of store make_address_v4 addr ip r] assms by auto

end
