(* ===== verification/SRP6.thy ===== *)
theory SRP6
  imports ByteConverter Text
begin

text \<open>
  \<^verbatim>\<open>src/common/Cryptography/BigNumber.cpp\<close> and \<^verbatim>\<open>Authentication/SRP6.cpp\<close>: large numbers, and the
  server's side of the SRP6 key agreement.

  The OpenSSL library is a parameter: \<open>'b\<close> is its \<open>BIGNUM\<close>, the record \<open>bn_lib\<close> its functions
  for the release the code is written for, and \<open>sha\<close> the SHA-1 digest of a sequence of
  bytes.  \<open>bn_laws\<close> states what its documentation says of the functions the key agreement uses, over the value
  \<open>val\<close> of a number; \<open>hash_length\<close> the length of a digest.
\<close>

section \<open>Big numbers\<close>

record 'b bn_lib =
  BN_new :: 'b
  BN_set_word :: "nat \<Rightarrow> 'b"
  BN_set_negative :: "bool \<Rightarrow> 'b \<Rightarrow> 'b"
  BN_add_word :: "'b \<Rightarrow> nat \<Rightarrow> 'b"
  BN_lshift :: "'b \<Rightarrow> nat \<Rightarrow> 'b"
  BN_bin2bn :: "bytes \<Rightarrow> 'b"
  BN_lebin2bn :: "bytes \<Rightarrow> 'b"
  BN_add :: "'b \<Rightarrow> 'b \<Rightarrow> 'b"
  BN_sub :: "'b \<Rightarrow> 'b \<Rightarrow> 'b"
  BN_mul :: "'b \<Rightarrow> 'b \<Rightarrow> 'b"
  BN_div :: "'b \<Rightarrow> 'b \<Rightarrow> 'b"
  BN_mod :: "'b \<Rightarrow> 'b \<Rightarrow> 'b"
  BN_cmp :: "'b \<Rightarrow> 'b \<Rightarrow> int"
  BN_exp :: "'b \<Rightarrow> 'b \<Rightarrow> 'b"
  BN_mod_exp :: "'b \<Rightarrow> 'b \<Rightarrow> 'b \<Rightarrow> 'b"
  BN_num_bytes :: "'b \<Rightarrow> nat"
  BN_get_word :: "'b \<Rightarrow> nat"
  BN_is_zero :: "'b \<Rightarrow> bool"
  BN_is_negative :: "'b \<Rightarrow> bool"
  BN_bn2lebinpad :: "'b \<Rightarrow> nat \<Rightarrow> bytes option"   \<comment> \<open>nothing when the number is too large\<close>
  BN_bn2binpad :: "'b \<Rightarrow> nat \<Rightarrow> bytes option"

definition SetDword_uint32 :: "'b bn_lib \<Rightarrow> uint32 \<Rightarrow> 'b" where
  "SetDword_uint32 lib v = BN_set_word lib (unat v)"

text \<open>The absolute value of the least \<open>int32\<close> is undefined.\<close>

definition SetDword_int32 :: "'b bn_lib \<Rightarrow> 32 word \<Rightarrow> 'b result" where
  "SetDword_int32 lib v =
     (if sint v = - (2 ^ 31) then Inl UndefinedBehaviour
      else let n = SetDword_uint32 lib (word_of_int \<bar>sint v\<bar>)
           in Inr (if sint v < 0 then BN_set_negative lib True n else n))"

definition SetQword :: "'b bn_lib \<Rightarrow> uint64 \<Rightarrow> 'b" where
  "SetQword lib v =
     BN_add_word lib (BN_lshift lib (BN_set_word lib (unat (ucast (drop_bit 32 v) :: uint32))) 32)
       (unat (ucast (v AND 0xFFFFFFFF) :: uint32))"

definition SetBinary :: "'b bn_lib \<Rightarrow> bytes \<Rightarrow> bool \<Rightarrow> 'b" where
  "SetBinary lib bs littleEndian = (if littleEndian then BN_lebin2bn lib bs else BN_bin2bn lib bs)"

definition bn_plus :: "'b bn_lib \<Rightarrow> 'b \<Rightarrow> 'b \<Rightarrow> 'b" where
  "bn_plus lib a b = BN_add lib a b"

definition bn_minus :: "'b bn_lib \<Rightarrow> 'b \<Rightarrow> 'b \<Rightarrow> 'b" where
  "bn_minus lib a b = BN_sub lib a b"

definition bn_times :: "'b bn_lib \<Rightarrow> 'b \<Rightarrow> 'b \<Rightarrow> 'b" where
  "bn_times lib a b = BN_mul lib a b"

definition bn_divide :: "'b bn_lib \<Rightarrow> 'b \<Rightarrow> 'b \<Rightarrow> 'b" where
  "bn_divide lib a b = BN_div lib a b"

definition bn_modulo :: "'b bn_lib \<Rightarrow> 'b \<Rightarrow> 'b \<Rightarrow> 'b" where
  "bn_modulo lib a b = BN_mod lib a b"

definition bn_shiftl :: "'b bn_lib \<Rightarrow> 'b \<Rightarrow> nat \<Rightarrow> 'b" where
  "bn_shiftl lib a n = BN_lshift lib a n"

definition CompareTo :: "'b bn_lib \<Rightarrow> 'b \<Rightarrow> 'b \<Rightarrow> int" where
  "CompareTo lib a b = BN_cmp lib a b"

definition Exp :: "'b bn_lib \<Rightarrow> 'b \<Rightarrow> 'b \<Rightarrow> 'b" where
  "Exp lib a b = BN_exp lib a b"

definition ModExp :: "'b bn_lib \<Rightarrow> 'b \<Rightarrow> 'b \<Rightarrow> 'b \<Rightarrow> 'b" where
  "ModExp lib a b m = BN_mod_exp lib a b m"

definition GetNumBytes :: "'b bn_lib \<Rightarrow> 'b \<Rightarrow> nat" where
  "GetNumBytes lib a = BN_num_bytes lib a"

definition AsDword :: "'b bn_lib \<Rightarrow> 'b \<Rightarrow> uint32" where
  "AsDword lib a = word_of_nat (BN_get_word lib a)"

definition IsZero :: "'b bn_lib \<Rightarrow> 'b \<Rightarrow> bool" where
  "IsZero lib a = BN_is_zero lib a"

definition IsNegative :: "'b bn_lib \<Rightarrow> 'b \<Rightarrow> bool" where
  "IsNegative lib a = BN_is_negative lib a"

text \<open>The assertion of \<open>GetBytes\<close> also fails for a buffer of no bytes.\<close>

definition GetBytes :: "'b bn_lib \<Rightarrow> 'b \<Rightarrow> nat \<Rightarrow> bool \<Rightarrow> bytes result" where
  "GetBytes lib a bufsize littleEndian =
     (case (if littleEndian then BN_bn2lebinpad lib a bufsize else BN_bn2binpad lib a bufsize) of
        None \<Rightarrow> Inl AssertionFailed
      | Some bs \<Rightarrow> if bufsize = 0 then Inl AssertionFailed else Inr bs)"

definition ToByteVector :: "'b bn_lib \<Rightarrow> 'b \<Rightarrow> nat \<Rightarrow> bool \<Rightarrow> bytes result" where
  "ToByteVector lib a minSize littleEndian = GetBytes lib a (max (GetNumBytes lib a) minSize) littleEndian"

definition ToByteArray :: "'b bn_lib \<Rightarrow> nat \<Rightarrow> 'b \<Rightarrow> bytes result" where
  "ToByteArray lib len a = GetBytes lib a len True"

text \<open>What the documentation of OpenSSL says of these functions.\<close>

definition bn_laws :: "'b bn_lib \<Rightarrow> ('b \<Rightarrow> int) \<Rightarrow> bool" where
  "bn_laws lib val \<longleftrightarrow>
     (\<forall>n < 2 ^ 64. val (BN_set_word lib n) = int n) \<and>
     (\<forall>a. \<forall>n < 2 ^ 64. val (BN_add_word lib a n) = val a + int n) \<and>
     (\<forall>a n. val (BN_lshift lib a n) = val a * 2 ^ n) \<and>
     (\<forall>bs. val (BN_lebin2bn lib bs) = int (le_nat bs)) \<and>
     (\<forall>a b. val (BN_add lib a b) = val a + val b) \<and>
     (\<forall>a b. val (BN_mul lib a b) = val a * val b) \<and>
     (\<forall>a m. 0 \<le> val a \<and> 0 < val m \<longrightarrow> val (BN_mod lib a m) = val a mod val m) \<and>
     (\<forall>a p m. 0 \<le> val a \<and> 0 \<le> val p \<and> 0 < val m \<longrightarrow> val (BN_mod_exp lib a p m) = val a ^ nat (val p) mod val m) \<and>
     (\<forall>a. BN_is_zero lib a \<longleftrightarrow> val a = 0) \<and>
     (\<forall>a n. 0 \<le> val a \<and> val a < 256 ^ n \<longrightarrow> BN_bn2lebinpad lib a n = Some (nat_le n (nat (val a))))"

section \<open>Digests\<close>

type_synonym digest = "bytes \<Rightarrow> bytes"

definition hash_length :: "nat \<Rightarrow> digest \<Rightarrow> bool" where
  "hash_length n h \<longleftrightarrow> (\<forall>bs. length (h bs) = n)"

text \<open>\<open>GetDigestOf\<close>: the data of every argument is fed to one context.\<close>

definition GetDigestOf :: "digest \<Rightarrow> bytes list \<Rightarrow> bytes" where
  "GetDigestOf h pack = h (concat pack)"

section \<open>Key agreement\<close>

definition srp_g :: bytes where
  "srp_g = [7]"

definition srp_N :: bytes where
  "srp_N = (case HexStrToByteArray ''894B645E89E1535BBDAD5B8B290650530801B18EBFBF5E8FAB3C82872A3E9BB7'' 32 True of
     Inr bs \<Rightarrow> bs | Inl _ \<Rightarrow> [])"

definition bn_g :: "'b bn_lib \<Rightarrow> 'b" where
  "bn_g lib = SetBinary lib srp_g True"

definition bn_N :: "'b bn_lib \<Rightarrow> 'b" where
  "bn_N lib = SetBinary lib srp_N True"

definition CalculateVerifier :: "'b bn_lib \<Rightarrow> digest \<Rightarrow> bytes \<Rightarrow> bytes \<Rightarrow> bytes \<Rightarrow> bytes result" where
  "CalculateVerifier lib sha username password salt =
     ToByteArray lib 32
       (ModExp lib (bn_g lib)
         (SetBinary lib (GetDigestOf sha [salt, GetDigestOf sha [username, [0x3A], password]]) True) (bn_N lib))"

text \<open>The random salt is an argument.\<close>

definition MakeRegistrationData :: "'b bn_lib \<Rightarrow> digest \<Rightarrow> bytes \<Rightarrow> bytes \<Rightarrow> bytes \<Rightarrow> (bytes \<times> bytes) result" where
  "MakeRegistrationData lib sha salt username password =
     rbind (CalculateVerifier lib sha username password salt) (\<lambda>v. Inr (salt, v))"

definition CheckLogin :: "'b bn_lib \<Rightarrow> digest \<Rightarrow> bytes \<Rightarrow> bytes \<Rightarrow> bytes \<Rightarrow> bytes \<Rightarrow> bool result" where
  "CheckLogin lib sha username password salt verifier =
     rbind (CalculateVerifier lib sha username password salt) (\<lambda>v. Inr (verifier = v))"

definition GetSessionVerifier :: "digest \<Rightarrow> bytes \<Rightarrow> bytes \<Rightarrow> bytes \<Rightarrow> bytes" where
  "GetSessionVerifier sha A clientM K = GetDigestOf sha [A, clientM, K]"

text \<open>The position of the first nonzero byte, made even, as an offset into the halves.\<close>

definition interleave_offset :: "bytes \<Rightarrow> nat" where
  "interleave_offset S =
     (let p = length (takeWhile (\<lambda>b. b = 0) (take 32 S)) in (if odd p then p + 1 else p) div 2)"

definition SHA1Interleave :: "digest \<Rightarrow> bytes \<Rightarrow> bytes" where
  "SHA1Interleave sha S =
     (let buf0 = map (\<lambda>i. S ! (2 * i)) [0..<16];
          buf1 = map (\<lambda>i. S ! (2 * i + 1)) [0..<16];
          p = interleave_offset S;
          hash0 = GetDigestOf sha [drop p buf0];
          hash1 = GetDigestOf sha [drop p buf1]
      in concat (map (\<lambda>i. [hash0 ! i, hash1 ! i]) [0..<20]))"

record 'b srp6 =
  srp_used :: bool
  srp_I :: bytes
  srp_b :: 'b
  srp_v :: 'b
  srp_s :: bytes
  srp_B :: bytes

definition SRP6_B :: "'b bn_lib \<Rightarrow> 'b \<Rightarrow> 'b \<Rightarrow> bytes result" where
  "SRP6_B lib b v =
     rbind (SetDword_int32 lib 3) (\<lambda>three.
       ToByteArray lib 32
         (bn_modulo lib (bn_plus lib (ModExp lib (bn_g lib) b (bn_N lib)) (bn_times lib v three))
           (SetBinary lib srp_N True)))"

text \<open>The constructor; the 32 random bytes of \<open>_b\<close> are an argument.\<close>

definition SRP6_new :: "'b bn_lib \<Rightarrow> digest \<Rightarrow> bytes \<Rightarrow> bytes \<Rightarrow> bytes \<Rightarrow> bytes \<Rightarrow> 'b srp6 result" where
  "SRP6_new lib sha random username salt verifier =
     (let b = SetBinary lib random True; v = SetBinary lib verifier True
      in rbind (SRP6_B lib b v) (\<lambda>B.
           Inr \<lparr>srp_used = False, srp_I = GetDigestOf sha [username], srp_b = b, srp_v = v, srp_s = salt, srp_B = B\<rparr>))"

definition VerifyChallengeResponse :: "'b bn_lib \<Rightarrow> digest \<Rightarrow> bytes \<Rightarrow> bytes \<Rightarrow> 'b srp6 \<Rightarrow> (bytes option \<times> 'b srp6) result" where
  "VerifyChallengeResponse lib sha A clientM srp =
     (if srp_used srp then Inl AssertionFailed
      else
        let srp = srp\<lparr>srp_used := True\<rparr>; bn_A = SetBinary lib A True
        in if IsZero lib (bn_modulo lib bn_A (bn_N lib)) then Inr (None, srp)
           else
             let u = SetBinary lib (GetDigestOf sha [A, srp_B srp]) True
             in rbind (ToByteArray lib 32
                    (ModExp lib (bn_times lib bn_A (ModExp lib (srp_v srp) u (bn_N lib))) (srp_b srp)
                      (SetBinary lib srp_N True))) (\<lambda>S.
                  let K = SHA1Interleave sha S;
                      NHash = GetDigestOf sha [srp_N];
                      gHash = GetDigestOf sha [srp_g];
                      NgHash = map2 (XOR) NHash gHash;
                      ourM = GetDigestOf sha [NgHash, srp_I srp, srp_s srp, A, srp_B srp, K]
                  in Inr (if ourM = clientM then Some K else None, srp)))"

section \<open>Values\<close>

definition n_val :: int where
  "n_val = 0x894B645E89E1535BBDAD5B8B290650530801B18EBFBF5E8FAB3C82872A3E9BB7"

definition srp_N_digits :: bytes where
  "srp_N_digits =
    [0x89, 0x4B, 0x64, 0x5E, 0x89, 0xE1, 0x53, 0x5B, 0xBD, 0xAD, 0x5B, 0x8B, 0x29, 0x06, 0x50, 0x53, 0x08, 0x01, 0xB1, 0x8E, 0xBF, 0xBF, 0x5E, 0x8F, 0xAB, 0x3C, 0x82, 0x87, 0x2A, 0x3E, 0x9B, 0xB7]"

lemma srp_N_hex: "concat (map hex_byte srp_N_digits) = ''894B645E89E1535BBDAD5B8B290650530801B18EBFBF5E8FAB3C82872A3E9BB7''"
  by code_simp

lemma srp_N_rev: "srp_N = rev srp_N_digits"
proof -
  have len: "length srp_N_digits = 32" by (simp add: srp_N_digits_def)
  have "HexStrToByteArray (concat (map hex_byte srp_N_digits)) 32 True = Inr (rev srp_N_digits)"
    using hex_string_decode_rev [of srp_N_digits] hex_string_length [of srp_N_digits] len
    by (simp add: HexStrToByteArray_def)
  then show ?thesis by (simp only: srp_N_def srp_N_hex sum.case)
qed

lemma srp_N_value: "int (le_nat srp_N) = n_val"
  by (simp add: srp_N_rev srp_N_digits_def n_val_def)

lemma n_val_bounds: "1 < n_val" "n_val < 256 ^ 32"
  by (simp_all add: n_val_def)

lemma coprime_g: "coprime 7 n_val"
proof (rule coprimeI)
  fix d :: int
  assume "d dvd 7" "d dvd n_val"
  then have "d dvd 7 * 44357190363682869530049640100644964188035541668571997806118886550209806177228 - n_val * 5" by (intro dvd_diff dvd_mult2)
  then show "is_unit d" by (simp add: n_val_def)
qed

lemma le_nat_32: "0 \<le> i \<Longrightarrow> i < 256 ^ 32 \<Longrightarrow> int (le_nat (nat_le 32 (nat i))) = i"
  by (simp add: le_nat_nat_le nat_less_iff)

lemma mod_n_range: "0 \<le> i mod n_val" "i mod n_val < n_val" "i mod n_val < 256 ^ 32"
proof -
  show "0 \<le> i mod n_val" "i mod n_val < n_val" using n_val_bounds by simp_all
  with n_val_bounds(2) show "i mod n_val < 256 ^ 32" by (meson less_trans)
qed

lemma bn_values:
  assumes "bn_laws lib val"
  shows "val (bn_g lib) = 7" "val (bn_N lib) = n_val"
    "val (SetBinary lib bs True) = int (le_nat bs)"
    "SetDword_int32 lib 3 = Inr three \<Longrightarrow> val three = 3" "is_ok (SetDword_int32 lib 3)"
    "val (bn_plus lib a b) = val a + val b"
    "val (bn_times lib a b) = val a * val b"
    "0 \<le> val a \<Longrightarrow> val m = n_val \<Longrightarrow> val (bn_modulo lib a m) = val a mod n_val"
    "0 \<le> val a \<Longrightarrow> 0 \<le> val b \<Longrightarrow> val m = n_val \<Longrightarrow> val (ModExp lib a b m) = val a ^ nat (val b) mod n_val"
    "IsZero lib a \<longleftrightarrow> val a = 0"
    "0 \<le> val a \<Longrightarrow> val a < 256 ^ 32 \<Longrightarrow> ToByteArray lib 32 a = Inr (nat_le 32 (nat (val a)))"
proof -
  note laws = assms [unfolded bn_laws_def]
  show bin: "val (SetBinary lib bs True) = int (le_nat bs)" for bs using laws by (simp add: SetBinary_def)
  show "val (bn_g lib) = 7" "val (bn_N lib) = n_val" by (simp_all add: bn_g_def bn_N_def bin srp_g_def srp_N_value)
  show "SetDword_int32 lib 3 = Inr three \<Longrightarrow> val three = 3" "is_ok (SetDword_int32 lib 3)"
    using laws by (auto simp: SetDword_int32_def SetDword_uint32_def Let_def)
  show "val (bn_plus lib a b) = val a + val b" "val (bn_times lib a b) = val a * val b"
    "IsZero lib a \<longleftrightarrow> val a = 0"
    using laws by (simp_all add: bn_plus_def bn_times_def IsZero_def)
  show "0 \<le> val a \<Longrightarrow> val m = n_val \<Longrightarrow> val (bn_modulo lib a m) = val a mod n_val"
    "0 \<le> val a \<Longrightarrow> 0 \<le> val b \<Longrightarrow> val m = n_val \<Longrightarrow> val (ModExp lib a b m) = val a ^ nat (val b) mod n_val"
    using laws n_val_bounds by (simp_all add: bn_modulo_def ModExp_def)
  show "0 \<le> val a \<Longrightarrow> val a < 256 ^ 32 \<Longrightarrow> ToByteArray lib 32 a = Inr (nat_le 32 (nat (val a)))"
    using laws by (simp add: ToByteArray_def GetBytes_def)
qed

text \<open>A 64-bit number is put together from its halves; the offset stays within the halves.\<close>

lemma SetQword_value:
  assumes "bn_laws lib val"
  shows "val (SetQword lib v) = int (unat v)"
proof -
  have hi: "unat (ucast (drop_bit 32 v) :: uint32) = unat v div 2 ^ 32"
    using unat_less [of v] by (simp add: unat_ucast unat_drop_bit less_mult_imp_div_less del: unat_less)
  have lo: "unat (ucast (v AND 0xFFFFFFFF) :: uint32) = unat v mod 2 ^ 32"
    using unat_and_mask [of "0xFFFFFFFF" 32 v] by (simp add: unat_ucast mask_eq_exp_minus_1)
  have "unat v div 2 ^ 32 < 2 ^ 64" "unat v mod 2 ^ 32 < 2 ^ 64"
    using unat_less [of v] by (simp_all add: less_mult_imp_div_less order.strict_trans [OF mod_less_divisor] del: unat_less)
  then have "val (SetQword lib v) = int (unat v div 2 ^ 32) * 2 ^ 32 + int (unat v mod 2 ^ 32)"
    using assms unfolding SetQword_def hi lo bn_laws_def by simp
  also have "\<dots> = int (unat v div 2 ^ 32 * 2 ^ 32 + unat v mod 2 ^ 32)"
    by (simp only: of_nat_add of_nat_mult of_nat_power of_nat_numeral)
  finally show ?thesis by (simp only: div_mult_mod_eq)
qed

lemma interleave_offset_bound: "interleave_offset S \<le> 16"
proof -
  have "length (takeWhile (\<lambda>b. b = 0) (take 32 S)) \<le> 32"
    using length_takeWhile_le [of "\<lambda>b. b = 0" "take 32 S"] by (simp add: order_trans)
  then show ?thesis unfolding interleave_offset_def Let_def by (auto elim!: oddE)
qed

section \<open>The client\<close>

text \<open>
  The other side of the protocol, as a specification over the integers: the client knows the
  user's name and password and a secret \<open>a\<close>, and receives the salt and \<open>B\<close>.
\<close>

definition client_x :: "digest \<Rightarrow> bytes \<Rightarrow> bytes \<Rightarrow> bytes \<Rightarrow> nat" where
  "client_x sha username password salt =
     le_nat (GetDigestOf sha [salt, GetDigestOf sha [username, [0x3A], password]])"

definition client_A :: "nat \<Rightarrow> bytes" where
  "client_A a = nat_le 32 (nat (7 ^ a mod n_val))"

definition client_K :: "digest \<Rightarrow> bytes \<Rightarrow> bytes \<Rightarrow> bytes \<Rightarrow> nat \<Rightarrow> bytes \<Rightarrow> bytes" where
  "client_K sha username password salt a B =
     (let x = client_x sha username password salt;
          u = le_nat (GetDigestOf sha [client_A a, B]);
          base = int (le_nat B) - 3 * (7 ^ x mod n_val)
      in SHA1Interleave sha (nat_le 32 (nat (base ^ (a + u * x) mod n_val))))"

definition client_M :: "digest \<Rightarrow> bytes \<Rightarrow> bytes \<Rightarrow> bytes \<Rightarrow> nat \<Rightarrow> bytes \<Rightarrow> bytes" where
  "client_M sha username password salt a B =
     GetDigestOf sha [map2 (XOR) (GetDigestOf sha [srp_N]) (GetDigestOf sha [srp_g]), GetDigestOf sha [username], salt,
       client_A a, B, client_K sha username password salt a B]"

text \<open>The two ways to the shared secret agree modulo \<open>N\<close>.\<close>

lemma shared_secret:
  fixes n :: int
  shows "((g ^ a mod n) * ((g ^ x mod n) ^ u mod n)) ^ b mod n =
    (((g ^ b mod n + 3 * (g ^ x mod n)) mod n) - 3 * (g ^ x mod n)) ^ (a + u * x) mod n"
proof -
  have "(g ^ a mod n) * ((g ^ x mod n) ^ u mod n) mod n = g ^ a * (g ^ x) ^ u mod n"
    by (simp add: power_mod mod_mult_left_eq mod_mult_right_eq)
  then have server: "((g ^ a mod n) * ((g ^ x mod n) ^ u mod n)) ^ b mod n = (g ^ a * (g ^ x) ^ u) ^ b mod n"
    by (metis power_mod)
  have "(((g ^ b mod n + 3 * (g ^ x mod n)) mod n) - 3 * (g ^ x mod n)) mod n = g ^ b mod n"
    by (simp add: mod_diff_left_eq)
  then have client: "(((g ^ b mod n + 3 * (g ^ x mod n)) mod n) - 3 * (g ^ x mod n)) ^ k mod n = (g ^ b) ^ k mod n" for k
    by (metis power_mod)
  have "(g ^ a * (g ^ x) ^ u) ^ b = (g ^ b) ^ (a + u * x)"
    by (simp add: power_mult [symmetric] power_add [symmetric] algebra_simps)
  then show ?thesis by (simp only: server client)
qed

lemma g_power_nonzero: "7 ^ a mod n_val \<noteq> 0"
proof
  assume "7 ^ a mod n_val = 0"
  then have "n_val dvd 7 ^ a" by (simp add: dvd_eq_mod_eq_0)
  moreover have "coprime (7 ^ a) n_val" using coprime_g by simp
  ultimately have "is_unit n_val" by (metis coprime_common_divisor dvd_refl)
  then show False using n_val_bounds(1) by simp
qed

lemma CalculateVerifier_value:
  assumes "bn_laws lib val"
  shows "CalculateVerifier lib sha username password salt =
    Inr (nat_le 32 (nat (7 ^ client_x sha username password salt mod n_val)))"
  unfolding CalculateVerifier_def client_x_def
  using mod_n_range bn_values [OF assms] by (subst bn_values(11) [OF assms]) simp_all

lemma SRP6_new_value:
  assumes "bn_laws lib val"
  shows "\<exists>srp. SRP6_new lib sha random username salt verifier = Inr srp \<and> \<not> srp_used srp \<and>
    srp_I srp = GetDigestOf sha [username] \<and> srp_s srp = salt \<and>
    val (srp_b srp) = int (le_nat random) \<and> val (srp_v srp) = int (le_nat verifier) \<and>
    srp_B srp = nat_le 32 (nat ((7 ^ le_nat random mod n_val + 3 * int (le_nat verifier)) mod n_val))"
proof -
  note v = bn_values [OF assms]
  obtain three where three: "SetDword_int32 lib 3 = Inr three" using v(5) by (auto simp: is_ok_iff)
  let ?b = "SetBinary lib random True" and ?v = "SetBinary lib verifier True"
  have "val (SetBinary lib srp_N True) = n_val" using v(2) by (simp add: bn_N_def)
  then have "SRP6_B lib ?b ?v =
      Inr (nat_le 32 (nat ((7 ^ le_nat random mod n_val + 3 * int (le_nat verifier)) mod n_val)))"
    unfolding SRP6_B_def three
    using mod_n_range n_val_bounds v(4) [OF three] v(1-3,6-9)
    by (simp only: rbind_Inr, subst v(11)) (simp_all add: mult.commute)
  then show ?thesis by (simp add: SRP6_new_def Let_def v(3))
qed

section \<open>Properties\<close>

text \<open>
  C36: the key agreement works.  For every user, password, salt and random choice of the two
  sides, registering the user and starting the agreement succeed, and the server accepts the
  proof of a client that knows the password, with the session key the client has computed.  The
  one multiplication by three and the reductions modulo \<open>N\<close> cancel, and the client's \<open>A\<close> is
  never taken for zero.
\<close>
theorem srp6_agreement:
  assumes "bn_laws lib val"
  shows "\<exists>verifier srp. CalculateVerifier lib sha username password salt = Inr verifier \<and>
    SRP6_new lib sha random username salt verifier = Inr srp \<and>
    VerifyChallengeResponse lib sha (client_A a) (client_M sha username password salt a (srp_B srp)) srp =
      Inr (Some (client_K sha username password salt a (srp_B srp)), srp\<lparr>srp_used := True\<rparr>)"
proof -
  note v = bn_values [OF assms]
  define x where "x = client_x sha username password salt"
  define verifier where "verifier = nat_le 32 (nat (7 ^ x mod n_val))"
  define b where "b = le_nat random"
  have verifier: "int (le_nat verifier) = 7 ^ x mod n_val"
    unfolding verifier_def using mod_n_range by (intro le_nat_32)
  obtain srp where new: "SRP6_new lib sha random username salt verifier = Inr srp" and unused: "\<not> srp_used srp"
    and srp: "srp_I srp = GetDigestOf sha [username]" "srp_s srp = salt" "val (srp_b srp) = int b"
      "val (srp_v srp) = 7 ^ x mod n_val"
    and B: "srp_B srp = nat_le 32 (nat ((7 ^ b mod n_val + 3 * (7 ^ x mod n_val)) mod n_val))"
    using SRP6_new_value [OF assms, of sha random username salt verifier] unfolding verifier b_def by auto
  have B_val: "int (le_nat (srp_B srp)) = (7 ^ b mod n_val + 3 * (7 ^ x mod n_val)) mod n_val"
    unfolding B using mod_n_range by (intro le_nat_32)
  let ?A = "client_A a" and ?bnA = "SetBinary lib (client_A a) True"
  have A: "val ?bnA = 7 ^ a mod n_val"
    unfolding v(3) client_A_def using mod_n_range by (intro le_nat_32)
  define u where "u = le_nat (GetDigestOf sha [?A, srp_B srp])"
  let ?u = "SetBinary lib (GetDigestOf sha [?A, srp_B srp]) True"
  have N: "val (SetBinary lib srp_N True) = n_val" using v(2) by (simp add: bn_N_def)
  have nonzero: "\<not> IsZero lib (bn_modulo lib ?bnA (bn_N lib))"
    using v(2,8,10) A g_power_nonzero n_val_bounds by simp
  let ?S = "ModExp lib (bn_times lib ?bnA (ModExp lib (srp_v srp) ?u (bn_N lib))) (srp_b srp) (SetBinary lib srp_N True)"
  have "val (ModExp lib (srp_v srp) ?u (bn_N lib)) = (7 ^ x mod n_val) ^ u mod n_val"
    using v(2,3,9) srp(4) mod_n_range(1) by (simp add: u_def)
  then have "val ?S = ((7 ^ a mod n_val) * ((7 ^ x mod n_val) ^ u mod n_val)) ^ b mod n_val"
    using v(7,9) N A srp(3) mod_n_range(1) by simp
  also have "\<dots> = (int (le_nat (srp_B srp)) - 3 * (7 ^ x mod n_val)) ^ (a + u * x) mod n_val"
    unfolding B_val by (rule shared_secret)
  finally have S: "ToByteArray lib 32 ?S =
      Inr (nat_le 32 (nat ((int (le_nat (srp_B srp)) - 3 * (7 ^ x mod n_val)) ^ (a + u * x) mod n_val)))"
    using v(11) [of ?S] mod_n_range by simp
  have "VerifyChallengeResponse lib sha ?A (client_M sha username password salt a (srp_B srp)) srp =
      Inr (Some (client_K sha username password salt a (srp_B srp)), srp\<lparr>srp_used := True\<rparr>)"
    using unused nonzero
    by (simp add: VerifyChallengeResponse_def Let_def S srp(1,2) client_M_def client_K_def x_def [symmetric] u_def)
  then show ?thesis
    using new CalculateVerifier_value [OF assms, of sha username password salt] by (auto simp: x_def verifier_def)
qed

text \<open>The integers with their operations are such a library.\<close>

definition int_lib :: "int bn_lib" where
  "int_lib = \<lparr>BN_new = 0, BN_set_word = int, BN_set_negative = (\<lambda>n a. if n then - a else a),
     BN_add_word = (\<lambda>a n. a + int n), BN_lshift = (\<lambda>a n. a * 2 ^ n),
     BN_bin2bn = (\<lambda>bs. int (le_nat (rev bs))), BN_lebin2bn = (\<lambda>bs. int (le_nat bs)),
     BN_add = (+), BN_sub = (-), BN_mul = (*), BN_div = (div), BN_mod = (mod),
     BN_cmp = (\<lambda>a b. sgn (a - b)), BN_exp = (\<lambda>a b. a ^ nat b), BN_mod_exp = (\<lambda>a p m. a ^ nat p mod m),
     BN_num_bytes = (\<lambda>a. 0), BN_get_word = nat, BN_is_zero = (\<lambda>a. a = 0), BN_is_negative = (\<lambda>a. a < 0),
     BN_bn2lebinpad = (\<lambda>a n. if 0 \<le> a \<and> a < 256 ^ n then Some (nat_le n (nat a)) else None),
     BN_bn2binpad = (\<lambda>a n. if 0 \<le> a \<and> a < 256 ^ n then Some (rev (nat_le n (nat a))) else None)\<rparr>"

lemma int_lib_laws: "bn_laws int_lib id"
  by (simp add: bn_laws_def int_lib_def)

theorem srp6_agreement_witness:
  "\<exists>verifier srp. CalculateVerifier int_lib (\<lambda>bs. replicate 20 (word_of_nat (length bs))) [0x41] [0x42] [1, 2] = Inr verifier \<and>
    SRP6_new int_lib (\<lambda>bs. replicate 20 (word_of_nat (length bs))) [5] [0x41] [1, 2] verifier = Inr srp \<and>
    VerifyChallengeResponse int_lib (\<lambda>bs. replicate 20 (word_of_nat (length bs))) (client_A 9)
        (client_M (\<lambda>bs. replicate 20 (word_of_nat (length bs))) [0x41] [0x42] [1, 2] 9 (srp_B srp)) srp =
      Inr (Some (client_K (\<lambda>bs. replicate 20 (word_of_nat (length bs))) [0x41] [0x42] [1, 2] 9 (srp_B srp)),
        srp\<lparr>srp_used := True\<rparr>)"
  by (rule srp6_agreement [OF int_lib_laws])

text \<open>
  What the server rejects.  Whatever the state of an agreement, an \<open>A\<close> that is a multiple of
  \<open>N\<close> is turned down without looking at the proof, a proof is accepted only if it is the digest
  over the session key that is returned, and a second attempt on one instance fails its
  assertion.
\<close>
theorem srp6_rejects:
  assumes "bn_laws lib val" "VerifyChallengeResponse lib sha A clientM srp = Inr (res, srp')"
  shows "(n_val dvd int (le_nat A) \<longrightarrow> res = None) \<and>
    (\<forall>K. res = Some K \<longrightarrow> clientM = GetDigestOf sha
      [map2 (XOR) (GetDigestOf sha [srp_N]) (GetDigestOf sha [srp_g]), srp_I srp, srp_s srp, A, srp_B srp, K]) \<and>
    VerifyChallengeResponse lib sha A' clientM' srp' = Inl AssertionFailed"
proof -
  note v = bn_values [OF assms(1)]
  have "IsZero lib (bn_modulo lib (SetBinary lib A True) (bn_N lib)) \<longleftrightarrow> n_val dvd int (le_nat A)"
    using v(2,3,8,10) by (simp add: dvd_eq_mod_eq_0)
  then show ?thesis
    using assms(2) by (auto simp: VerifyChallengeResponse_def Let_def rbind_eq_Inr split: if_splits)
qed

theorem srp6_rejects_witness:
  "\<exists>srp. VerifyChallengeResponse int_lib (\<lambda>bs. []) [0] [] srp = Inr (None, srp\<lparr>srp_used := True\<rparr>) \<and>
    VerifyChallengeResponse int_lib (\<lambda>bs. []) [1] [] (srp\<lparr>srp_used := True\<rparr>) = Inl AssertionFailed"
proof -
  let ?srp = "\<lparr>srp_used = False, srp_I = [], srp_b = 0, srp_v = 0, srp_s = [], srp_B = []\<rparr> :: int srp6"
  have "VerifyChallengeResponse int_lib (\<lambda>bs. []) [0] [] ?srp = Inr (None, ?srp\<lparr>srp_used := True\<rparr>)"
    by (simp add: VerifyChallengeResponse_def Let_def IsZero_def bn_modulo_def SetBinary_def int_lib_def)
  with srp6_rejects [OF int_lib_laws this] show ?thesis by blast
qed

end
