(* ===== verification/Crypto.thy ===== *)
theory Crypto
  imports SRP6
begin

text \<open>
  The rest of \<^verbatim>\<open>src/common/Cryptography\<close>: one-time passwords (\<^verbatim>\<open>TOTP.cpp\<close>), the generator of session
  keys (\<^verbatim>\<open>SessionKeyGenerator.h\<close>), authenticated encryption (\<^verbatim>\<open>CryptoGenerics.h\<close>, \<^verbatim>\<open>AES.cpp\<close>)
  and the encryption of a connection (\<^verbatim>\<open>ARC4.cpp\<close>, \<^verbatim>\<open>Authentication/AuthCrypt.cpp\<close>).

  OpenSSL is a parameter: \<open>hmac\<close> is HMAC-SHA1 of a key and data, \<open>evp\<close> the AES-GCM cipher,
  \<open>keystream\<close> the bytes the RC4 cipher adds for a key.  Random bytes are arguments.
\<close>

section \<open>One-time passwords\<close>

type_synonym mac = "bytes \<Rightarrow> bytes \<Rightarrow> bytes"

definition TOTP_INTERVAL :: int where
  "TOTP_INTERVAL = 30"

text \<open>Division of signed integers rounds towards zero, a right shift towards minus infinity.\<close>

definition c_div :: "int \<Rightarrow> int \<Rightarrow> int" where
  "c_div a b = sgn a * sgn b * (\<bar>a\<bar> div \<bar>b\<bar>)"

fun challenge_loop :: "nat \<Rightarrow> int \<Rightarrow> bytes \<Rightarrow> bytes" where
  "challenge_loop 0 timestamp challenge = challenge"
| "challenge_loop (Suc i) timestamp challenge =
     challenge_loop i (timestamp div 256) (challenge[i := word_of_int timestamp])"

definition truncate_digest :: "bytes \<Rightarrow> uint32" where
  "truncate_digest digest =
     (let offset = unat (digest ! 19 AND 0xF);
          byte = (\<lambda>i. ucast (digest ! (offset + i)) :: uint32)
      in (push_bit 24 (byte 0) OR push_bit 16 (byte 1) OR push_bit 8 (byte 2) OR byte 3) AND 0x7FFFFFFF)"

definition GenerateToken :: "mac \<Rightarrow> bytes \<Rightarrow> int \<Rightarrow> uint32" where
  "GenerateToken hmac secret timestamp =
     truncate_digest (hmac secret (challenge_loop 8 (c_div timestamp TOTP_INTERVAL) (replicate 8 0))) mod 1000000"

definition ValidateToken :: "mac \<Rightarrow> int \<Rightarrow> bytes \<Rightarrow> uint32 \<Rightarrow> bool" where
  "ValidateToken hmac now secret token \<longleftrightarrow>
     token = GenerateToken hmac secret (now - TOTP_INTERVAL) \<or>
     token = GenerateToken hmac secret now \<or>
     token = GenerateToken hmac secret (now + TOTP_INTERVAL)"

section \<open>Session keys\<close>

record session_key_generator =
  skg_o0 :: bytes
  skg_o1 :: bytes
  skg_o2 :: bytes
  skg_o0it :: nat

definition SessionKeyGenerator_new :: "nat \<Rightarrow> digest \<Rightarrow> bytes \<Rightarrow> session_key_generator" where
  "SessionKeyGenerator_new digestLength h buf =
     (let halflen = length buf div 2;
          o1 = GetDigestOf h [take halflen buf];
          o2 = GetDigestOf h [drop halflen buf]
      in \<lparr>skg_o0 = GetDigestOf h [o1, replicate digestLength 0, o2], skg_o1 = o1, skg_o2 = o2, skg_o0it = 0\<rparr>)"

definition refill :: "digest \<Rightarrow> session_key_generator \<Rightarrow> session_key_generator" where
  "refill h g =
     (if skg_o0it g = length (skg_o0 g)
      then g\<lparr>skg_o0 := GetDigestOf h [skg_o1 g, skg_o0 g, skg_o2 g], skg_o0it := 0\<rparr> else g)"

fun Generate :: "digest \<Rightarrow> nat \<Rightarrow> session_key_generator \<Rightarrow> bytes \<times> session_key_generator" where
  "Generate h 0 g = ([], g)"
| "Generate h (Suc sz) g =
     (let g = refill h g;
          b = skg_o0 g ! skg_o0it g;
          (bs, g) = Generate h sz (g\<lparr>skg_o0it := skg_o0it g + 1\<rparr>)
      in (b # bs, g))"

section \<open>Authenticated encryption\<close>

definition AppendToBack :: "bytes \<Rightarrow> bytes \<Rightarrow> bytes" where
  "AppendToBack dat tail = dat @ tail"

fun split_loop :: "nat \<Rightarrow> bytes \<Rightarrow> bytes \<Rightarrow> bytes \<times> bytes" where
  "split_loop 0 dat tail = (dat, tail)"
| "split_loop (Suc n) dat tail = split_loop n (butlast dat) (List.last dat # tail)"

definition SplitFromBack :: "nat \<Rightarrow> bytes \<Rightarrow> (bytes \<times> bytes) result" where
  "SplitFromBack n dat = (if length dat < n then Inl AssertionFailed else Inr (split_loop n dat []))"

definition IV_SIZE_BYTES :: nat where "IV_SIZE_BYTES = 12"
definition KEY_SIZE_BYTES :: nat where "KEY_SIZE_BYTES = 16"
definition TAG_SIZE_BYTES :: nat where "TAG_SIZE_BYTES = 12"

text \<open>
  The cipher: whether to encrypt, the key, the initial vector, the data and the tag, to
  whether it worked and the data and the tag it leaves.
\<close>

type_synonym cipher = "bool \<Rightarrow> bytes \<Rightarrow> bytes \<Rightarrow> bytes \<Rightarrow> bytes \<Rightarrow> bool \<times> bytes \<times> bytes"

definition AES_Process :: "cipher \<Rightarrow> bool \<Rightarrow> bytes \<Rightarrow> bytes \<Rightarrow> bytes \<Rightarrow> bytes \<Rightarrow> (bool \<times> bytes \<times> bytes) result" where
  "AES_Process evp encrypting key iv dat tag =
     (if 2 ^ 31 - 1 < length dat then Inl AssertionFailed else Inr (evp encrypting key iv dat tag))"

definition AEEncryptWithRandomIV :: "cipher \<Rightarrow> bytes \<Rightarrow> bytes \<Rightarrow> bytes \<Rightarrow> bytes \<Rightarrow> bytes result" where
  "AEEncryptWithRandomIV evp iv tag0 key dat =
     rbind (AES_Process evp True key iv dat tag0) (\<lambda>(success, dat, tag).
       if \<not> success then Inl AssertionFailed else Inr (AppendToBack (AppendToBack dat iv) tag))"

definition AEDecrypt :: "cipher \<Rightarrow> bytes \<Rightarrow> bytes \<Rightarrow> (bool \<times> bytes) result" where
  "AEDecrypt evp key dat =
     rbind (SplitFromBack TAG_SIZE_BYTES dat) (\<lambda>(dat, tag).
     rbind (SplitFromBack IV_SIZE_BYTES dat) (\<lambda>(dat, iv).
     rbind (AES_Process evp False key iv dat tag) (\<lambda>(success, dat, tag). Inr (success, dat))))"

text \<open>What is documented of the cipher: it inverts itself under the same key, vector and tag.\<close>

definition aead_laws :: "cipher \<Rightarrow> bool" where
  "aead_laws evp \<longleftrightarrow>
     (\<forall>key iv dat tag0. length key = KEY_SIZE_BYTES \<and> length iv = IV_SIZE_BYTES \<and> length tag0 = TAG_SIZE_BYTES \<longrightarrow>
        (case evp True key iv dat tag0 of (success, c, tag) \<Rightarrow>
           success \<and> length c = length dat \<and> length tag = TAG_SIZE_BYTES \<and>
           fst (evp False key iv c tag) \<and> fst (snd (evp False key iv c tag)) = dat))"

section \<open>Encryption of a connection\<close>

type_synonym stream_cipher = "bytes \<Rightarrow> nat \<Rightarrow> uint8"

text \<open>A cipher context: its key once it has one, and how many bytes it has processed.\<close>

record arc4 =
  rc_key :: "bytes option"
  rc_pos :: nat

definition ARC4_new :: arc4 where
  "ARC4_new = \<lparr>rc_key = None, rc_pos = 0\<rparr>"

definition ARC4_Init :: "bytes \<Rightarrow> arc4 \<Rightarrow> arc4" where
  "ARC4_Init seed rc = \<lparr>rc_key = Some seed, rc_pos = 0\<rparr>"

definition ARC4_UpdateData :: "stream_cipher \<Rightarrow> bytes \<Rightarrow> arc4 \<Rightarrow> (bytes \<times> arc4) result" where
  "ARC4_UpdateData keystream dat rc =
     (case rc_key rc of
        None \<Rightarrow> Inl UndefinedBehaviour
      | Some key \<Rightarrow> Inr (map2 (\<lambda>i b. b XOR keystream key i) [rc_pos rc..<rc_pos rc + length dat] dat,
                         rc\<lparr>rc_pos := rc_pos rc + length dat\<rparr>))"

record auth_crypt =
  ac_clientDecrypt :: arc4
  ac_serverEncrypt :: arc4
  ac_initialized :: bool

definition AuthCrypt_new :: auth_crypt where
  "AuthCrypt_new = \<lparr>ac_clientDecrypt = ARC4_new, ac_serverEncrypt = ARC4_new, ac_initialized = False\<rparr>"

definition ServerEncryptionKey :: bytes where
  "ServerEncryptionKey = [0xCC, 0x98, 0xAE, 0x04, 0xE8, 0x97, 0xEA, 0xCA, 0x12, 0xDD, 0xC0, 0x93, 0x42, 0x91, 0x53, 0x57]"

definition ServerDecryptionKey :: bytes where
  "ServerDecryptionKey = [0xC2, 0xB3, 0x72, 0x3C, 0xC6, 0xAE, 0xD9, 0xB5, 0x34, 0x3C, 0x53, 0xEE, 0x2F, 0x43, 0x67, 0xCE]"

text \<open>The buffer that is thrown away is not initialised: its bytes are an argument.\<close>

definition AuthCrypt_Init :: "mac \<Rightarrow> stream_cipher \<Rightarrow> bytes \<Rightarrow> bytes \<Rightarrow> auth_crypt \<Rightarrow> auth_crypt result" where
  "AuthCrypt_Init hmac keystream syncBuf K ac =
     rbind (ARC4_UpdateData keystream syncBuf (ARC4_Init (hmac ServerEncryptionKey K) (ac_serverEncrypt ac))) (\<lambda>(syncBuf, enc).
     rbind (ARC4_UpdateData keystream syncBuf (ARC4_Init (hmac ServerDecryptionKey K) (ac_clientDecrypt ac))) (\<lambda>(syncBuf, dec).
       Inr \<lparr>ac_clientDecrypt = dec, ac_serverEncrypt = enc, ac_initialized = True\<rparr>))"

definition DecryptRecv :: "stream_cipher \<Rightarrow> bytes \<Rightarrow> auth_crypt \<Rightarrow> (bytes \<times> auth_crypt) result" where
  "DecryptRecv keystream dat ac =
     (if \<not> ac_initialized ac then Inl AssertionFailed
      else rbind (ARC4_UpdateData keystream dat (ac_clientDecrypt ac)) (\<lambda>(dat, rc). Inr (dat, ac\<lparr>ac_clientDecrypt := rc\<rparr>)))"

definition EncryptSend :: "stream_cipher \<Rightarrow> bytes \<Rightarrow> auth_crypt \<Rightarrow> (bytes \<times> auth_crypt) result" where
  "EncryptSend keystream dat ac =
     (if \<not> ac_initialized ac then Inl AssertionFailed
      else rbind (ARC4_UpdateData keystream dat (ac_serverEncrypt ac)) (\<lambda>(dat, rc). Inr (dat, ac\<lparr>ac_serverEncrypt := rc\<rparr>)))"

section \<open>Lemmas\<close>

lemma challenge_loop_bytes:
  assumes "length challenge = n + length suffix" "drop n challenge = suffix" "0 \<le> t"
  shows "challenge_loop n t challenge = rev (nat_le n (nat t)) @ suffix"
  using assms
proof (induction n arbitrary: t challenge suffix)
  case (Suc n)
  let ?b = "word_of_int t :: uint8"
  have "drop n (challenge[n := ?b]) = ?b # suffix"
    using Suc.prems(1,2) by (simp add: drop_update_swap Cons_nth_drop_Suc [symmetric, of n challenge])
  moreover have "nat t div 256 = nat (t div 256)" by (simp add: nat_div_distrib)
  moreover have "(word_of_nat (nat t mod 256) :: uint8) = ?b"
    using Suc.prems(3) by (simp add: word_uint_eq_iff unsigned_of_int unsigned_of_nat take_bit_eq_mod nat_mod_distrib)
  ultimately show ?case
    using Suc.IH [of "challenge[n := ?b]" "?b # suffix" "t div 256"] Suc.prems by simp
qed simp

lemma unat_big_endian:
  fixes b0 b1 b2 b3 :: uint8
  shows "unat (push_bit 24 (ucast b0 :: uint32) OR push_bit 16 (ucast b1) OR push_bit 8 (ucast b2) OR ucast b3) =
    le_nat [b3, b2, b1, b0]"
proof -
  have bytes: "unat b0 < 256" "unat b1 < 256" "unat b2 < 256" "unat b3 < 256" by simp_all
  have u: "unat (ucast b :: uint32) = unat b" for b :: uint8 by (simp add: unat_ucast order.strict_trans [OF unat_byte_less])
  have p: "unat (push_bit 24 (ucast b0 :: uint32)) = unat b0 * 2 ^ 24" "unat (push_bit 16 (ucast b1 :: uint32)) = unat b1 * 2 ^ 16"
    "unat (push_bit 8 (ucast b2 :: uint32)) = unat b2 * 2 ^ 8"
    using bytes by (simp_all add: unat_push_bit u)
  have o1: "unat b2 * 2 ^ 8 OR unat b3 = unat b3 + unat b2 * 2 ^ 8"
    using or_add_nat [of "unat b3" 8 "unat b2 * 2 ^ 8"] bytes by (simp add: or.commute)
  have o2: "unat b1 * 2 ^ 16 OR (unat b3 + unat b2 * 2 ^ 8) = unat b3 + unat b2 * 2 ^ 8 + unat b1 * 2 ^ 16"
    using or_add_nat [of "unat b3 + unat b2 * 2 ^ 8" 16 "unat b1 * 2 ^ 16"] bytes by (simp add: or.commute)
  have o3: "unat b0 * 2 ^ 24 OR (unat b3 + unat b2 * 2 ^ 8 + unat b1 * 2 ^ 16) =
      unat b3 + unat b2 * 2 ^ 8 + unat b1 * 2 ^ 16 + unat b0 * 2 ^ 24"
    using or_add_nat [of "unat b3 + unat b2 * 2 ^ 8 + unat b1 * 2 ^ 16" 24 "unat b0 * 2 ^ 24"] bytes by (simp add: or.commute)
  show ?thesis unfolding unat_or p u o1 o2 o3 by simp
qed

lemma unat_truncate:
  assumes "length d = 20"
  shows "unat (truncate_digest d) = le_nat (rev (take 4 (drop (unat (List.last d AND 0xF)) d))) mod 2 ^ 31"
proof -
  define off where "off = unat (d ! 19 AND 0xF)"
  have last: "List.last d = d ! 19" using assms by (cases d) (auto simp: last_conv_nth)
  have "off < 16" unfolding off_def using unat_and_mask [of "0xF" 4 "d ! 19"] by (simp add: mask_eq_exp_minus_1)
  then have four: "take 4 (drop off d) = [d ! off, d ! (off + 1), d ! (off + 2), d ! (off + 3)]"
    using assms by (simp add: take_Suc_conv_app_nth eval_nat_numeral)
  have "unat (truncate_digest d) = le_nat [d ! (off + 3), d ! (off + 2), d ! (off + 1), d ! off] mod 2 ^ 31"
    unfolding truncate_digest_def Let_def off_def [symmetric]
    by (subst unat_and_mask [where n = 31]) (simp_all add: mask_eq_exp_minus_1 unat_big_endian [simplified])
  then show ?thesis by (simp add: last off_def [symmetric] four)
qed

text \<open>Processing data in pieces.\<close>

fun process_all :: "(bytes \<Rightarrow> 's \<Rightarrow> (bytes \<times> 's) result) \<Rightarrow> bytes list \<Rightarrow> 's \<Rightarrow> (bytes \<times> 's) result" where
  "process_all process [] s = Inr ([], s)"
| "process_all process (c # cs) s =
     rbind (process c s) (\<lambda>(a, s). rbind (process_all process cs s) (\<lambda>(b, s). Inr (a @ b, s)))"

text \<open>
  The interface of a cipher whose state only counts: in a state that is ready, the result for
  data in two pieces is that for the whole.
\<close>

locale piecewise =
  fixes process :: "bytes \<Rightarrow> 's \<Rightarrow> (bytes \<times> 's) result"
    and ready :: "'s \<Rightarrow> bool"
  assumes process_ready: "ready s \<Longrightarrow> \<exists>out s'. process dat s = Inr (out, s') \<and> ready s' \<and> length out = length dat"
    and process_empty: "ready s \<Longrightarrow> process [] s = Inr ([], s)"
    and process_append: "ready s \<Longrightarrow>
      process (xs @ ys) s = rbind (process xs s) (\<lambda>(a, s). rbind (process ys s) (\<lambda>(b, s). Inr (a @ b, s)))"
begin

lemma pieces: "ready s \<Longrightarrow> process_all process cs s = process (concat cs) s"
proof (induction cs arbitrary: s)
  case (Cons c cs)
  obtain a s' where "process c s = Inr (a, s')" "ready s'" using process_ready [OF Cons.prems] by blast
  then show ?case using process_append [OF Cons.prems, of c "concat cs"] Cons.IH by simp
qed (simp add: process_empty)

lemma cut_irrelevant:
  assumes "ready s" "concat cs = concat cs'"
  shows "process_all process cs s = process_all process cs' s"
  using pieces [OF assms(1)] assms(2) by simp

end

lemma ARC4_append:
  assumes "rc_key rc = Some key"
  shows "ARC4_UpdateData keystream (xs @ ys) rc =
    rbind (ARC4_UpdateData keystream xs rc) (\<lambda>(a, rc). rbind (ARC4_UpdateData keystream ys rc) (\<lambda>(b, rc). Inr (a @ b, rc)))"
proof -
  have "[rc_pos rc..<rc_pos rc + length (xs @ ys)] =
      [rc_pos rc..<rc_pos rc + length xs] @ [rc_pos rc + length xs..<rc_pos rc + length xs + length ys]"
    using upt_add_eq_append [of "rc_pos rc" "rc_pos rc + length xs" "length ys"] by (simp add: add.assoc)
  then show ?thesis using assms by (simp add: ARC4_UpdateData_def add.assoc)
qed

interpretation arc4: piecewise "ARC4_UpdateData keystream" "\<lambda>rc. rc_key rc \<noteq> None" for keystream
proof unfold_locales
  fix s :: arc4 and dat xs ys
  assume "rc_key s \<noteq> None"
  then obtain key where key: "rc_key s = Some key" by blast
  show "\<exists>out s'. ARC4_UpdateData keystream dat s = Inr (out, s') \<and> rc_key s' \<noteq> None \<and> length out = length dat"
    "ARC4_UpdateData keystream [] s = Inr ([], s)"
    using key by (simp_all add: ARC4_UpdateData_def)
  show "ARC4_UpdateData keystream (xs @ ys) s =
      rbind (ARC4_UpdateData keystream xs s) (\<lambda>(a, s). rbind (ARC4_UpdateData keystream ys s) (\<lambda>(b, s). Inr (a @ b, s)))"
    by (rule ARC4_append [OF key])
qed

definition crypt_ready :: "auth_crypt \<Rightarrow> bool" where
  "crypt_ready ac \<longleftrightarrow> ac_initialized ac \<and> rc_key (ac_serverEncrypt ac) \<noteq> None \<and> rc_key (ac_clientDecrypt ac) \<noteq> None"

interpretation encrypt_send: piecewise "EncryptSend keystream" crypt_ready for keystream
proof unfold_locales
  fix s :: auth_crypt and dat xs ys
  assume r: "crypt_ready s"
  then obtain key where key: "rc_key (ac_serverEncrypt s) = Some key" by (auto simp: crypt_ready_def)
  show "\<exists>out s'. EncryptSend keystream dat s = Inr (out, s') \<and> crypt_ready s' \<and> length out = length dat"
    "EncryptSend keystream [] s = Inr ([], s)"
    using r key by (auto simp: EncryptSend_def ARC4_UpdateData_def crypt_ready_def)
  show "EncryptSend keystream (xs @ ys) s =
      rbind (EncryptSend keystream xs s) (\<lambda>(a, s). rbind (EncryptSend keystream ys s) (\<lambda>(b, s). Inr (a @ b, s)))"
    using r key ARC4_append [OF key, of keystream xs ys]
    by (auto simp: EncryptSend_def crypt_ready_def ARC4_UpdateData_def)
qed

interpretation decrypt_recv: piecewise "DecryptRecv keystream" crypt_ready for keystream
proof unfold_locales
  fix s :: auth_crypt and dat xs ys
  assume r: "crypt_ready s"
  then obtain key where key: "rc_key (ac_clientDecrypt s) = Some key" by (auto simp: crypt_ready_def)
  show "\<exists>out s'. DecryptRecv keystream dat s = Inr (out, s') \<and> crypt_ready s' \<and> length out = length dat"
    "DecryptRecv keystream [] s = Inr ([], s)"
    using r key by (auto simp: DecryptRecv_def ARC4_UpdateData_def crypt_ready_def)
  show "DecryptRecv keystream (xs @ ys) s =
      rbind (DecryptRecv keystream xs s) (\<lambda>(a, s). rbind (DecryptRecv keystream ys s) (\<lambda>(b, s). Inr (a @ b, s)))"
    using r key ARC4_append [OF key, of keystream xs ys]
    by (auto simp: DecryptRecv_def crypt_ready_def ARC4_UpdateData_def)
qed

text \<open>Encrypting twice from the same place of the key stream gives the data back.\<close>

lemma ARC4_involution:
  assumes "ARC4_UpdateData keystream dat rc = Inr (out, rc')" "rc_key rc2 = rc_key rc" "rc_pos rc2 = rc_pos rc"
  shows "\<exists>rc''. ARC4_UpdateData keystream out rc2 = Inr (dat, rc'')"
proof -
  obtain key where key: "rc_key rc = Some key" and out: "out = map2 (\<lambda>i b. b XOR keystream key i) [rc_pos rc..<rc_pos rc + length dat] dat"
    using assms(1) by (auto simp: ARC4_UpdateData_def split: option.splits)
  have "map2 (\<lambda>i b. b XOR keystream key i) [rc_pos rc..<rc_pos rc + length dat] out = dat"
    unfolding out by (rule nth_equalityI) (simp_all add: xor.assoc)
  moreover have "length out = length dat" by (simp add: out)
  ultimately show ?thesis using assms(2,3) key by (simp add: ARC4_UpdateData_def)
qed

text \<open>The blocks of a session key: the digests the generator goes through.\<close>

fun key_block :: "nat \<Rightarrow> digest \<Rightarrow> bytes \<Rightarrow> nat \<Rightarrow> bytes" where
  "key_block n h buf 0 = h (h (take (length buf div 2) buf) @ replicate n 0 @ h (drop (length buf div 2) buf))"
| "key_block n h buf (Suc k) = h (h (take (length buf div 2) buf) @ key_block n h buf k @ h (drop (length buf div 2) buf))"

definition in_block :: "nat \<Rightarrow> digest \<Rightarrow> bytes \<Rightarrow> nat \<Rightarrow> nat \<Rightarrow> session_key_generator \<Rightarrow> bool" where
  "in_block n h buf k i g \<longleftrightarrow> i \<le> n \<and>
     g = \<lparr>skg_o0 = key_block n h buf k, skg_o1 = h (take (length buf div 2) buf), skg_o2 = h (drop (length buf div 2) buf),
          skg_o0it = i\<rparr>"

lemma length_key_block: "hash_length n h \<Longrightarrow> length (key_block n h buf k) = n"
  by (cases k) (simp_all add: hash_length_def)

text \<open>The stream of bytes from a position on: byte \<open>j\<close> of the key is byte \<open>j mod n\<close> of block \<open>j div n\<close>.\<close>

lemma Generate_stream:
  assumes "hash_length n h" "0 < n" "in_block n h buf k i g"
  shows "fst (Generate h sz g) = map (\<lambda>j. key_block n h buf (j div n) ! (j mod n)) [k * n + i..<k * n + i + sz]"
  using assms(3)
proof (induction sz arbitrary: k i g)
  case (Suc sz)
  define k' i' where "k' = (if i = n then Suc k else k)" and "i' = (if i = n then 0 else i)"
  have pos: "k' * n + i' = k * n + i" and i': "i' < n" using Suc.prems assms(2) by (auto simp: k'_def i'_def in_block_def)
  have refill: "in_block n h buf k' i' (refill h g)"
    using Suc.prems length_key_block [OF assms(1), of buf k]
    by (auto simp: in_block_def refill_def GetDigestOf_def k'_def i'_def)
  then have byte: "skg_o0 (refill h g) ! skg_o0it (refill h g) = key_block n h buf k' ! i'" by (simp add: in_block_def)
  have "in_block n h buf k' (Suc i') (refill h g\<lparr>skg_o0it := skg_o0it (refill h g) + 1\<rparr>)"
    using refill i' by (simp add: in_block_def)
  from Suc.IH [OF this] have rest: "fst (Generate h sz (refill h g\<lparr>skg_o0it := skg_o0it (refill h g) + 1\<rparr>)) =
      map (\<lambda>j. key_block n h buf (j div n) ! (j mod n)) [Suc (k' * n + i')..<Suc (k' * n + i') + sz]" by simp
  have "(k' * n + i') div n = k'" "(k' * n + i') mod n = i'" using i' by simp_all
  then show ?case
    using byte rest by (simp add: Let_def split_def upt_conv_Cons flip: pos del: upt_Suc)
qed simp

lemma new_in_block: "in_block n h buf 0 0 (SessionKeyGenerator_new n h buf)"
  by (simp add: in_block_def SessionKeyGenerator_new_def GetDigestOf_def Let_def)

text \<open>Cutting bytes off the back.\<close>

lemma split_loop_append: "split_loop (length t) (dat @ t) acc = (dat, t @ acc)"
proof (induction t arbitrary: acc rule: rev_induct)
  case (snoc x xs)
  then show ?case by (simp add: butlast_append flip: append_assoc)
qed simp

lemma SplitFromBack_append: "n = length t \<Longrightarrow> SplitFromBack n (dat @ t) = Inr (dat, t)"
  by (simp add: SplitFromBack_def split_loop_append)

lemma split_loop_length: "n \<le> length dat \<Longrightarrow> length (fst (split_loop n dat acc)) = length dat - n"
  by (induction n arbitrary: dat acc) simp_all

section \<open>Properties\<close>

text \<open>
  One-time passwords follow their standard.  For a time after the epoch the token is the
  HMAC of the number of the half minute as eight bytes, most significant first, truncated to 31
  bits at the offset its last byte gives and reduced to six digits; no access leaves the digest.
  A token made at one time is accepted at every time whose half minute is the same or a
  neighbour.
\<close>
theorem totp_standard:
  assumes "\<forall>key bs. length (hmac key bs) = 20" "0 \<le> t" "30 \<le> now"
  shows "unat (GenerateToken hmac secret t) =
      (let d = hmac secret (rev (nat_le 8 (nat t div 30)))
       in le_nat (rev (take 4 (drop (unat (List.last d AND 0xF)) d))) mod 2 ^ 31 mod 10 ^ 6) \<and>
    (\<bar>t div 30 - now div 30\<bar> \<le> 1 \<longrightarrow> ValidateToken hmac now secret (GenerateToken hmac secret t))"
proof -
  have div: "c_div i TOTP_INTERVAL = i div 30" if "0 \<le> i" for i
    using that by (simp add: c_div_def TOTP_INTERVAL_def sgn_if)
  have token: "unat (GenerateToken hmac secret t) =
      (let d = hmac secret (rev (nat_le 8 (nat t div 30)))
       in le_nat (rev (take 4 (drop (unat (List.last d AND 0xF)) d))) mod 2 ^ 31 mod 10 ^ 6)"
    using assms(1,2) challenge_loop_bytes [of "replicate 8 0" 8 "[]" "t div 30"]
    by (simp add: GenerateToken_def div unat_mod unat_truncate Let_def nat_div_distrib)
  have same: "GenerateToken hmac secret t = GenerateToken hmac secret s" if "0 \<le> s" "t div 30 = s div 30" for s
    using that assms(2) by (simp add: GenerateToken_def div)
  have "t div 30 = now div 30 \<or> t div 30 = (now - 30) div 30 \<or> t div 30 = (now + 30) div 30"
    if "\<bar>t div 30 - now div 30\<bar> \<le> 1"
    using that by linarith
  then have "\<bar>t div 30 - now div 30\<bar> \<le> 1 \<longrightarrow> ValidateToken hmac now secret (GenerateToken hmac secret t)"
    using same assms(3) unfolding ValidateToken_def TOTP_INTERVAL_def by fastforce
  with token show ?thesis by blast
qed

definition example_digest :: bytes where
  "example_digest = [1, 1, 1, 1, 1, 1, 1, 1, 1, 1, 1, 1, 1, 1, 1, 1, 2, 3, 4, 5]"

theorem totp_standard_witness:
  "ValidateToken (\<lambda>_ _. example_digest) 95 [] (GenerateToken (\<lambda>_ _. example_digest) [] 60) \<and>
    unat (GenerateToken (\<lambda>_ _. example_digest) [] 60) = 843009"
proof -
  have "length example_digest = 20" "take 4 (drop (unat (List.last example_digest AND 0xF)) example_digest) = [1, 1, 1, 1]"
    by (simp_all add: example_digest_def)
  then show ?thesis
    using totp_standard [of "\<lambda>_ _. example_digest" 60 95 "[]"] by (simp add: Let_def)
qed



text \<open>
  The generator of session keys is a stream.  However many bytes are asked for, the result is
  the beginning of the sequence of digests, each over the two halves' digests and its
  predecessor; every block is used to its last byte before the next is made.
\<close>
theorem session_key_stream:
  assumes "hash_length n h" "0 < n"
  shows "fst (Generate h sz (SessionKeyGenerator_new n h buf)) =
    map (\<lambda>j. key_block n h buf (j div n) ! (j mod n)) [0..<sz]"
  using Generate_stream [OF assms new_in_block, of sz buf] by simp

theorem session_key_stream_witness:
  "fst (Generate (\<lambda>bs. [word_of_nat (length bs), hd (bs @ [7])]) 3 (SessionKeyGenerator_new 2 (\<lambda>bs. [word_of_nat (length bs), hd (bs @ [7])]) [9, 8])) =
    [6, 1, 6]"
  using session_key_stream [of 2 "\<lambda>bs. [word_of_nat (length bs), hd (bs @ [7])]" 3 "[9, 8]"]
  by (simp add: hash_length_def upt_conv_Cons)

text \<open>
  Authenticated encryption round trip.  With a cipher that inverts itself, what was encrypted
  with any key and vector is decrypted to the same data; and data too short to hold the vector
  and the tag fails an assertion instead of being rejected.
\<close>
theorem authenticated_encryption_round_trip:
  assumes "aead_laws evp" "length key = KEY_SIZE_BYTES" "length iv = IV_SIZE_BYTES" "length tag0 = TAG_SIZE_BYTES"
    and "length dat < 2 ^ 31" "length short < IV_SIZE_BYTES + TAG_SIZE_BYTES"
  shows "(\<exists>c. AEEncryptWithRandomIV evp iv tag0 key dat = Inr c \<and> AEDecrypt evp key c = Inr (True, dat)) \<and>
    AEDecrypt evp key short = Inl AssertionFailed"
proof
  obtain success c tag where c: "evp True key iv dat tag0 = (success, c, tag)" by (cases "evp True key iv dat tag0")
  have "case evp True key iv dat tag0 of (success, c, tag) \<Rightarrow>
      success \<and> length c = length dat \<and> length tag = TAG_SIZE_BYTES \<and>
      fst (evp False key iv c tag) \<and> fst (snd (evp False key iv c tag)) = dat"
    by (rule assms(1) [unfolded aead_laws_def, rule_format]) (use assms(2-4) in simp)
  then have "success" "length c = length dat" "length tag = TAG_SIZE_BYTES"
    and dec: "fst (evp False key iv c tag)" "fst (snd (evp False key iv c tag)) = dat"
    by (simp_all add: c)
  have "AEEncryptWithRandomIV evp iv tag0 key dat = Inr (c @ iv @ tag)"
    using assms(5) \<open>success\<close> by (simp add: AEEncryptWithRandomIV_def AES_Process_def c AppendToBack_def)
  moreover have "AEDecrypt evp key (c @ iv @ tag) = Inr (True, dat)"
    using SplitFromBack_append [of TAG_SIZE_BYTES tag "c @ iv"] SplitFromBack_append [of IV_SIZE_BYTES iv c]
      \<open>length tag = _\<close> \<open>length c = _\<close> assms(3,5) dec
    by (simp add: AEDecrypt_def AES_Process_def split_def)
  ultimately show "\<exists>c. AEEncryptWithRandomIV evp iv tag0 key dat = Inr c \<and> AEDecrypt evp key c = Inr (True, dat)"
    by blast
  show "AEDecrypt evp key short = Inl AssertionFailed"
    using assms(6) split_loop_length [of TAG_SIZE_BYTES short "[]"]
    by (auto simp: AEDecrypt_def SplitFromBack_def split: prod.splits)
qed

theorem authenticated_encryption_round_trip_witness:
  "(\<exists>c. AEEncryptWithRandomIV (\<lambda>e key iv dat tag. (True, rev dat, replicate 12 1)) (replicate 12 5) (replicate 12 0) (replicate 16 9) [1, 2] = Inr c \<and>
      AEDecrypt (\<lambda>e key iv dat tag. (True, rev dat, replicate 12 1)) (replicate 16 9) c = Inr (True, [1, 2])) \<and>
    AEDecrypt (\<lambda>e key iv dat tag. (True, rev dat, replicate 12 1)) (replicate 16 9) [1, 2, 3] = Inl AssertionFailed"
  by (rule authenticated_encryption_round_trip)
    (simp_all add: aead_laws_def KEY_SIZE_BYTES_def IV_SIZE_BYTES_def TAG_SIZE_BYTES_def)

end
