(* ===== verification/Digests.thy ===== *)
theory Digests
  imports SRP6
begin

text \<open>
  The digest classes \<open>GenericHash\<close> (\<^verbatim>\<open>common/Cryptography/CryptoHash.h\<close>) and \<open>GenericHMAC\<close>
  (\<^verbatim>\<open>common/Cryptography/HMAC.h\<close>): a context of OpenSSL that is fed piece by piece, finalised
  once and then destroyed.  The other theories use them as functions of the whole data; here these
  functions are what the classes compute.  At the end of the operations, those of \<open>BigNumber\<close> on texts.
\<close>

section \<open>The classes\<close>

text \<open>OpenSSL: nothing is a result other than 1; a keyed digest gets its key at the initialisation.\<close>

record 'c md_library =
  md_init :: "bytes \<Rightarrow> 'c option"
  md_update :: "'c \<Rightarrow> bytes \<Rightarrow> 'c option"
  md_final :: "'c \<Rightarrow> bytes option"

record 'c generic_hash =
  gh_ctx :: "'c option"
  gh_digest :: bytes

text \<open>Both constructors; a digest without a key is initialised with none.\<close>

definition GenericHMAC_new :: "'c md_library \<Rightarrow> nat \<Rightarrow> bytes \<Rightarrow> 'c generic_hash result" where
  "GenericHMAC_new lib n seed =
     (case md_init lib seed of
        None \<Rightarrow> Inl AssertionFailed
      | Some ctx \<Rightarrow> Inr \<lparr>gh_ctx = Some ctx, gh_digest = replicate n 0\<rparr>)"

definition GenericHash_new :: "'c md_library \<Rightarrow> nat \<Rightarrow> 'c generic_hash result" where
  "GenericHash_new lib n = GenericHMAC_new lib n []"

definition Hash_UpdateData :: "'c md_library \<Rightarrow> bytes \<Rightarrow> 'c generic_hash \<Rightarrow> 'c generic_hash result" where
  "Hash_UpdateData lib data h =
     (case gh_ctx h of
        None \<Rightarrow> Inl UndefinedBehaviour
      | Some ctx \<Rightarrow>
          (case md_update lib ctx data of
             None \<Rightarrow> Inl AssertionFailed
           | Some ctx' \<Rightarrow> Inr (h\<lparr>gh_ctx := Some ctx'\<rparr>)))"

definition Hash_Finalize :: "'c md_library \<Rightarrow> nat \<Rightarrow> 'c generic_hash \<Rightarrow> 'c generic_hash result" where
  "Hash_Finalize lib n h =
     (case gh_ctx h of
        None \<Rightarrow> Inl UndefinedBehaviour
      | Some ctx \<Rightarrow>
          (case md_final lib ctx of
             None \<Rightarrow> Inl AssertionFailed
           | Some out \<Rightarrow>
               if length out \<noteq> n then Inl AssertionFailed else Inr \<lparr>gh_ctx = None, gh_digest = out\<rparr>))"

fun update_pack :: "'c md_library \<Rightarrow> bytes list \<Rightarrow> 'c generic_hash \<Rightarrow> 'c generic_hash result" where
  "update_pack lib [] h = Inr h"
| "update_pack lib (data # pack) h = rbind (Hash_UpdateData lib data h) (update_pack lib pack)"

definition HMAC_GetDigestOf :: "'c md_library \<Rightarrow> nat \<Rightarrow> bytes \<Rightarrow> bytes list \<Rightarrow> bytes result" where
  "HMAC_GetDigestOf lib n seed pack =
     rbind (GenericHMAC_new lib n seed) (\<lambda>h.
     rbind (update_pack lib pack h) (\<lambda>h.
     rbind (Hash_Finalize lib n h) (\<lambda>h. Inr (gh_digest h))))"

definition Hash_GetDigestOf :: "'c md_library \<Rightarrow> nat \<Rightarrow> bytes list \<Rightarrow> bytes result" where
  "Hash_GetDigestOf lib n pack =
     rbind (GenericHash_new lib n) (\<lambda>h.
     rbind (update_pack lib pack h) (\<lambda>h.
     rbind (Hash_Finalize lib n h) (\<lambda>h. Inr (gh_digest h))))"

section \<open>Big numbers as text\<close>

text \<open>
  The operations of \<open>BigNumber\<close> that are one call of OpenSSL: texts, random numbers and copies.  \<open>BN_hex2bn\<close>
  returns the number of digits it has read, 0 for none, and the number afterwards.
\<close>

definition SetHexStr :: "(string \<Rightarrow> 'b \<Rightarrow> int \<times> 'b) \<Rightarrow> string \<Rightarrow> 'b \<Rightarrow> bool \<times> 'b" where
  "SetHexStr BN_hex2bn str bn = (let (n, bn) = BN_hex2bn str bn in (n > 0, bn))"

definition SetRand :: "(int \<Rightarrow> int \<Rightarrow> int \<Rightarrow> 'b) \<Rightarrow> int \<Rightarrow> 'b" where
  "SetRand BN_rand numbits = BN_rand numbits 0 1"

definition AsHexStr :: "('b \<Rightarrow> string) \<Rightarrow> 'b \<Rightarrow> string" where
  "AsHexStr BN_bn2hex bn = takeWhile (\<lambda>c. c \<noteq> CHR 0x00) (BN_bn2hex bn)"

definition AsDecStr :: "('b \<Rightarrow> string) \<Rightarrow> 'b \<Rightarrow> string" where
  "AsDecStr BN_bn2dec bn = takeWhile (\<lambda>c. c \<noteq> CHR 0x00) (BN_bn2dec bn)"

section \<open>What OpenSSL promises\<close>

text \<open>
  A context stands for a key and the data it was fed so far; its end is the digest of these.
\<close>

definition md_laws :: "('c \<Rightarrow> bytes \<times> bytes) \<Rightarrow> 'c md_library \<Rightarrow> nat \<Rightarrow> (bytes \<Rightarrow> bytes \<Rightarrow> bytes) \<Rightarrow> bool" where
  "md_laws fed lib n h \<longleftrightarrow>
     (\<forall>key. \<exists>c. md_init lib key = Some c \<and> fed c = (key, [])) \<and>
     (\<forall>c data. \<exists>c'. md_update lib c data = Some c' \<and> fed c' = (fst (fed c), snd (fed c) @ data)) \<and>
     (\<forall>c. md_final lib c = Some (h (fst (fed c)) (snd (fed c)))) \<and>
     (\<forall>key data. length (h key data) = n)"

text \<open>A library whose contexts are the data themselves satisfies the laws.\<close>

definition plain_library :: "(bytes \<Rightarrow> bytes \<Rightarrow> bytes) \<Rightarrow> (bytes \<times> bytes) md_library" where
  "plain_library h = \<lparr>md_init = (\<lambda>key. Some (key, [])), md_update = (\<lambda>(key, d) data. Some (key, d @ data)),
     md_final = (\<lambda>(key, d). Some (h key d))\<rparr>"

lemma plain_library_laws: "\<forall>key data. length (h key data) = n \<Longrightarrow> md_laws id (plain_library h) n h"
  by (simp add: md_laws_def plain_library_def)

lemma update_pack_feeds:
  assumes "md_laws fed lib n h" "gh_ctx s = Some c"
  shows "\<exists>c'. update_pack lib pack s = Inr (s\<lparr>gh_ctx := Some c'\<rparr>) \<and> fed c' = (fst (fed c), snd (fed c) @ concat pack)"
  using assms(2)
proof (induction pack arbitrary: s c)
  case Nil
  have "s = s\<lparr>gh_ctx := Some c\<rparr>" using Nil by (cases s) simp
  then show ?case by auto
next
  case (Cons data pack)
  from assms(1) obtain c1 where c1: "md_update lib c data = Some c1" "fed c1 = (fst (fed c), snd (fed c) @ data)"
    unfolding md_laws_def by blast
  with Cons(1) [of "s\<lparr>gh_ctx := Some c1\<rparr>" c1] Cons(2) show ?case by (simp add: Hash_UpdateData_def)
qed

lemma GetDigestOf_keyed:
  assumes "md_laws fed lib n h"
  shows "HMAC_GetDigestOf lib n key pack = Inr (h key (concat pack))"
proof -
  obtain c where c: "md_init lib key = Some c" "fed c = (key, [])" using assms unfolding md_laws_def by blast
  let ?s = "\<lparr>gh_ctx = Some c, gh_digest = replicate n 0\<rparr>"
  obtain c' where "update_pack lib pack ?s = Inr (?s\<lparr>gh_ctx := Some c'\<rparr>)" "fed c' = (key, concat pack)"
    using update_pack_feeds [OF assms, of ?s c pack] c(2) by auto
  then show ?thesis
    using assms c(1) by (simp add: HMAC_GetDigestOf_def GenericHMAC_new_def Hash_Finalize_def md_laws_def)
qed

section \<open>Properties\<close>

text \<open>
  The digest classes compute the digest of the concatenation of their arguments and fail no
  assertion: \<open>GenericHash\<close> the function \<open>GetDigestOf\<close> of the key agreement, \<open>GenericHMAC\<close> the keyed digest
  of the one-time passwords.  A finalised object has no context left: using it again is undefined.
\<close>
theorem digests_of_packs:
  assumes "md_laws fed lib n h"
  shows "Hash_GetDigestOf lib n pack = Inr (GetDigestOf (h []) pack) \<and>
    HMAC_GetDigestOf lib n key pack = Inr (h key (concat pack)) \<and>
    (Hash_Finalize lib n s = Inr s' \<longrightarrow>
      Hash_UpdateData lib data s' = Inl UndefinedBehaviour \<and> Hash_Finalize lib n s' = Inl UndefinedBehaviour)"
proof -
  have "Hash_GetDigestOf lib n pack = HMAC_GetDigestOf lib n [] pack"
    by (simp add: Hash_GetDigestOf_def HMAC_GetDigestOf_def GenericHash_new_def)
  moreover have "gh_ctx s' = None" if "Hash_Finalize lib n s = Inr s'"
    using that by (auto simp: Hash_Finalize_def split: option.splits if_splits)
  ultimately show ?thesis
    using GetDigestOf_keyed [OF assms] by (simp add: GetDigestOf_def Hash_UpdateData_def Hash_Finalize_def)
qed

theorem digests_of_packs_witness:
  "HMAC_GetDigestOf (plain_library (\<lambda>key d. [sum_list key, sum_list d])) 2 [1] [[2, 3], [4]] = Inr [1, 9]"
  using digests_of_packs [OF plain_library_laws [of "\<lambda>key d. [sum_list key, sum_list d]" 2], of "[[2, 3], [4]]" "[1]"]
  by simp

end
