(* ===== verification/Process.thy ===== *)
theory Process
  imports Prelude
begin

text \<open>
  Child processes (\<^verbatim>\<open>common/Utilities/StartProcess.cpp\<close>): the sink that logs the output of a child line
  by line, the start of a process and the handle of a process started in the background.  The
  operating system and Boost.Process are parameters or steps of the environment: what a child
  writes, how it ends, and that a pipe holds a bounded number of characters.
\<close>

section \<open>The sink\<close>

definition line_end :: "char \<Rightarrow> bool" where
  "line_end c \<longleftrightarrow> c = CHR 0x0D \<or> c = CHR 0x0A"

text \<open>\<open>WHLogSink::write\<close>: how much is taken, and the call of the callback if there is one.\<close>

definition sink_write :: "string \<Rightarrow> nat \<times> string list" where
  "sink_write str =
     (let lineEnd = length (takeWhile (\<lambda>c. \<not> line_end c) str);
          (consoleStr, processedCharacters) =
            (if lineEnd < length str then (take lineEnd str, lineEnd + 1) else (str, length str))
      in (processedCharacters, if consoleStr \<noteq> [] then [consoleStr] else []))"

lemma sink_write_takes: "str \<noteq> [] \<Longrightarrow> 0 < fst (sink_write str)"
  by (simp add: sink_write_def Let_def)

text \<open>\<open>copy\<close> hands a block it has read to the sink until all of it is taken.\<close>

function sink_block :: "string \<Rightarrow> string list" where
  "sink_block str = (if str = [] then [] else snd (sink_write str) @ sink_block (drop (fst (sink_write str)) str))"
  by pat_completeness auto
termination
  by (relation "measure length") (auto simp: sink_write_takes intro!: diff_less)

declare sink_block.simps [simp del]

definition copy_stream :: "string list \<Rightarrow> string list" where
  "copy_stream blocks = concat (map sink_block blocks)"

section \<open>Starting a process\<close>

datatype log_line = LogTrace string string | LogInfo string string | LogError string string

text \<open>
  The host: whether an input file can be opened, the absolute path of an executable, and the life of
  a child from its executable, its arguments and its standard input: the blocks read from its
  two outputs and its exit code, nothing when the wait fails.
\<close>

record process_host =
  ph_fopen :: "string \<Rightarrow> bool"
  ph_absolute :: "string \<Rightarrow> string"
  ph_child :: "string \<Rightarrow> string list \<Rightarrow> string option \<Rightarrow> string list \<times> string list \<times> int option"

definition EXIT_FAILURE :: int where
  "EXIT_FAILURE = 1"

fun join :: "string list \<Rightarrow> string" where
  "join [] = []"
| "join [x] = x"
| "join (x # xs) = x @ '' '' @ join xs"

definition CreateChildProcess ::
    "process_host \<Rightarrow> (int option \<Rightarrow> int) \<Rightarrow> (int \<Rightarrow> string) \<Rightarrow> string \<Rightarrow> string list \<Rightarrow> string \<Rightarrow> string \<Rightarrow> bool
      \<Rightarrow> int \<times> log_line list" where
  "CreateChildProcess h waiter print executable argsVector logger input secure =
     (let started = (if secure then [] else [LogTrace logger
            (''Starting process \"'' @ executable @ ''\" with arguments: \"'' @ join argsVector @ ''\".'')]);
          inputFile = (if input \<noteq> [] \<and> ph_fopen h input then Some input else None);
          (outStream, errStream, ended) = ph_child h (ph_absolute h executable) argsVector inputFile;
          result = waiter ended
      in (result, started @ map (LogInfo logger) (copy_stream outStream) @ map (LogError logger) (copy_stream errStream) @
            (if secure then [] else [LogTrace logger
               (''>> Process \"'' @ executable @ ''\" finished with return value '' @ print result @ ''.'')])))"

definition StartProcess ::
    "process_host \<Rightarrow> (int \<Rightarrow> string) \<Rightarrow> string \<Rightarrow> string list \<Rightarrow> string \<Rightarrow> string \<Rightarrow> bool \<Rightarrow> int \<times> log_line list" where
  "StartProcess h print executable args logger input_file secure =
     CreateChildProcess h (\<lambda>ended. case ended of None \<Rightarrow> EXIT_FAILURE | Some exit_code \<Rightarrow> exit_code)
       print executable args logger input_file secure"

text \<open>\<open>search_path\<close> may throw.\<close>

definition SearchExecutableInPath :: "(string \<Rightarrow> string option) \<Rightarrow> string \<Rightarrow> string" where
  "SearchExecutableInPath search_path filename = (case search_path filename of None \<Rightarrow> [] | Some p \<Rightarrow> p)"

section \<open>Lines\<close>

text \<open>The lines of a text that are not empty: the maximal pieces without a line end.\<close>

fun log_lines :: "string \<Rightarrow> string \<Rightarrow> string list" where
  "log_lines cur [] = (if cur = [] then [] else [cur])"
| "log_lines cur (c # s) =
     (if line_end c then (if cur = [] then [] else [cur]) @ log_lines [] s else log_lines (cur @ [c]) s)"

lemma log_lines_plain: "list_all (\<lambda>c. \<not> line_end c) p \<Longrightarrow> log_lines cur (p @ s) = log_lines (cur @ p) s"
  by (induction p arbitrary: cur) simp_all

lemma sink_block_lines: "sink_block s = log_lines [] s"
proof (induction s rule: sink_block.induct)
  case (1 s)
  show ?case
  proof (cases "s = []")
    case False
    let ?p = "takeWhile (\<lambda>c. \<not> line_end c) s"
    have plain: "list_all (\<lambda>c. \<not> line_end c) ?p" by (auto simp: list_all_iff dest: set_takeWhileD)
    show ?thesis
    proof (cases "length ?p < length s")
      case True
      then obtain c r where r: "s = ?p @ c # r" "line_end c"
        by (metis append_self_conv dropWhile_eq_Cons_conv less_irrefl neq_Nil_conv takeWhile_dropWhile_id)
      then have w: "take (length ?p) s = ?p" "drop (length ?p + 1) s = r"
        by (metis append_eq_conv_conj, metis append_eq_conv_conj drop_Suc_Cons drop_drop add.commute plus_1_eq_Suc drop0)
      with 1 [OF False] True have "sink_block s = (if ?p = [] then [] else [?p]) @ log_lines [] r"
        by (subst sink_block.simps) (simp add: False sink_write_def Let_def)
      also have "\<dots> = log_lines [] (?p @ c # r)" using r(2) by (simp add: log_lines_plain [OF plain])
      finally show ?thesis using r(1) by simp
    next
      case all: False
      then have p: "?p = s" by (metis length_takeWhile_le linorder_not_less order_le_less takeWhile_eq_take take_all_iff)
      then have "sink_write s = (length s, [s])" unfolding sink_write_def p Let_def using False by simp
      moreover have "log_lines [] s = [s]" using log_lines_plain [OF plain [unfolded p], of "[]" "[]"] False by simp
      ultimately show ?thesis using False by (subst sink_block.simps) (simp add: sink_block.simps [of "[]"])
    qed
  qed (simp add: sink_block.simps)
qed

lemma log_lines_text: "concat (log_lines cur s) = cur @ filter (\<lambda>c. \<not> line_end c) s"
  by (induction cur s rule: log_lines.induct) auto

lemma log_lines_clean:
  "list_all (\<lambda>c. \<not> line_end c) cur \<Longrightarrow> list_all (\<lambda>l. l \<noteq> [] \<and> list_all (\<lambda>c. \<not> line_end c) l) (log_lines cur s)"
  by (induction cur s rule: log_lines.induct) auto

lemma log_lines_append:
  "s = [] \<or> line_end (last s) \<Longrightarrow> log_lines cur (s @ t) = (if s = [] then log_lines cur t else log_lines cur s @ log_lines [] t)"
  by (induction cur s rule: log_lines.induct) (auto split: if_splits)

section \<open>Reading the two outputs\<close>

text \<open>
  The child writes character by character into two pipes of bounded capacity and blocks on a full one.
  \<open>CreateChildProcess\<close> copies its standard output until the end of that stream, which comes when the
  child has ended, then its standard error, then it waits.
\<close>

datatype reader = CopyOut | CopyErr | Wait | Ended

record pipes =
  pp_child :: "(bool \<times> char) list"
  pp_out :: string
  pp_err :: string
  pp_reader :: reader
  pp_read_out :: string
  pp_read_err :: string

definition pipes_new :: "(bool \<times> char) list \<Rightarrow> pipes" where
  "pipes_new child = \<lparr>pp_child = child, pp_out = [], pp_err = [], pp_reader = CopyOut, pp_read_out = [], pp_read_err = []\<rparr>"

inductive pipe_step :: "nat \<Rightarrow> pipes \<Rightarrow> pipes \<Rightarrow> bool" for capacity :: nat where
  write_out: "pp_child p = (False, c) # rest \<Longrightarrow> length (pp_out p) < capacity \<Longrightarrow>
    pipe_step capacity p (p\<lparr>pp_child := rest, pp_out := pp_out p @ [c]\<rparr>)"
| write_err: "pp_child p = (True, c) # rest \<Longrightarrow> length (pp_err p) < capacity \<Longrightarrow>
    pipe_step capacity p (p\<lparr>pp_child := rest, pp_err := pp_err p @ [c]\<rparr>)"
| read_out: "pp_reader p = CopyOut \<Longrightarrow> pp_out p = block @ rest \<Longrightarrow> block \<noteq> [] \<Longrightarrow>
    pipe_step capacity p (p\<lparr>pp_out := rest, pp_read_out := pp_read_out p @ block\<rparr>)"
| out_ends: "pp_reader p = CopyOut \<Longrightarrow> pp_out p = [] \<Longrightarrow> pp_child p = [] \<Longrightarrow>
    pipe_step capacity p (p\<lparr>pp_reader := CopyErr\<rparr>)"
| read_err: "pp_reader p = CopyErr \<Longrightarrow> pp_err p = block @ rest \<Longrightarrow> block \<noteq> [] \<Longrightarrow>
    pipe_step capacity p (p\<lparr>pp_err := rest, pp_read_err := pp_read_err p @ block\<rparr>)"
| err_ends: "pp_reader p = CopyErr \<Longrightarrow> pp_err p = [] \<Longrightarrow> pp_child p = [] \<Longrightarrow>
    pipe_step capacity p (p\<lparr>pp_reader := Wait\<rparr>)"
| child_waited: "pp_reader p = Wait \<Longrightarrow> pp_child p = [] \<Longrightarrow>
    pipe_step capacity p (p\<lparr>pp_reader := Ended\<rparr>)"

definition written :: "bool \<Rightarrow> (bool \<times> char) list \<Rightarrow> string" where
  "written stream child = map snd (filter (\<lambda>(s, _). s = stream) child)"

definition pipes_inv :: "nat \<Rightarrow> (bool \<times> char) list \<Rightarrow> pipes \<Rightarrow> bool" where
  "pipes_inv capacity child p \<longleftrightarrow>
     pp_read_out p @ pp_out p @ written False (pp_child p) = written False child \<and>
     pp_read_err p @ pp_err p @ written True (pp_child p) = written True child \<and>
     length (pp_err p) \<le> capacity \<and>
     (pp_reader p = CopyOut \<longrightarrow> pp_read_err p = []) \<and>
     (pp_reader p \<noteq> CopyOut \<longrightarrow> pp_child p = [] \<and> pp_out p = [] \<and> length (written True child) \<le> capacity) \<and>
     (pp_reader p \<in> {Wait, Ended} \<longrightarrow> pp_err p = [])"

lemma written_simps [simp]:
  "written s [] = []" "written s ((s', c) # r) = (if s' = s then c # written s r else written s r)"
  by (simp_all add: written_def)

lemma pipes_inv_new: "pipes_inv capacity child (pipes_new child)"
  by (simp add: pipes_inv_def pipes_new_def)

lemma pipes_inv_step: "pipe_step capacity p p' \<Longrightarrow> pipes_inv capacity child p \<Longrightarrow> pipes_inv capacity child p'"
  by (induction rule: pipe_step.induct) (auto simp: pipes_inv_def)

lemma pipes_inv_reachable: "(pipe_step capacity)\<^sup>*\<^sup>* (pipes_new child) p \<Longrightarrow> pipes_inv capacity child p"
  by (induction rule: rtranclp_induct) (auto intro: pipes_inv_new pipes_inv_step)

text \<open>Every step uses up characters to write, characters to read, or a phase of the reader.\<close>

fun phases_left :: "reader \<Rightarrow> nat" where
  "phases_left CopyOut = 3"
| "phases_left CopyErr = 2"
| "phases_left Wait = 1"
| "phases_left Ended = 0"

definition work_left :: "pipes \<Rightarrow> nat" where
  "work_left p = 2 * length (pp_child p) + length (pp_out p) + length (pp_err p) + phases_left (pp_reader p)"

lemma work_decreases: "pipe_step capacity p p' \<Longrightarrow> work_left p' < work_left p"
  by (induction rule: pipe_step.induct) (auto simp: work_left_def)

lemma pipes_progress:
  assumes inv: "pipes_inv capacity child p" and "0 < capacity" "length (written True child) \<le> capacity" "pp_reader p \<noteq> Ended"
  shows "\<exists>p'. pipe_step capacity p p'"
proof (cases "pp_reader p")
  case CopyOut
  show ?thesis
  proof (cases "pp_out p = []")
    case False
    then show ?thesis using read_out [OF CopyOut, of "pp_out p" "[]"] by auto
  next
    case True
    show ?thesis
    proof (cases "pp_child p")
      case Nil
      with True CopyOut show ?thesis by (blast intro: out_ends)
    next
      case (Cons w rest)
      obtain s c where w: "w = (s, c)" by force
      show ?thesis
      proof (cases s)
        case False
        with write_out [of p c rest capacity] Cons w True assms(2) show ?thesis by auto
      next
        case s: True
        have "pp_err p @ written True (pp_child p) = written True child"
          using inv CopyOut by (auto simp: pipes_inv_def)
        then have "length (pp_err p) + length (written True (pp_child p)) = length (written True child)"
          by (metis length_append)
        with assms(3) Cons w s have "length (pp_err p) < capacity" by simp
        with write_err [of p c rest capacity] Cons w s show ?thesis by auto
      qed
    qed
  qed
next
  case CopyErr
  with inv have "pp_child p = []" by (simp add: pipes_inv_def)
  with CopyErr show ?thesis using read_err [OF CopyErr, of "pp_err p" "[]"] by (cases "pp_err p = []") (auto intro: err_ends)
next
  case Wait
  with inv have "pp_child p = []" by (simp add: pipes_inv_def)
  with Wait show ?thesis by (blast intro: child_waited)
qed (use assms(4) in simp)

section \<open>The handle of a process in the background\<close>

text \<open>
  The thread of the process copies the outputs first; only its waiter publishes the child in
  \<open>my_child\<close>.  \<open>Terminate\<close>, in another thread, first looks at \<open>my_child\<close> and sets \<open>was_terminated\<close>, then
  uses \<open>my_child\<close>.
\<close>

datatype worker = NotStarted | Copying | Waiting | Returned int

record handle =
  hd_worker :: worker
  hd_my_child :: bool
  hd_was_terminated :: bool
  hd_terminating :: bool
  hd_killed :: bool

definition handle_new :: handle where
  "handle_new = \<lparr>hd_worker = NotStarted, hd_my_child = False, hd_was_terminated = False, hd_terminating = False, hd_killed = False\<rparr>"

definition Handle_StartProcess :: "handle \<Rightarrow> handle result" where
  "Handle_StartProcess h = (if hd_my_child h then Inl AssertionFailed else Inr (h\<lparr>hd_worker := Copying\<rparr>))"

definition waiter_publish :: "handle \<Rightarrow> handle" where
  "waiter_publish h = h\<lparr>hd_worker := Waiting, hd_my_child := True\<rparr>"

definition waiter_return :: "int option \<Rightarrow> handle \<Rightarrow> handle" where
  "waiter_return ended h =
     (let exitCode = (case ended of None \<Rightarrow> EXIT_FAILURE | Some e \<Rightarrow> e)
      in h\<lparr>hd_my_child := False, hd_worker := Returned (if hd_was_terminated h then EXIT_FAILURE else exitCode)\<rparr>)"

definition Terminate_check :: "handle \<Rightarrow> handle" where
  "Terminate_check h = (if hd_my_child h then h\<lparr>hd_was_terminated := True, hd_terminating := True\<rparr> else h)"

definition Terminate_call :: "handle \<Rightarrow> handle result" where
  "Terminate_call h =
     (if hd_my_child h then Inr (h\<lparr>hd_killed := True, hd_terminating := False\<rparr>) else Inl UndefinedBehaviour)"

inductive handle_step :: "handle \<Rightarrow> handle result \<Rightarrow> bool" where
  start: "hd_worker h = NotStarted \<Longrightarrow> handle_step h (Handle_StartProcess h)"
| publish: "hd_worker h = Copying \<Longrightarrow> handle_step h (Inr (waiter_publish h))"
| finish: "hd_worker h = Waiting \<Longrightarrow> handle_step h (Inr (waiter_return ended h))"
| check: "\<not> hd_terminating h \<Longrightarrow> handle_step h (Inr (Terminate_check h))"
| call: "hd_terminating h \<Longrightarrow> handle_step h (Terminate_call h)"

inductive handle_reach :: "handle result \<Rightarrow> bool" where
  new: "handle_reach (Inr handle_new)"
| step: "handle_reach (Inr h) \<Longrightarrow> handle_step h r \<Longrightarrow> handle_reach r"

definition handle_ok :: "handle result \<Rightarrow> bool" where
  "handle_ok r =
     (case r of
        Inl e \<Rightarrow> e = UndefinedBehaviour
      | Inr h \<Rightarrow>
          (hd_my_child h \<longleftrightarrow> hd_worker h = Waiting) \<and>
          (hd_worker h \<in> {NotStarted, Copying} \<longrightarrow> \<not> hd_was_terminated h \<and> \<not> hd_terminating h \<and> \<not> hd_killed h) \<and>
          (hd_killed h \<or> hd_terminating h \<longrightarrow> hd_was_terminated h) \<and>
          (\<forall>e. hd_worker h = Returned e \<longrightarrow> hd_was_terminated h \<longrightarrow> e = EXIT_FAILURE))"

lemmas handle_defs = Handle_StartProcess_def waiter_publish_def waiter_return_def Terminate_check_def Terminate_call_def

lemma handle_ok_step: "handle_step h r \<Longrightarrow> handle_ok (Inr h) \<Longrightarrow> handle_ok r"
  by (induction rule: handle_step.induct) (auto simp: handle_ok_def handle_defs Let_def)

lemma handle_ok_reach: "handle_reach r \<Longrightarrow> handle_ok r"
proof (induction rule: handle_reach.induct)
  case new
  show ?case by (simp add: handle_ok_def handle_new_def)
next
  case (step h r)
  then show ?case by (blast intro: handle_ok_step)
qed

section \<open>Properties\<close>

text \<open>
  The sink logs the lines of what it is given: its messages are the lines that are not empty, in
  order, none contains a line end, and however the output is cut into blocks, no other character
  is lost.  Blocks that end with lines give the lines of the whole output.
\<close>
theorem sink_logs_lines:
  "sink_block s = log_lines [] s \<and>
   list_all (\<lambda>l. l \<noteq> [] \<and> list_all (\<lambda>c. \<not> line_end c) l) (sink_block s) \<and>
   concat (copy_stream blocks) = filter (\<lambda>c. \<not> line_end c) (concat blocks)"
proof -
  have "concat (copy_stream blocks) = filter (\<lambda>c. \<not> line_end c) (concat blocks)"
    by (induction blocks) (simp_all add: copy_stream_def sink_block_lines log_lines_text)
  then show ?thesis using log_lines_clean [of "[]" s] by (simp add: sink_block_lines)
qed

lemma whole_lines:
  "list_all (\<lambda>b. b \<noteq> [] \<and> line_end (last b)) blocks \<Longrightarrow> copy_stream blocks = log_lines [] (concat blocks)"
  by (induction blocks) (simp_all add: copy_stream_def sink_block_lines log_lines_append)

text \<open>
  A secure start logs neither the executable nor its arguments: two children with the same outputs
  leave the same log.
\<close>
theorem secure_hides_arguments:
  assumes "ph_child h (ph_absolute h exe1) args1 None = (outs, errs, e1)"
    and "ph_child h (ph_absolute h exe2) args2 None = (outs, errs, e2)"
  shows "snd (StartProcess h print exe1 args1 logger [] True) = snd (StartProcess h print exe2 args2 logger [] True)"
  using assms by (simp add: StartProcess_def CreateChildProcess_def Let_def)

text \<open>
  C22: reading the outputs one after the other ends exactly when the standard error fits into its pipe.
  If it does, every run makes progress, has at most as many steps as there is work, and ends with
  both outputs read completely; if it does not, no run ends: the child waits for
  room in the second pipe while its reader waits for the end of the first.
\<close>
theorem outputs_read_iff_fits:
  assumes "0 < capacity"
  shows "((\<exists>p. (pipe_step capacity)\<^sup>*\<^sup>* (pipes_new child) p \<and> pp_reader p = Ended) \<longleftrightarrow>
      length (written True child) \<le> capacity) \<and>
    (\<forall>p. (pipe_step capacity)\<^sup>*\<^sup>* (pipes_new child) p \<longrightarrow>
      (pp_reader p = Ended \<longrightarrow> pp_read_out p = written False child \<and> pp_read_err p = written True child) \<and>
      (length (written True child) \<le> capacity \<and> pp_reader p \<noteq> Ended \<longrightarrow> (\<exists>p'. pipe_step capacity p p')) \<and>
      (\<forall>p'. pipe_step capacity p p' \<longrightarrow> work_left p' < work_left p))"
proof -
  have ends: "\<exists>p'. (pipe_step capacity)\<^sup>*\<^sup>* p p' \<and> pp_reader p' = Ended"
    if "length (written True child) \<le> capacity" "pipes_inv capacity child p" for p
    using that(2)
  proof (induction "work_left p" arbitrary: p rule: less_induct)
    case less
    show ?case
    proof (cases "pp_reader p = Ended")
      case False
      from pipes_progress [OF less(2) assms that(1) False] obtain q where q: "pipe_step capacity p q" by blast
      with less(1) [OF work_decreases [OF q] pipes_inv_step [OF q less(2)]] show ?thesis
        by (meson converse_rtranclp_into_rtranclp)
    qed blast
  qed
  have "length (written True child) \<le> capacity"
    if "(pipe_step capacity)\<^sup>*\<^sup>* (pipes_new child) p" "pp_reader p = Ended" for p
    using pipes_inv_reachable [OF that(1)] that(2) by (simp add: pipes_inv_def)
  moreover have "pp_read_out p = written False child \<and> pp_read_err p = written True child"
    if "(pipe_step capacity)\<^sup>*\<^sup>* (pipes_new child) p" "pp_reader p = Ended" for p
    using pipes_inv_reachable [OF that(1)] that(2) by (auto simp: pipes_inv_def)
  ultimately show ?thesis
    using ends [OF _ pipes_inv_new] pipes_progress [OF pipes_inv_reachable assms] work_decreases by blast
qed

theorem outputs_read_iff_fits_witness:
  "\<not> (\<exists>p. (pipe_step 1)\<^sup>*\<^sup>* (pipes_new [(True, CHR ''a''), (True, CHR ''b'')]) p \<and> pp_reader p = Ended)"
  using outputs_read_iff_fits [of 1 "[(True, CHR ''a''), (True, CHR ''b'')]"] by simp

text \<open>
  \<open>Terminate\<close>: it has no effect before the outputs are read to their end, which is when the
  child is over or has closed them; a process that was terminated returns \<open>EXIT_FAILURE\<close>; and
  when the process ends between its check and its call it uses a reference that is gone.
\<close>
theorem terminate_effects:
  "(\<forall>h. handle_reach (Inr h) \<longrightarrow>
      (hd_worker h \<in> {NotStarted, Copying} \<longrightarrow> Terminate_check h = h) \<and>
      (\<forall>e. hd_worker h = Returned e \<longrightarrow> hd_was_terminated h \<longrightarrow> e = EXIT_FAILURE)) \<and>
   handle_reach (Inl UndefinedBehaviour) \<and> \<not> handle_reach (Inl AssertionFailed)"
proof -
  let ?h1 = "handle_new\<lparr>hd_worker := Copying\<rparr>" and ?h2 = "handle_new\<lparr>hd_worker := Waiting, hd_my_child := True\<rparr>"
  let ?h3 = "?h2\<lparr>hd_was_terminated := True, hd_terminating := True\<rparr>"
  have "handle_step handle_new (Inr ?h1)" using start [of handle_new] by (simp add: handle_defs handle_new_def)
  then have "handle_reach (Inr ?h1)" by (rule step [OF new])
  moreover have "handle_step ?h1 (Inr ?h2)" using publish [of ?h1] by (simp add: handle_defs handle_new_def)
  ultimately have "handle_reach (Inr ?h2)" by (rule step)
  moreover have "handle_step ?h2 (Inr ?h3)" using check [of ?h2] by (simp add: handle_defs handle_new_def)
  ultimately have "handle_reach (Inr ?h3)" by (rule step)
  moreover have "handle_step ?h3 (Inr (waiter_return (Some 0) ?h3))" using finish [of ?h3] by simp
  ultimately have "handle_reach (Inr (waiter_return (Some 0) ?h3))" by (rule step)
  moreover have "handle_step (waiter_return (Some 0) ?h3) (Inl UndefinedBehaviour)"
    using call [of "waiter_return (Some 0) ?h3"] by (simp add: handle_defs handle_new_def)
  ultimately have "handle_reach (Inl UndefinedBehaviour)" by (rule step)
  then show ?thesis
    using handle_ok_reach by (fastforce simp: handle_ok_def Terminate_check_def)
qed

end
