(* ===== verification/Assertions.thy ===== *)
theory Assertions
  imports Text
begin

text \<open>
  Reports of fatal errors (\<^verbatim>\<open>common/Debugging/Errors.cpp\<close> and \<^verbatim>\<open>Errors.h\<close>).  The other theories
  write a failed \<open>ASSERT\<close> as the value \<open>AssertionFailed\<close>; here is what it prints and that it ends the process.
\<close>

section \<open>Messages\<close>

text \<open>
  The field \<open>{:^w}\<close> of the formatting library: padded on both sides, the odd place on the right
  (\<open>write_padded\<close> of \<^verbatim>\<open>deps/fmt/include/fmt/format.h\<close>).
\<close>

definition write_padded_center :: "char \<Rightarrow> nat \<Rightarrow> string \<Rightarrow> string" where
  "write_padded_center fill spec_width s =
     (let padding = (if spec_width > length s then spec_width - length s else 0);
          left_padding = padding div 2;
          right_padding = padding - left_padding
      in replicate left_padding fill @ s @ replicate right_padding fill)"

definition newline :: string where
  "newline = [CHR 0x0A]"

definition quoted :: "string \<Rightarrow> string" where
  "quoted s = [CHR 0x27] @ s @ [CHR 0x27]"

definition int_text :: "int \<Rightarrow> string" where
  "int_text v = (if v < 0 then CHR ''-'' # nat_digits (nat (- v)) else nat_digits (nat v))"

definition frame :: "string \<Rightarrow> string" where
  "frame msg =
     ''#'' @ write_padded_center CHR ''-'' 70 [] @ ''#'' @ newline @
     '' '' @ write_padded_center CHR '' '' 70 msg @ '' '' @ newline @
     ''#'' @ write_padded_center CHR ''-'' 70 [] @ ''#'' @ newline"

definition MakeMessage :: "string \<Rightarrow> string \<Rightarrow> int \<Rightarrow> string \<Rightarrow> string \<Rightarrow> string \<Rightarrow> string \<Rightarrow> string" where
  "MakeMessage messageType file line function' message fmtMessage debugInfo =
     (let msg = newline @ ''>> '' @ messageType @ newline @ newline @
            ''# Location '' @ quoted (file @ '':'' @ int_text line) @ newline @
            ''# Function '' @ quoted function' @ newline @
            ''# Condition '' @ quoted message @ newline;
          msg = (if fmtMessage \<noteq> [] then msg @ ''# Message '' @ quoted fmtMessage @ newline else msg);
          msg = (if debugInfo \<noteq> [] then msg @ newline @ ''# Debug info: '' @ quoted debugInfo @ newline else msg)
      in frame msg)"

definition MakeAbortMessage :: "string \<Rightarrow> int \<Rightarrow> string \<Rightarrow> string \<Rightarrow> string" where
  "MakeAbortMessage file line function' fmtMessage =
     (let msg = newline @ ''>> ABORTED'' @ newline @ newline @
            ''# Location '' @ quoted (file @ '':'' @ int_text line) @ newline @
            ''# Function '' @ quoted function' @ newline;
          msg = (if fmtMessage \<noteq> [] then msg @ ''# Message '' @ quoted fmtMessage @ newline else msg)
      in frame msg)"

section \<open>Reports\<close>

text \<open>A process as far as the reports see it: its standard error, the seconds it slept, and the message it crashed with.\<close>

record reporting =
  rp_stderr :: string
  rp_slept :: nat
  rp_crashed :: "string option"

text \<open>\<open>fprintf\<close> with \<open>c_str\<close> stops at the first zero character.\<close>

definition print_stderr :: "string \<Rightarrow> reporting \<Rightarrow> reporting" where
  "print_stderr msg r = r\<lparr>rp_stderr := rp_stderr r @ takeWhile (\<lambda>c. c \<noteq> CHR 0x00) msg\<rparr>"

definition Crash :: "string \<Rightarrow> reporting \<Rightarrow> reporting" where
  "Crash msg r = r\<lparr>rp_crashed := Some (takeWhile (\<lambda>c. c \<noteq> CHR 0x00) msg)\<rparr>"

definition sleep_for :: "nat \<Rightarrow> reporting \<Rightarrow> reporting" where
  "sleep_for s r = r\<lparr>rp_slept := rp_slept r + s\<rparr>"

definition Assert :: "string \<Rightarrow> int \<Rightarrow> string \<Rightarrow> string \<Rightarrow> string \<Rightarrow> string \<Rightarrow> reporting \<Rightarrow> reporting" where
  "Assert file line function' debugInfo message fmtMessage r =
     (let m = MakeMessage ''ASSERTION FAILED'' file line function' message fmtMessage debugInfo
      in Crash m (print_stderr m r))"

definition Fatal :: "string \<Rightarrow> int \<Rightarrow> string \<Rightarrow> string \<Rightarrow> string \<Rightarrow> reporting \<Rightarrow> reporting" where
  "Fatal file line function' message fmtMessage r =
     (let m = MakeMessage ''FATAL ERROR'' file line function' message fmtMessage []
      in Crash m (sleep_for 10 (print_stderr m r)))"

definition Error :: "string \<Rightarrow> int \<Rightarrow> string \<Rightarrow> string \<Rightarrow> reporting \<Rightarrow> reporting" where
  "Error file line function' message r =
     (let m = MakeMessage ''ERROR'' file line function' message [] []
      in Crash m (sleep_for 10 (print_stderr m r)))"

definition Warning :: "string \<Rightarrow> int \<Rightarrow> string \<Rightarrow> string \<Rightarrow> reporting \<Rightarrow> reporting" where
  "Warning file line function' message r = print_stderr (MakeMessage ''WARNING'' file line function' message [] []) r"

definition Abort :: "string \<Rightarrow> int \<Rightarrow> string \<Rightarrow> string \<Rightarrow> reporting \<Rightarrow> reporting" where
  "Abort file line function' fmtMessage r =
     (let m = MakeAbortMessage file line function' fmtMessage in Crash m (print_stderr m r))"

definition AbortHandler :: "int \<Rightarrow> reporting \<Rightarrow> reporting" where
  "AbortHandler sigval r =
     (let m = ''Caught signal '' @ int_text sigval @ newline in Crash m (print_stderr m r))"

text \<open>The macro \<open>ASSERT\<close>.\<close>

definition WPAssert :: "bool \<Rightarrow> string \<Rightarrow> int \<Rightarrow> string \<Rightarrow> string \<Rightarrow> string \<Rightarrow> reporting \<Rightarrow> reporting" where
  "WPAssert cond file line function' message fmtMessage r =
     (if \<not> cond then Assert file line function' [] message fmtMessage r else r)"

section \<open>Properties\<close>

definition substring :: "string \<Rightarrow> string \<Rightarrow> bool" where
  "substring s t \<longleftrightarrow> (\<exists>l r. t = l @ s @ r)"

lemma substring_trans: "substring s t \<Longrightarrow> substring t u \<Longrightarrow> substring s u"
  unfolding substring_def by (metis append.assoc)

lemma substring_frame: "substring msg (frame msg)"
proof -
  obtain l r where "write_padded_center CHR '' '' 70 msg = l @ msg @ r"
    by (auto simp: write_padded_center_def Let_def)
  then show ?thesis unfolding substring_def frame_def by (metis append.assoc)
qed

lemma c_str_plain: "CHR 0x00 \<notin> set msg \<Longrightarrow> takeWhile (\<lambda>c. c \<noteq> CHR 0x00) msg = msg"
  by (simp add: takeWhile_eq_all_conv) metis

lemma set_frame: "CHR 0x00 \<notin> set msg \<Longrightarrow> CHR 0x00 \<notin> set (frame msg)"
  by (auto simp: frame_def write_padded_center_def newline_def Let_def)

lemma set_int_text: "CHR 0x00 \<notin> set (int_text v)"
proof -
  have "CHR 0x00 \<notin> set (nat_digits n)" for n
  proof
    assume "CHR 0x00 \<in> set (nat_digits n)"
    then obtain d where d: "d < 10" "CHR 0x00 = digit_char d" using nat_digits_set by blast
    have "code (digit_char d) = d + 48" using d(1) by (simp add: digit_char_def)
    then show False unfolding d(2) [symmetric] by (simp add: code_def)
  qed
  then show ?thesis by (simp add: int_text_def)
qed

text \<open>
  An \<open>ASSERT\<close> that holds does nothing; one that fails ends the process, and the report on the standard
  error, which is also the message of the crash, contains the place and the condition.
\<close>
theorem assert_reports:
  assumes "CHR 0x00 \<notin> set (file @ function' @ message @ fmtMessage)"
  shows "WPAssert True file line function' message fmtMessage r = r \<and>
    (\<exists>m. WPAssert False file line function' message fmtMessage r =
        r\<lparr>rp_stderr := rp_stderr r @ m, rp_crashed := Some m\<rparr> \<and>
      substring (quoted (file @ '':'' @ int_text line)) m \<and> substring (''# Condition '' @ quoted message) m)"
proof -
  define m1 where "m1 = newline @ ''>> ASSERTION FAILED'' @ newline @ newline @ ''# Location ''"
  define m2 where "m2 = newline @ ''# Function '' @ quoted function' @ newline"
  define m3 where "m3 = newline @ (if fmtMessage \<noteq> [] then ''# Message '' @ quoted fmtMessage @ newline else [])"
  define msg where "msg = m1 @ quoted (file @ '':'' @ int_text line) @ m2 @ (''# Condition '' @ quoted message) @ m3"
  have m: "MakeMessage ''ASSERTION FAILED'' file line function' message fmtMessage [] = frame msg"
    by (simp add: MakeMessage_def msg_def m1_def m2_def m3_def Let_def)
  have "CHR 0x00 \<notin> set msg"
    using assms set_int_text [of line] by (auto simp: msg_def m1_def m2_def m3_def newline_def quoted_def)
  then have c: "takeWhile (\<lambda>c. c \<noteq> CHR 0x00) (frame msg) = frame msg" by (intro c_str_plain set_frame)
  have "substring (quoted (file @ '':'' @ int_text line)) msg" unfolding substring_def msg_def by blast
  moreover have "substring (''# Condition '' @ quoted message) msg" unfolding substring_def msg_def by (metis append.assoc)
  ultimately have "substring (quoted (file @ '':'' @ int_text line)) (frame msg)"
    "substring (''# Condition '' @ quoted message) (frame msg)"
    by (auto intro: substring_trans [OF _ substring_frame])
  moreover have "WPAssert False file line function' message fmtMessage r =
      r\<lparr>rp_stderr := rp_stderr r @ frame msg, rp_crashed := Some (frame msg)\<rparr>"
    by (simp add: WPAssert_def Assert_def m c Crash_def print_stderr_def Let_def)
  moreover have "WPAssert True file line function' message fmtMessage r = r" by (simp add: WPAssert_def)
  ultimately show ?thesis by blast
qed

text \<open>Every report ends the process, except a warning; the two that are not assertions wait ten seconds before.\<close>

theorem reports_that_crash:
  "rp_crashed (Fatal file line f message fmt r) \<noteq> None \<and> rp_slept (Fatal file line f message fmt r) = rp_slept r + 10 \<and>
   rp_crashed (Error file line f message r) \<noteq> None \<and> rp_slept (Error file line f message r) = rp_slept r + 10 \<and>
   rp_crashed (Abort file line f fmt r) \<noteq> None \<and> rp_crashed (AbortHandler sigval r) \<noteq> None \<and>
   rp_crashed (Warning file line f message r) = rp_crashed r"
  by (simp add: Fatal_def Error_def Abort_def AbortHandler_def Warning_def Crash_def print_stderr_def sleep_for_def Let_def)

end
