(* ===== verification/Spec2Isabelle.thy ===== *)
theory Spec2Isabelle
  imports Utf8Unchecked PackedGuid BufferDump MPSCQueue MPSCIntrusive Program TaskScheduler Calendar Rollover IPLocation Crypto Digests Process Assertions
begin

text \<open>
  A verification development for WarheadDiscordClient, the process that connects a game
  server to a Discord gateway server over TCP: it authenticates, keeps the connection
  alive with pings, and sends the packets other parts queue.

  \<^bold>\<open>The program.\<close>  \<^verbatim>\<open>src/app/Main.cpp\<close> loads the configuration, initialises the connection
  manager and runs the I/O context.  The manager (\<^verbatim>\<open>src/client/Client/ClientSocketMgr.cpp\<close>)
  connects, reconnects and updates one socket from a timer.  The socket
  (\<^verbatim>\<open>ClientSocket.cpp\<close> over \<^verbatim>\<open>src/shared/Network/Socket.h\<close>) cuts the incoming bytes into
  packets, handles them, and frames the outgoing ones; it keeps bytes in message buffers
  (\<^verbatim>\<open>src/common/Utilities/MessageBuffer.h\<close>) and packet contents in byte buffers
  (\<^verbatim>\<open>src/shared/Packet/ByteBuffer.h\<close>), and takes packets of other threads from a queue
  (\<^verbatim>\<open>src/common/Threading\<close>).  The common library adds strings, configuration files, timers,
  a task scheduler and the vendored UTF-8 library.

  \<^bold>\<open>The theories\<close>, bottom up; each names its sources in its opening text.
    \<^item> \<open>Prelude\<close>: machine types, \<open>size_t\<close> arithmetic with its wrap-around, the failures of a
      C++ operation as values (\<open>cpp_error\<close>), the result type and shared lemmas.
    \<^item> \<open>ByteConverter\<close>: byte order of values in memory and its conversion.
    \<^item> \<open>Utf8\<close>, \<open>Utf8Unchecked\<close>: decoding, validation and conversion; \<open>is_valid\<close> accepts exactly the
      encodings of sequences of code points, the conversions are inverse to each other, the
      routines without checks agree with them, and the iterators walk over valid text.
    \<^item> \<open>MessageBuffer\<close>: the buffer between a socket and its reader, with the locale
      \<open>byte_queue\<close> it implements.
    \<^item> \<open>ByteBuffer\<close>, \<open>PackedGuid\<close>: writing and reading of values, with the locale of a codec and
      its interpretations; memory safety of every sequence of operations.
    \<^item> \<open>BufferDump\<close>: the trace dumps of a packet buffer and the messages of its exceptions.
    \<^item> \<open>DiscordDefs\<close>: opcodes, result codes, reflection tables (locale \<open>enum_table\<close>), the wire
      headers and the packet class.
    \<^item> \<open>PacketQueue\<close>: the locked queues (locale \<open>fifo_queue\<close>) and the blocking
      producer-consumer queue, with a step relation over the interleavings of its threads.
    \<^item> \<open>LinkedChain\<close>, \<open>MPSCQueue\<close>, \<open>MPSCIntrusive\<close>: chains of nodes with links still to be stored,
      and what a queue of many producers and one consumer promises (locale \<open>delivers\<close>),
      interpreted on the step relations of both lock-free queues; every atomic access is a step.
    \<^item> \<open>Socket\<close>, \<open>ClientSocket\<close>: the asynchronous socket and the client's handlers.
    \<^item> \<open>Sending\<close>, \<open>Framing\<close>, \<open>Protocol\<close>: the outgoing stream; the reader against a
      specification that parses whole frames; the properties of the connection.
    \<^item> \<open>ClientSocketMgr\<close>: the manager over a model of the timer's handlers.
    \<^item> \<open>ClientSafety\<close>, \<open>Program\<close>: an invariant of the connection and of the manager which all
      their operations keep, and \<open>main\<close> with its event loop as a step relation: handlers that
      run, expiring timers, completed reads and writes, packets queued meanwhile, the end.
    \<^item> \<open>TaskScheduler\<close>: the task queue, contexts and dispatch loops.
    \<^item> \<open>Text\<close>, \<open>Timers\<close>, \<open>Config\<close>: string utilities, timers and update statistics,
      configuration files and options.
    \<^item> \<open>Utilities\<close>, \<open>Calendar\<close>: enumeration flags, asynchronous callbacks, the game clock, stop
      watches and netmasks; the calendar functions over the time zone of the C library.
    \<^item> \<open>PocoLogging\<close>, \<open>Logging\<close>: the formatter, channels and loggers of the vendored Poco library,
      and over them the logging system of \<^verbatim>\<open>src/common/Logging\<close>, with the locale
      \<open>independent_options\<close> for the options that may be read in any order.
    \<^item> \<open>LogRotation\<close>: when Poco's file channel rotates its file, how it archives, compresses and
      purges, over a file system that is an association list of files.
    \<^item> \<open>PocoDateTime\<close>, \<open>Rollover\<close>: Poco's conversion of a time into a date and back, through a Julian
      day that is rounded; rotation at a time of the day or of the week, from its text to the search
      for the next such time in that calendar.
    \<^item> \<open>IPLocation\<close>: the database of address ranges and its binary search.
    \<^item> \<open>SRP6\<close>, \<open>Crypto\<close>: big numbers and the key agreement; one-time passwords, session keys,
      authenticated encryption and the encryption of a connection, with the locale
      \<open>piecewise\<close> of a stream cipher.
    \<^item> \<open>Digests\<close>: the digest classes over a context of OpenSSL, which compute the functions the two
      theories before use.
    \<^item> \<open>Process\<close>: child processes, the sink that logs their lines, their outputs as bounded pipes and
      the handle of one in the background; \<open>Assertions\<close>: the reports of fatal errors.

  \<^bold>\<open>How code is modelled.\<close>  A class is a record, an operation a function from the state to
  the new state, with \<open>'a result\<close> where it can throw, fail an assertion or do something
  undefined: \<open>Inl\<close> is that failure.  Sizes are \<^typ>\<open>nat\<close> with the wrap-around of
  \<open>size_t\<close> written out, machine integers are words.  What the code calls outside the
  repository is a parameter: the operating system's \<open>write_some\<close> and \<open>connect\<close> with their
  state, the clocks, the files, the callables of the scheduler, the random generator, the
  digests, ciphers and large numbers of OpenSSL, the formatting library.  The
  documented behaviour a property needs of them is a named hypothesis, e.g. \<open>write_ok\<close>.
  Loops that always end are recursive functions with their termination proof; the reader's
  loop, the two loops of the scheduler's dispatch and the search for the next rotation time may
  not end by themselves and are partial
  functions into \<open>option\<close>: that the reader's loop ends on all inputs is part of
  the refinement, and for the dispatch it is proved for handlers that schedule nothing and
  for repeating tasks; the search for a rotation time ends exactly for the times a clock
  shows, within 32080 of its steps.  The theorems on rotated logs are about rotation by size and at
  a time.  No fuel is
  used.

  \<^bold>\<open>What is shown.\<close>  The whole program is safe for every behaviour of the server, of the operating
  system and of the event loop, and ends when its server cannot be reached.  The reader refines the frame specification for every way the stream is
  cut into reads, never hangs and never fails an assertion; a connection becomes
  authenticated only by the server's acceptance; what is queued is sent in order and
  unaltered, and parses back; the buffers are memory safe and their codecs invert each
  other; the queues deliver every element once, in order, for every interleaving; the
  manager gives up after the attempts asked for and hands packets over in order; the
  scheduler keeps its queue sorted, runs due tasks in order and repeats without drift;
  configuration files are layered; numbers and hexadecimal strings survive their text form;
  the average over the last updates is the average.  A message is written by the nearest
  configured logger, whatever order the options were read in; the archives of a log file and the
  file itself hold every message, in order, and purging removes the oldest; a date comes back from its
  time, and a time from its date, however the Julian day between them is rounded; options have the
  type they are asked for; addresses are found in their
  ranges; both sides of the key agreement get the same key, and an encrypted stream is
  recovered however it is cut.  Several theorems state what
  the code does where that is not what it means to do: the handlers' uncaught exceptions,
  packets handled after a rejection, the second update chain after a reconnect, the null
  timer at shutdown, the delayed close of an idle socket, the asynchronous callable that
  cancels everything, the log message that is formatted twice, the last address of a range, the child that writes
  more to its standard error than a pipe holds, the rotation time that no clock shows.

  \<^bold>\<open>Not modelled.\<close>  The effect of the logging macros inside the other components (they catch
  every exception and change nothing there), the wrappers of Boost.Asio, OpenSSL itself (a
  parameter), the conversion of a floating-point number that the standard library does, the local time
  zone of Poco, the crash reports of Windows and generated constants,
  and the
  vendored libraries other than the UTF-8 one and the logging part of Poco.  Memory is
  modelled as the contents of the buffers; allocation never fails.
\<close>

end
